(* ===== verification/Prelude.thy ===== *)
theory Prelude
  imports Main "HOL-Library.Word" "HOL-Library.Monad_Syntax"
begin

text \<open>
  Shared vocabulary of the development: the C types of an LP64 target as machine words,
  address regions, and the lemmas on 64-bit words that every component uses.

  A pointer and a \<open>size_t\<close> are 64-bit words, so pointer arithmetic and size arithmetic wrap
  exactly as they do on the target. Reasoning happens on \<open>unat\<close>, the natural number a
  word stands for, under the no-overflow facts collected in \<open>u64\<close>.

  A call of the program that does not return (a failed \<open>assert\<close>, a loop that never ends, a call
  through a null pointer) is the value \<open>None\<close> of the \<open>option\<close> monad; \<open>Some\<close> is a normal return.
\<close>

unbundle bit_operations_syntax

named_theorems u64 "facts that move 64-bit word arithmetic to natural numbers"
named_theorems frame "facts that a write leaves a read unchanged"

section \<open>Types\<close>

type_synonym byte = "8 word"
type_synonym size_t = "64 word"
type_synonym ptr = "64 word"
type_synonym memory = "ptr \<Rightarrow> byte"

abbreviation (input) NULL :: ptr where "NULL \<equiv> 0"

text \<open>Sizes up to \<open>PTRDIFF_MAX\<close>: the sizes an object of a C program can have.\<close>

definition size_ok :: "size_t \<Rightarrow> bool" where
  "size_ok n \<longleftrightarrow> unat n < 2 ^ 63"

section \<open>Assertions\<close>

text \<open>\<open>ALLO_ASSERT\<close> of \<open>allo_assert.h\<close> in a hosted build: \<open>assert\<close>, which aborts.\<close>

definition ALLO_ASSERT :: "bool \<Rightarrow> unit option" where
  "ALLO_ASSERT b = (if b then Some () else None)"

lemma ALLO_ASSERT_simps [simp]:
  "ALLO_ASSERT True = Some ()" "ALLO_ASSERT False = None"
  by (simp_all add: ALLO_ASSERT_def)

lemma ALLO_ASSERT_Some [simp]: "ALLO_ASSERT b = Some u \<longleftrightarrow> b"
  by (simp add: ALLO_ASSERT_def)

section \<open>Words as natural numbers\<close>

lemma unat64_less [simp]: "unat (a :: 64 word) < 18446744073709551616"
proof -
  have "unat a < 2 ^ LENGTH(64)" by (rule unsigned_less)
  then show ?thesis by simp
qed

lemma unat_add64 [u64]: "unat a + unat b < 2 ^ 64 \<Longrightarrow> unat (a + b :: 64 word) = unat a + unat b"
  by (simp add: unat_word_ariths)

lemma unat_diff64 [u64]: "unat b \<le> unat a \<Longrightarrow> unat (a - b :: 64 word) = unat a - unat b"
  by (simp add: unat_sub word_le_nat_alt)

lemma unat_mult64 [u64]: "unat a * unat b < 2 ^ 64 \<Longrightarrow> unat (a * b :: 64 word) = unat a * unat b"
  by (simp add: unat_word_ariths)

lemma unat_of_nat64 [u64]: "n < 2 ^ 64 \<Longrightarrow> unat (word_of_nat n :: 64 word) = n"
  by (simp add: unat_of_nat)

lemma unat_Suc64 [u64]: "i < n \<Longrightarrow> unat (i + 1 :: 64 word) = Suc (unat i)"
proof -
  assume "i < n"
  then have "unat i + unat (1 :: 64 word) < 2 ^ 64"
    using unat64_less [of n] by (simp add: word_less_nat_alt del: unat64_less)
  then show ?thesis by (simp add: unat_add64)
qed

lemma unat_pred64 [u64]: "n \<noteq> 0 \<Longrightarrow> unat (n - 1 :: 64 word) = unat n - 1"
  by (simp add: unat_diff64 Suc_le_eq unat_gt_0)

lemma unat_pow64 [u64]: "k < 64 \<Longrightarrow> unat (2 ^ k :: 64 word) = 2 ^ k"
proof -
  assume "k < 64"
  then have "(2 :: nat) ^ k < 2 ^ 64" by (intro power_strict_increasing) simp_all
  then show ?thesis using unat_of_nat64 [of "2 ^ k"] by (simp del: of_nat_eq_iff)
qed

lemma unat_max64 [simp]: "unat (- 1 :: 64 word) = 18446744073709551615"
  by (simp add: unsigned_minus_1_eq_mask mask_eq_exp_minus_1)

lemma size_okD: "size_ok n \<Longrightarrow> unat n < 9223372036854775808"
  by (simp add: size_ok_def)

lemma unat_pos64: "n \<noteq> 0 \<Longrightarrow> 0 < unat (n :: 64 word)"
  by (simp add: unat_gt_0)

lemma unat_and_not_mask: "unat (x AND NOT (mask k) :: 64 word) = unat x div 2 ^ k * 2 ^ k"
proof -
  have eq: "x AND NOT (mask k) = push_bit k (drop_bit k x)"
    by (rule bit_word_eqI) (auto simp: bit_simps)
  have "unat x div 2 ^ k * 2 ^ k \<le> unat x"
    by (rule div_times_less_eq_dividend)
  then have "unat x div 2 ^ k * 2 ^ k < 2 ^ 64"
    by (rule le_less_trans) simp
  then show ?thesis
    by (simp add: eq unsigned_push_bit_eq unsigned_drop_bit_eq drop_bit_eq_div [where 'a = nat]
        push_bit_eq_mult [where 'a = nat] take_bit_eq_mod [where 'a = nat])
qed

lemma unat_drop_bit64 [u64]: "unat (drop_bit k x :: 64 word) = unat x div 2 ^ k"
  by (simp add: unsigned_drop_bit_eq drop_bit_eq_div [where 'a = nat] take_bit_eq_mod [where 'a = nat])

lemma unat_and_mask: "unat (x AND mask k :: 64 word) = unat x mod 2 ^ k"
  by (simp add: unsigned_take_bit_eq take_bit_eq_mod [where 'a = nat] flip: take_bit_eq_mask)

lemma word_eq_iff_unat: "(a :: 64 word) = b \<longleftrightarrow> unat a = unat b"
  by (auto dest: word_unat_eq_iff [THEN iffD2])

section \<open>Address regions\<close>

text \<open>\<open>region p n\<close>: the \<open>n\<close> bytes from \<open>p\<close> on, cut off at the end of the address space.\<close>

definition region :: "ptr \<Rightarrow> size_t \<Rightarrow> ptr set" where
  "region p n = {a. unat p \<le> unat a \<and> unat a < unat p + unat n}"

lemma mem_region [u64]: "a \<in> region p n \<longleftrightarrow> unat p \<le> unat a \<and> unat a < unat p + unat n"
  by (simp add: region_def)

lemma region_0 [simp]: "region p 0 = {}"
  by (auto simp: region_def)

text \<open>The comparison the byte loops make, \<open>a - p < n\<close>, is membership when nothing wraps.\<close>

lemma in_range_iff: "unat p + unat n \<le> 2 ^ 64 \<Longrightarrow> a - p < n \<longleftrightarrow> a \<in> region p n"
proof -
  assume nw: "unat p + unat n \<le> 2 ^ 64"
  show ?thesis
  proof (cases "unat p \<le> unat a")
    case True
    then show ?thesis by (auto simp: region_def word_less_nat_alt unat_diff64)
  next
    case False
    then have "unat (a - p) = 2 ^ 64 + unat a - unat p"
      by (simp add: unat_sub_if' word_le_nat_alt)
    with False nw show ?thesis by (auto simp: region_def word_less_nat_alt)
  qed
qed

lemma region_offset:
  "i < n \<Longrightarrow> unat p + unat n \<le> 2 ^ 64 \<Longrightarrow> p + i \<in> region p n"
  using in_range_iff [of p n "p + i"] by simp

lemma region_subset:
  "unat p \<le> unat q \<Longrightarrow> unat q + unat m \<le> unat p + unat n \<Longrightarrow> region q m \<subseteq> region p n"
  by (auto simp: region_def)

lemma region_disjoint:
  "unat p + unat n \<le> unat q \<or> unat q + unat m \<le> unat p \<Longrightarrow> region p n \<inter> region q m = {}"
  by (auto simp: region_def)

lemma region_disjoint_iff:
  assumes "n \<noteq> 0" "m \<noteq> 0"
  shows "region p n \<inter> region q m = {} \<longleftrightarrow>
    unat p + unat n \<le> unat q \<or> unat q + unat m \<le> unat p"
proof
  assume disj: "region p n \<inter> region q m = {}"
  have "p \<notin> region p n \<inter> region q m" "q \<notin> region p n \<inter> region q m"
    using disj by simp_all
  then show "unat p + unat n \<le> unat q \<or> unat q + unat m \<le> unat p"
    using assms [THEN unat_pos64] by (auto simp: region_def)
qed (rule region_disjoint)

lemma region_self: "n \<noteq> 0 \<Longrightarrow> p \<in> region p n"
  by (simp add: region_def unat_gt_0)

lemma region_mono: "unat m \<le> unat n \<Longrightarrow> region p m \<subseteq> region p n"
  by (auto simp: region_def)

lemma option_bind_Some_iff: "Option.bind x f = Some y \<longleftrightarrow> (\<exists>z. x = Some z \<and> f z = Some y)"
  by (cases x) auto

end
