(* ===== verification/Machine.thy ===== *)
theory Machine
  imports Prelude
begin

text \<open>
  The machine the allocators run on, and the memory helpers of \<open>include/allo_mem.h\<close> and
  \<open>src/allo_mem.c\<close>. Memory is a total map from addresses to bytes; 64-bit fields of the
  structures the code keeps in memory (free-list links, block headers, tables) are eight bytes,
  little endian. The sanitizer macros of \<open>include/allo_asan.h\<close> do not touch memory: the calls
  they make in a sanitizer build are recorded in the trace \<open>asan\<close>, which nothing reads.
  The field \<open>env\<close> holds what lies outside memory: the context structure of the allocator that
  runs (its \<open>_state\<close> array), then that of its child, down to the operating system's state.
\<close>

section \<open>Machine state\<close>

datatype asan_call = Poison ptr size_t | Unpoison ptr size_t

record 'e machine =
  mem :: memory
  asan :: "asan_call list"
  env :: 'e

definition ALLOC_POISON :: "ptr \<Rightarrow> size_t \<Rightarrow> 'e machine \<Rightarrow> 'e machine" where
  "ALLOC_POISON addr n s = s\<lparr>asan := Poison addr n # asan s\<rparr>"

definition ALLOC_UNPOISON :: "ptr \<Rightarrow> size_t \<Rightarrow> 'e machine \<Rightarrow> 'e machine" where
  "ALLOC_UNPOISON addr n s = s\<lparr>asan := Unpoison addr n # asan s\<rparr>"

lemma ALLOC_POISON_simps [simp]:
  "mem (ALLOC_POISON p n s) = mem s" "env (ALLOC_POISON p n s) = env s"
  by (simp_all add: ALLOC_POISON_def)

lemma ALLOC_UNPOISON_simps [simp]:
  "mem (ALLOC_UNPOISON p n s) = mem s" "env (ALLOC_UNPOISON p n s) = env s"
  by (simp_all add: ALLOC_UNPOISON_def)

section \<open>64-bit fields in memory\<close>

definition load64 :: "memory \<Rightarrow> ptr \<Rightarrow> 64 word" where
  "load64 m p = ucast (m p) OR push_bit 8 (ucast (m (p + 1))) OR push_bit 16 (ucast (m (p + 2)))
     OR push_bit 24 (ucast (m (p + 3))) OR push_bit 32 (ucast (m (p + 4)))
     OR push_bit 40 (ucast (m (p + 5))) OR push_bit 48 (ucast (m (p + 6)))
     OR push_bit 56 (ucast (m (p + 7)))"

definition store64 :: "ptr \<Rightarrow> 64 word \<Rightarrow> memory \<Rightarrow> memory" where
  "store64 p v m = (\<lambda>a. if a - p < 8 then ucast (drop_bit (8 * unat (a - p)) v) else m a)"

definition wr64 :: "ptr \<Rightarrow> 64 word \<Rightarrow> 'e machine \<Rightarrow> 'e machine" where
  "wr64 p v s = s\<lparr>mem := store64 p v (mem s)\<rparr>"

definition rd64 :: "'e machine \<Rightarrow> ptr \<Rightarrow> 64 word" where
  "rd64 s p = load64 (mem s) p"

lemma wr64_simps [simp]:
  "mem (wr64 p v s) = store64 p v (mem s)" "env (wr64 p v s) = env s" "asan (wr64 p v s) = asan s"
  by (simp_all add: wr64_def)

lemma bit_shifted_byte:
  "bit (push_bit k (ucast (b :: 8 word)) :: 64 word) n \<longleftrightarrow>
     k \<le> n \<and> n < 64 \<and> n < k + 8 \<and> bit b (n - k)"
  using bit_imp_le_length [of b "n - k"] by (auto simp: bit_simps)

lemma bit_low_byte: "bit (ucast (b :: 8 word) :: 64 word) n \<longleftrightarrow> n < 8 \<and> bit b n"
  using bit_imp_le_length [of b "n"] by (auto simp: bit_simps)

lemma byte_index:
  fixes n k :: nat
  assumes "8 * k \<le> n" "n < 8 * k + 8"
  shows "n div 8 = k" "n mod 8 = n - 8 * k"
  using assms by (simp_all add: div_nat_eqI minus_div_mult_eq_mod [symmetric])

lemma bit_load64:
  assumes n: "n < 64"
  shows "bit (load64 m p) n \<longleftrightarrow> bit (m (p + word_of_nat (n div 8))) (n mod 8)"
proof -
  consider "n < 8" | "8 \<le> n" "n < 16" | "16 \<le> n" "n < 24" | "24 \<le> n" "n < 32"
    | "32 \<le> n" "n < 40" | "40 \<le> n" "n < 48" | "48 \<le> n" "n < 56" | "56 \<le> n" "n < 64"
    using n by linarith
  then show ?thesis
    by cases (simp_all add: load64_def bit_or_iff bit_shifted_byte bit_low_byte
        byte_index [of 1] byte_index [of 2] byte_index [of 3] byte_index [of 4]
        byte_index [of 5] byte_index [of 6] byte_index [of 7])
qed

lemma bit_store64:
  assumes i: "i < 8"
  shows "bit (store64 p v m (p + word_of_nat i)) j \<longleftrightarrow> j < 8 \<and> bit v (8 * i + j)"
proof -
  have "unat (word_of_nat i :: 64 word) = i" "(word_of_nat i :: 64 word) < 8"
    using i by (simp_all add: word_less_nat_alt unat_of_nat)
  then show ?thesis by (auto simp: store64_def bit_simps)
qed

lemma load64_store64_same [simp]: "load64 (store64 p v m) p = v"
proof (rule bit_word_eqI)
  fix n assume "n < LENGTH(64)"
  then show "bit (load64 (store64 p v m) p) n = bit v n"
    by (simp add: bit_load64 bit_store64)
qed

text \<open>Which addresses a 64-bit access touches: the eight of its region, if it does not wrap.\<close>

lemma store64_other [frame]:
  "unat p + 8 \<le> 2 ^ 64 \<Longrightarrow> a \<notin> region p 8 \<Longrightarrow> store64 p v m a = m a"
  using in_range_iff [of p 8 a] by (simp add: store64_def)

lemma load64_cong:
  assumes "unat p + 8 \<le> 2 ^ 64" "\<And>a. a \<in> region p 8 \<Longrightarrow> m a = m' a"
  shows "load64 m p = load64 m' p"
proof (rule bit_word_eqI)
  fix n :: nat assume n: "n < LENGTH(64)"
  have "(word_of_nat (n div 8) :: 64 word) < 8"
    using n by (simp add: word_less_nat_alt unat_of_nat)
  with assms(1) have "p + word_of_nat (n div 8) \<in> region p 8"
    by (intro region_offset) simp_all
  with n assms(2) show "bit (load64 m p) n = bit (load64 m' p) n"
    by (simp add: bit_load64)
qed

lemma load64_store64_other [frame]:
  "unat p + 8 \<le> unat q \<or> unat q + 8 \<le> unat p \<Longrightarrow> unat p + 8 \<le> 2 ^ 64 \<Longrightarrow> unat q + 8 \<le> 2 ^ 64 \<Longrightarrow>
   load64 (store64 p v m) q = load64 m q"
  by (rule load64_cong) (auto simp: region_def intro!: store64_other)

section \<open>Byte loops\<close>

text \<open>What \<open>memcpy\<close> and \<open>memset\<close> of the C library do to memory.\<close>

definition copy_bytes :: "ptr \<Rightarrow> ptr \<Rightarrow> size_t \<Rightarrow> memory \<Rightarrow> memory" where
  "copy_bytes dst src n m = (\<lambda>a. if a - dst < n then m (src + (a - dst)) else m a)"

definition set_bytes :: "ptr \<Rightarrow> byte \<Rightarrow> size_t \<Rightarrow> memory \<Rightarrow> memory" where
  "set_bytes p c n m = (\<lambda>a. if a - p < n then c else m a)"

text \<open>\<open>allo_memcpy\<close> and \<open>allo_memset\<close> of the hosted build: the two assertions, then the library.\<close>

definition allo_memcpy :: "ptr \<Rightarrow> ptr \<Rightarrow> size_t \<Rightarrow> 'e machine \<Rightarrow> (ptr \<times> 'e machine) option" where
  "allo_memcpy dst src n s = do {
     ALLO_ASSERT (dst \<noteq> NULL \<and> src \<noteq> NULL);
     ALLO_ASSERT (dst + n \<le> src \<or> src + n \<le> dst);
     Some (dst, s\<lparr>mem := copy_bytes dst src n (mem s)\<rparr>)
   }"

definition allo_memset :: "ptr \<Rightarrow> 32 word \<Rightarrow> size_t \<Rightarrow> 'e machine \<Rightarrow> (ptr \<times> 'e machine) option" where
  "allo_memset p c n s = do {
     ALLO_ASSERT (p \<noteq> NULL);
     Some (p, s\<lparr>mem := set_bytes p (ucast c) n (mem s)\<rparr>)
   }"

text \<open>The freestanding build's own loops (\<open>src/allo_mem.c\<close>); its assertions are empty.\<close>

function memcpy_loop :: "size_t \<Rightarrow> size_t \<Rightarrow> ptr \<Rightarrow> ptr \<Rightarrow> memory \<Rightarrow> memory" where
  "memcpy_loop i n d s m =
     (if i < n then memcpy_loop (i + 1) n d s (m(d + i := m (s + i))) else m)"
  by pat_completeness auto
termination
  by (relation "measure (\<lambda>(i, n, d, s, m). unat n - unat i)")
    (auto simp: unat_Suc64 word_less_nat_alt)

declare memcpy_loop.simps [simp del]

definition allo_memcpy_freestanding :: "ptr \<Rightarrow> ptr \<Rightarrow> size_t \<Rightarrow> 'e machine \<Rightarrow> ptr \<times> 'e machine" where
  "allo_memcpy_freestanding dest src n s =
     (dest, s\<lparr>mem := memcpy_loop 0 n dest src (mem s)\<rparr>)"

function memset_loop :: "ptr \<Rightarrow> byte \<Rightarrow> size_t \<Rightarrow> memory \<Rightarrow> memory" where
  "memset_loop p c n m = (if n \<noteq> 0 then memset_loop (p + 1) c (n - 1) (m(p := c)) else m)"
  by pat_completeness auto
termination
  by (relation "measure (\<lambda>(p, c, n, m). unat n)") (auto simp: unat_pred64 unat_gt_0)

declare memset_loop.simps [simp del]

definition allo_memset_freestanding :: "ptr \<Rightarrow> 32 word \<Rightarrow> size_t \<Rightarrow> 'e machine \<Rightarrow> ptr \<times> 'e machine" where
  "allo_memset_freestanding p c n s = (p, s\<lparr>mem := memset_loop p (ucast c) n (mem s)\<rparr>)"

lemma memset_loop_eq: "memset_loop p c n m = set_bytes p c n m"
proof (induction p c n m rule: memset_loop.induct)
  case (1 p c n m)
  show ?case
  proof (cases "n = 0")
    case True
    then show ?thesis by (simp add: memset_loop.simps set_bytes_def)
  next
    case False
    have step: "x - 1 < n - 1 \<or> x = 0 \<longleftrightarrow> x < n" for x :: "64 word"
    proof (cases "x = 0")
      case True
      with False show ?thesis by (simp add: word_gt_0)
    next
      case x: False
      then have "0 < unat x" by (simp add: unat_gt_0)
      with False x show ?thesis by (auto simp: word_less_nat_alt unat_pred64)
    qed
    have "a - (p + 1) < n - 1 \<or> a = p \<longleftrightarrow> a - p < n" for a
      using step [of "a - p"] by (simp add: diff_diff_eq)
    moreover have "memset_loop p c n m = set_bytes (p + 1) c (n - 1) (m(p := c))"
      using 1 False by (simp add: memset_loop.simps [of p c n m] fun_upd_def)
    ultimately show ?thesis
      using False by (auto simp: set_bytes_def fun_eq_iff word_gt_0)
  qed
qed

text \<open>The copy loop, from any index, over source and destination that do not meet.\<close>

lemma memcpy_loop_eq:
  assumes "\<And>j k. j < n \<Longrightarrow> k < n \<Longrightarrow> s + j \<noteq> d + k"
  shows "memcpy_loop i n d s m = (\<lambda>a. if i \<le> a - d \<and> a - d < n then m (s + (a - d)) else m a)"
  using assms
proof (induction i n d s m rule: memcpy_loop.induct)
  case (1 i n d s m)
  show ?case
  proof (cases "i < n")
    case False
    then show ?thesis by (subst memcpy_loop.simps) (auto simp: fun_eq_iff)
  next
    case True
    have le: "i + 1 \<le> x \<longleftrightarrow> i \<le> x \<and> x \<noteq> i" for x
      using True by (auto simp: word_le_nat_alt unat_Suc64 word_eq_iff_unat)
    have "memcpy_loop i n d s m =
        (\<lambda>a. if i + 1 \<le> a - d \<and> a - d < n then (m(d + i := m (s + i))) (s + (a - d))
             else (m(d + i := m (s + i))) a)"
      using 1 True by (simp add: memcpy_loop.simps [of i n d s m] fun_upd_def)
    moreover have "s + j \<noteq> d + i" if "j < n" for j
      using 1(2) that True by blast
    ultimately show ?thesis
      using True by (auto simp: fun_eq_iff le)
  qed
qed

section \<open>What the byte operations leave and what they write\<close>

lemma copy_bytes_at: "i < n \<Longrightarrow> copy_bytes dst src n m (dst + i) = m (src + i)"
  by (simp add: copy_bytes_def)

lemma copy_bytes_other [frame]:
  "unat dst + unat n \<le> 2 ^ 64 \<Longrightarrow> a \<notin> region dst n \<Longrightarrow> copy_bytes dst src n m a = m a"
  using in_range_iff [of dst n a] by (simp add: copy_bytes_def)

lemma set_bytes_at: "i < n \<Longrightarrow> set_bytes p c n m (p + i) = c"
  by (simp add: set_bytes_def)

lemma set_bytes_other [frame]:
  "unat p + unat n \<le> 2 ^ 64 \<Longrightarrow> a \<notin> region p n \<Longrightarrow> set_bytes p c n m a = m a"
  using in_range_iff [of p n a] by (simp add: set_bytes_def)

text \<open>The overlap assertion of \<open>allo_memcpy\<close> holds for any two regions that do not meet.\<close>

lemma allo_memcpy_ok:
  assumes "dst \<noteq> 0" "src \<noteq> 0" "region dst n \<inter> region src n = {}"
  shows "allo_memcpy dst src n s = Some (dst, s\<lparr>mem := copy_bytes dst src n (mem s)\<rparr>)"
proof -
  have "dst + n \<le> src \<or> src + n \<le> dst"
  proof (cases "n = 0")
    case True
    then show ?thesis by (simp add: linear)
  next
    case False
    then have le: "unat dst + unat n \<le> unat src \<or> unat src + unat n \<le> unat dst"
      using assms(3) by (simp add: region_disjoint_iff)
    then show ?thesis
      using unat64_less [of src] unat64_less [of dst]
      by (auto simp: word_le_nat_alt unat_add64 simp del: unat64_less)
  qed
  with assms show ?thesis by (simp add: allo_memcpy_def)
qed

lemma allo_memset_ok:
  "p \<noteq> 0 \<Longrightarrow> allo_memset p c n s = Some (p, s\<lparr>mem := set_bytes p (ucast c) n (mem s)\<rparr>)"
  by (simp add: allo_memset_def)

section \<open>Alignment\<close>

definition ALLO_IS_ALIGNED :: "ptr \<Rightarrow> size_t \<Rightarrow> bool" where
  "ALLO_IS_ALIGNED p align \<longleftrightarrow> p AND (align - 1) = 0"

definition allo_align_up :: "size_t \<Rightarrow> size_t \<Rightarrow> size_t" where
  "allo_align_up n align = (n + align - 1) AND NOT (align - 1)"

lemma ALLO_IS_ALIGNED_pow2:
  assumes "k < 64"
  shows "ALLO_IS_ALIGNED p (2 ^ k) \<longleftrightarrow> 2 ^ k dvd unat p"
proof -
  have "ALLO_IS_ALIGNED p (2 ^ k) \<longleftrightarrow> unat (p AND mask k) = 0"
    by (simp add: ALLO_IS_ALIGNED_def mask_eq_decr_exp word_eq_iff_unat)
  then show ?thesis by (simp add: unat_and_mask dvd_eq_mod_eq_0)
qed

lemma ALLO_IS_ALIGNED_8: "ALLO_IS_ALIGNED p 8 \<longleftrightarrow> 8 dvd unat p"
  using ALLO_IS_ALIGNED_pow2 [of 3 p] by simp

text \<open>Rounding up to a power of two; with no overflow, to the next multiple.\<close>

lemma allo_align_up_pow2:
  assumes "k < 64" "unat n + 2 ^ k \<le> 2 ^ 64"
  shows "unat (allo_align_up n (2 ^ k)) = (unat n + 2 ^ k - 1) div 2 ^ k * 2 ^ k"
proof -
  have p: "unat (2 ^ k :: 64 word) = 2 ^ k"
    using assms(1) by (rule unat_pow64)
  have "unat (n + (2 ^ k - 1)) = unat n + 2 ^ k - 1"
    using assms(2) p by (simp add: unat_add64 unat_diff64)
  moreover have "allo_align_up n (2 ^ k) = (n + (2 ^ k - 1)) AND NOT (mask k)"
    by (simp add: allo_align_up_def mask_eq_decr_exp add_diff_eq)
  ultimately show ?thesis
    by (simp only: unat_and_not_mask)
qed

lemma allo_align_up_8:
  assumes "unat n + 8 \<le> 2 ^ 64"
  shows "unat n \<le> unat (allo_align_up n 8)" "unat (allo_align_up n 8) < unat n + 8"
    "8 dvd unat (allo_align_up n 8)"
proof -
  have eq: "unat (allo_align_up n 8) = (unat n + 7) div 8 * 8"
    using allo_align_up_pow2 [of 3 n] assms by simp
  show "unat n \<le> unat (allo_align_up n 8)" "unat (allo_align_up n 8) < unat n + 8"
    "8 dvd unat (allo_align_up n 8)"
    unfolding eq by (linarith, linarith, simp)
qed

end
