(* ===== verification/Allo.thy ===== *)
theory Allo
  imports Machine
begin

text \<open>
  The interface every allocator implements (\<open>include/allo.h\<close>) and the two operations written
  once on top of it (\<open>src/allo.c\<close>). An \<open>allo_t\<close> is its table of function pointers, a record of
  state transformers; its \<open>_state\<close> bytes are the first component of \<open>env\<close>, and the state the
  child allocator works on is the rest. The locale \<open>allocator\<close> is the contract: what a client
  (or a parent allocator) may rely on. Every allocator of the library is shown to meet it, the
  composed ones from the contract of their child.
\<close>

section \<open>Types and dispatch\<close>

datatype allo_error_t = ALLO_OK | ALLO_ERR_NOMEM | ALLO_ERR_INVAL

datatype allo_contains_t = ALLO_CONTAINS_NO | ALLO_CONTAINS_YES | ALLO_CONTAINS_UNKNOWN

record 'e allo =
  vt_alloc :: "size_t \<Rightarrow> 'e machine \<Rightarrow> (ptr \<times> 'e machine) option"
  vt_realloc :: "ptr \<Rightarrow> size_t \<Rightarrow> size_t \<Rightarrow> 'e machine \<Rightarrow> (ptr \<times> 'e machine) option"
  vt_free_mem :: "ptr \<Rightarrow> size_t \<Rightarrow> 'e machine \<Rightarrow> (unit \<times> 'e machine) option"
  vt_destroy :: "('e machine \<Rightarrow> (unit \<times> 'e machine) option) option"
  vt_contains :: "(ptr \<Rightarrow> 'e machine \<Rightarrow> (allo_contains_t \<times> 'e machine) option) option"

definition allo_alloc :: "'e allo \<Rightarrow> size_t \<Rightarrow> 'e machine \<Rightarrow> (ptr \<times> 'e machine) option" where
  "allo_alloc a n s = vt_alloc a n s"

definition allo_free :: "'e allo \<Rightarrow> ptr \<Rightarrow> size_t \<Rightarrow> 'e machine \<Rightarrow> (unit \<times> 'e machine) option" where
  "allo_free a p n s = vt_free_mem a p n s"

definition allo_destroy :: "'e allo \<Rightarrow> 'e machine \<Rightarrow> (unit \<times> 'e machine) option" where
  "allo_destroy a s = (case vt_destroy a of Some f \<Rightarrow> f s | None \<Rightarrow> Some ((), s))"

definition allo_contains ::
  "'e allo \<Rightarrow> ptr \<Rightarrow> 'e machine \<Rightarrow> (allo_contains_t \<times> 'e machine) option" where
  "allo_contains a p s =
     (case vt_contains a of Some f \<Rightarrow> f p s | None \<Rightarrow> Some (ALLO_CONTAINS_UNKNOWN, s))"

definition allo_calloc ::
  "'e allo \<Rightarrow> size_t \<Rightarrow> size_t \<Rightarrow> 'e machine \<Rightarrow> (ptr \<times> 'e machine) option" where
  "allo_calloc a nmemb n s =
     (if n > 0 \<and> nmemb > (- 1) div n then Some (NULL, s)
      else do {
        let total = nmemb * n;
        (p, s) \<leftarrow> allo_alloc a total s;
        if p \<noteq> NULL then do {
          (_, s) \<leftarrow> allo_memset p 0 total s;
          Some (p, s)
        } else Some (p, s)
      })"

definition allo_realloc ::
  "'e allo \<Rightarrow> ptr \<Rightarrow> size_t \<Rightarrow> size_t \<Rightarrow> 'e machine \<Rightarrow> (ptr \<times> 'e machine) option" where
  "allo_realloc a p old_size new_size s =
     (if new_size = 0 then do {
        (_, s) \<leftarrow> allo_free a p old_size s;
        Some (NULL, s)
      }
      else if p = NULL then allo_alloc a new_size s
      else if old_size = new_size then Some (p, s)
      else vt_realloc a p old_size new_size s)"

section \<open>The context of an allocator and the state of its child\<close>

definition self_ctx :: "('c \<times> 'e) machine \<Rightarrow> 'c" where
  "self_ctx s = fst (env s)"

definition set_ctx :: "'c \<Rightarrow> ('c \<times> 'e) machine \<Rightarrow> ('c \<times> 'e) machine" where
  "set_ctx c s = s\<lparr>env := (c, snd (env s))\<rparr>"

definition child_state :: "('c \<times> 'e) machine \<Rightarrow> 'e machine" where
  "child_state s = \<lparr>mem = mem s, asan = asan s, env = snd (env s)\<rparr>"

definition with_child :: "'c \<Rightarrow> 'e machine \<Rightarrow> ('c \<times> 'e) machine" where
  "with_child c t = \<lparr>mem = mem t, asan = asan t, env = (c, env t)\<rparr>"

text \<open>A call on the child leaves the caller's own context alone.\<close>

definition call_child ::
  "('e machine \<Rightarrow> ('r \<times> 'e machine) option) \<Rightarrow> ('c \<times> 'e) machine \<Rightarrow> ('r \<times> ('c \<times> 'e) machine) option" where
  "call_child f s = (case f (child_state s) of
     None \<Rightarrow> None | Some (r, t) \<Rightarrow> Some (r, with_child (self_ctx s) t))"

lemma ctx_simps [simp]:
  "self_ctx (set_ctx c s) = c" "mem (set_ctx c s) = mem s" "asan (set_ctx c s) = asan s"
  "child_state (set_ctx c s) = child_state s" "set_ctx c (set_ctx c' s) = set_ctx c s"
  "self_ctx (with_child c t) = c" "mem (with_child c t) = mem t" "asan (with_child c t) = asan t"
  "child_state (with_child c t) = t" "mem (child_state s) = mem s" "asan (child_state s) = asan s"
  by (simp_all add: self_ctx_def set_ctx_def child_state_def with_child_def)

lemma self_ctx_machine [simp]:
  "self_ctx (ALLOC_POISON p n s) = self_ctx s" "self_ctx (ALLOC_UNPOISON p n s) = self_ctx s"
  "self_ctx (wr64 p v s) = self_ctx s" "self_ctx (s\<lparr>mem := m\<rparr>) = self_ctx s"
  "self_ctx \<lparr>mem = m, asan = t, env = e\<rparr> = fst e"
  by (simp_all add: self_ctx_def)

lemma env_child [simp]:
  "env (child_state s) = snd (env s)" "env (with_child c t) = (c, env t)"
  "env (set_ctx c s) = (c, snd (env s))"
  by (simp_all add: child_state_def with_child_def set_ctx_def)

section \<open>Live blocks\<close>

text \<open>
  The blocks a client holds, with the sizes it asked for. They are ghost state: no allocator
  stores this map; the contract speaks about it.
\<close>

type_synonym live_map = "ptr \<Rightarrow> size_t option"

definition block_ok :: "ptr \<Rightarrow> size_t \<Rightarrow> bool" where
  "block_ok p n \<longleftrightarrow> p \<noteq> 0 \<and> n \<noteq> 0 \<and> 8 dvd unat p \<and> unat p + unat n < 2 ^ 64 \<and> size_ok n"

definition live :: "live_map \<Rightarrow> ptr set" where
  "live L = {x. \<exists>p n. L p = Some n \<and> x \<in> region p n}"

definition live_ok :: "ptr set \<Rightarrow> live_map \<Rightarrow> bool" where
  "live_ok heap L \<longleftrightarrow>
     (\<forall>p n. L p = Some n \<longrightarrow> block_ok p n \<and> region p n \<subseteq> heap) \<and>
     (\<forall>p n q m. L p = Some n \<longrightarrow> L q = Some m \<longrightarrow> p \<noteq> q \<longrightarrow> region p n \<inter> region q m = {})"

text \<open>Memory outside the allocator's heap and inside the live blocks is untouched.\<close>

definition kept :: "ptr set \<Rightarrow> live_map \<Rightarrow> memory \<Rightarrow> memory \<Rightarrow> bool" where
  "kept heap L m m' \<longleftrightarrow> (\<forall>x. x \<in> live L \<or> x \<notin> heap \<longrightarrow> m' x = m x)"

definition same_bytes :: "memory \<Rightarrow> ptr \<Rightarrow> memory \<Rightarrow> ptr \<Rightarrow> size_t \<Rightarrow> bool" where
  "same_bytes m p m' q k \<longleftrightarrow> (\<forall>i<k. m' (q + i) = m (p + i))"

type_synonym 'e invariant = "'e machine \<Rightarrow> live_map \<Rightarrow> bool"

definition alloc_post ::
  "'e invariant \<Rightarrow> ptr set \<Rightarrow> live_map \<Rightarrow> size_t \<Rightarrow> 'e machine \<Rightarrow> ptr \<Rightarrow> 'e machine \<Rightarrow> bool" where
  "alloc_post Inv heap L n s p s' \<longleftrightarrow> kept heap L (mem s) (mem s') \<and>
     (if p = NULL then Inv s' L else p \<notin> dom L \<and> Inv s' (L(p \<mapsto> n)))"

definition free_post ::
  "'e invariant \<Rightarrow> ptr set \<Rightarrow> live_map \<Rightarrow> ptr \<Rightarrow> 'e machine \<Rightarrow> 'e machine \<Rightarrow> bool" where
  "free_post Inv heap L p s s' \<longleftrightarrow>
     kept heap (L(p := None)) (mem s) (mem s') \<and> Inv s' (L(p := None))"

definition realloc_post ::
  "'e invariant \<Rightarrow> ptr set \<Rightarrow> live_map \<Rightarrow> ptr \<Rightarrow> size_t \<Rightarrow> size_t \<Rightarrow> 'e machine \<Rightarrow> ptr \<Rightarrow> 'e machine \<Rightarrow> bool" where
  "realloc_post Inv heap L p n m s q s' \<longleftrightarrow>
     (if q = NULL then kept heap L (mem s) (mem s') \<and> Inv s' L
      else kept heap (L(p := None)) (mem s) (mem s') \<and> (q = p \<or> q \<notin> dom L) \<and>
        Inv s' (L(p := None, q \<mapsto> m)) \<and> same_bytes (mem s) p (mem s') q (min n m))"

lemma live_empty [simp]: "live Map.empty = {}"
  by (simp add: live_def)

lemma live_ok_empty [simp]: "live_ok heap Map.empty"
  by (simp add: live_ok_def)

lemma live_mono: "L \<subseteq>\<^sub>m L' \<Longrightarrow> live L \<subseteq> live L'"
  by (auto simp: live_def map_le_def dom_def) metis

lemma live_del: "live (L(p := None)) \<subseteq> live L"
  by (auto simp: live_def split: if_splits)

lemma liveI: "L p = Some n \<Longrightarrow> x \<in> region p n \<Longrightarrow> x \<in> live L"
  by (auto simp: live_def)

lemma liveE: "x \<in> live L \<Longrightarrow> (\<And>p n. L p = Some n \<Longrightarrow> x \<in> region p n \<Longrightarrow> thesis) \<Longrightarrow> thesis"
  unfolding live_def by (clarify, assumption)

lemma live_upd_None: "p \<notin> dom L \<Longrightarrow> L(p := None) = L"
  by (auto simp: fun_eq_iff dom_def)

lemma live_put: "live (L(p \<mapsto> n)) = region p n \<union> live (L(p := None))"
proof
  show "live (L(p \<mapsto> n)) \<subseteq> region p n \<union> live (L(p := None))"
    by (auto simp: live_def split: if_splits)
  have "live (L(p := None)) \<subseteq> live (L(p \<mapsto> n))"
    by (rule live_mono) (auto simp: map_le_def)
  moreover have "region p n \<subseteq> live (L(p \<mapsto> n))"
    by (auto intro: liveI [where p = p and n = n])
  ultimately show "region p n \<union> live (L(p := None)) \<subseteq> live (L(p \<mapsto> n))"
    by simp
qed

lemma live_upd: "p \<notin> dom L \<Longrightarrow> live (L(p \<mapsto> n)) = region p n \<union> live L"
  by (simp add: live_put live_upd_None)

lemma live_okD:
  assumes "live_ok heap L" "L p = Some n"
  shows "block_ok p n" "region p n \<subseteq> heap"
  using assms by (auto simp: live_ok_def)

lemma live_ok_disjoint:
  "live_ok heap L \<Longrightarrow> L p = Some n \<Longrightarrow> L q = Some m \<Longrightarrow> p \<noteq> q \<Longrightarrow> region p n \<inter> region q m = {}"
  unfolding live_ok_def by blast

lemma live_ok_heap: "live_ok heap L \<Longrightarrow> live L \<subseteq> heap"
  by (auto simp: live_ok_def live_def)

lemma live_ok_dom: "live_ok heap L \<Longrightarrow> dom L \<subseteq> heap"
  by (force simp: live_ok_def block_ok_def intro: region_self)

lemma live_ok_union:
  assumes "live_ok h1 L1" "live_ok h2 L2" "h1 \<inter> h2 = {}"
  shows "live_ok (h1 \<union> h2) (L1 ++ L2)"
proof -
  have sep: "region r n \<inter> region r' n' = {}" if "L1 r = Some n" "L2 r' = Some n'" for r n r' n'
    using live_okD(2) [OF assms(1) that(1)] live_okD(2) [OF assms(2) that(2)] assms(3) by blast
  have "region r n \<inter> region r' n' = {}"
    if "(L1 ++ L2) r = Some n" "(L1 ++ L2) r' = Some n'" "r \<noteq> r'" for r n r' n'
    using that live_ok_disjoint [OF assms(1), of r n r' n'] live_ok_disjoint [OF assms(2), of r n r' n'] sep [of r n r' n']
      sep [of r' n' r n] by (auto simp: map_add_Some_iff Int_commute)
  moreover have "block_ok r n \<and> region r n \<subseteq> h1 \<union> h2" if "(L1 ++ L2) r = Some n" for r n
    using that live_okD [OF assms(1), of r n] live_okD [OF assms(2), of r n] by auto
  ultimately show ?thesis unfolding live_ok_def by blast
qed

lemma live_ok_del: "live_ok heap L \<Longrightarrow> live_ok heap (L(p := None))"
  by (auto simp: live_ok_def split: if_splits)

lemma live_ok_upd:
  assumes "live_ok heap L" "block_ok p n" "region p n \<subseteq> heap" "region p n \<inter> live L = {}"
  shows "live_ok heap (L(p \<mapsto> n))"
proof -
  have "region p n \<inter> region q m = {}" if "L q = Some m" for q m
    using assms(4) that by (auto simp: live_def)
  then show ?thesis
    using assms(1-3) unfolding live_ok_def by (auto simp: Int_commute)
qed

text \<open>Shrinking or growing a block in place keeps the map well-formed if it meets nothing else.\<close>

lemma live_ok_resize:
  assumes "live_ok heap L" "block_ok p m" "region p m \<subseteq> heap" "region p m \<inter> live (L(p := None)) = {}"
  shows "live_ok heap (L(p \<mapsto> m))"
  using live_ok_upd [OF live_ok_del [OF assms(1)] assms(2-4)] by simp

lemma live_ok_fresh:
  assumes "live_ok heap (L(p \<mapsto> n))" "p \<notin> dom L"
  shows "region p n \<inter> live L = {}"
proof -
  have "region p n \<inter> region q m = {}" if "L q = Some m" for q m
    using live_ok_disjoint [OF assms(1), of p n q m] assms(2) that by auto
  then show ?thesis by (auto simp: live_def)
qed

lemma live_del_disjoint:
  assumes "live_ok heap L" "L p = Some n"
  shows "region p n \<inter> live (L(p := None)) = {}"
proof (rule live_ok_fresh)
  have "L(p := None, p \<mapsto> n) = L" using assms(2) by (auto simp: fun_eq_iff)
  with assms(1) show "live_ok heap (L(p := None, p \<mapsto> n))" by simp
qed simp

lemma kept_refl [simp]: "kept heap L m m"
  by (simp add: kept_def)

lemma kept_write:
  assumes "\<And>x. x \<notin> R \<Longrightarrow> m' x = m x" "R \<subseteq> heap" "R \<inter> live L = {}"
  shows "kept heap L m m'"
  using assms unfolding kept_def by blast

lemma kept_trans: "kept heap L m m' \<Longrightarrow> kept heap L m' m'' \<Longrightarrow> kept heap L m m''"
  by (simp add: kept_def)

lemma kept_mono: "kept heap L m m' \<Longrightarrow> live L' \<subseteq> live L \<Longrightarrow> heap \<subseteq> heap' \<Longrightarrow> kept heap' L' m m'"
  by (auto simp: kept_def)

lemma same_bytes_refl [simp]: "same_bytes m p m p k"
  by (simp add: same_bytes_def)

lemma block_okD:
  assumes "block_ok p n"
  shows "p \<noteq> 0" "n \<noteq> 0" "8 dvd unat p" "unat p + unat n < 2 ^ 64" "size_ok n"
  using assms by (auto simp: block_ok_def)

text \<open>Moving the first \<open>k\<close> bytes of a block into another one that does not meet it.\<close>

lemma copy_block:
  assumes "block_ok p n" "block_ok q m" "region q m \<inter> region p n = {}"
    and k: "unat k \<le> unat n" "unat k \<le> unat m"
  shows "allo_memcpy q p k t = Some (q, t\<lparr>mem := copy_bytes q p k (mem t)\<rparr>)"
    and "x \<notin> region q m \<Longrightarrow> copy_bytes q p k M x = M x"
    and "same_bytes M p (copy_bytes q p k M) q k"
proof -
  have sub: "region q k \<subseteq> region q m" "region p k \<subseteq> region p n"
    using k by (auto intro!: region_mono)
  with assms(3) have "region q k \<inter> region p k = {}" by blast
  then show "allo_memcpy q p k t = Some (q, t\<lparr>mem := copy_bytes q p k (mem t)\<rparr>)"
    using assms(1,2) by (intro allo_memcpy_ok) (simp_all add: block_ok_def)
  have "unat q + unat k \<le> 2 ^ 64" using assms(2) k by (simp add: block_ok_def)
  then show "x \<notin> region q m \<Longrightarrow> copy_bytes q p k M x = M x"
    using sub(1) by (intro copy_bytes_other) auto
  show "same_bytes M p (copy_bytes q p k M) q k"
    by (simp add: same_bytes_def copy_bytes_at)
qed

lemma copy_fresh:
  assumes p: "L p = Some n" and ls: "live_ok heap L" and post: "alloc_post Inv heap L m s q t"
    and q: "q \<noteq> 0" and lt: "live_ok heap (L(q \<mapsto> m))"
    and cw: "\<And>t'. env t' = env t \<Longrightarrow>
      (\<And>x. x \<in> heap \<Longrightarrow> x \<notin> live (L(q \<mapsto> m)) \<Longrightarrow> mem t' x = mem t x) \<Longrightarrow> Inv t' (L(q \<mapsto> m))"
    and k: "unat k \<le> unat n" "unat k \<le> unat m"
  obtains t' where "allo_memcpy q p k t = Some (q, t')" "Inv t' (L(q \<mapsto> m))" "env t' = env t"
    "kept heap L (mem s) (mem t')" "same_bytes (mem s) p (mem t') q k" "q \<notin> dom L"
proof -
  define t' where "t' = t\<lparr>mem := copy_bytes q p k (mem t)\<rparr>"
  have qL: "q \<notin> dom L" "Inv t (L(q \<mapsto> m))" "kept heap L (mem s) (mem t)"
    using post q by (simp_all add: alloc_post_def)
  have bp: "block_ok p n" by (rule live_okD(1) [OF ls p])
  have bq: "block_ok q m" and qh: "region q m \<subseteq> heap" using live_okD [OF lt, of q m] by simp_all
  have sepL: "region q m \<inter> live L = {}" by (rule live_ok_fresh [OF lt qL(1)])
  have pL: "region p n \<subseteq> live L" using p by (auto simp: live_def)
  with sepL have sep: "region q m \<inter> region p n = {}" by blast
  note copy = copy_block [OF bp bq sep k]
  have out: "mem t' x = mem t x" if "x \<notin> region q m" for x
    using copy(2) [OF that] by (simp add: t'_def)
  have "Inv t' (L(q \<mapsto> m))"
    using out qL(1) by (intro cw) (simp_all add: t'_def live_upd)
  moreover have "kept heap L (mem t) (mem t')"
    by (rule kept_write [OF out qh sepL])
  moreover have "same_bytes (mem s) p (mem t') q k"
  proof -
    have "mem t (p + i) = mem s (p + i)" if "i < k" for i
    proof -
      have "i < n" using that k(1) by (simp add: word_less_nat_alt)
      then have "p + i \<in> live L"
        using region_offset [of i n p] pL bp by (auto simp: block_ok_def)
      with qL(3) show ?thesis by (simp add: kept_def)
    qed
    with copy(3) [of "mem t"] show ?thesis by (simp add: same_bytes_def t'_def)
  qed
  ultimately show thesis
    using copy(1) [of t] qL kept_trans [OF qL(3)] by (intro that [of t']) (simp_all add: t'_def)
qed

text \<open>The two ways to meet the specification of \<open>realloc\<close>: in place, and by moving.\<close>

lemma realloc_post_same:
  assumes ls: "live_ok heap L" and p: "L p = Some n" and k: "kept heap L (mem s) (mem s')"
    and I: "Inv s' (L(p \<mapsto> m))"
  shows "realloc_post Inv heap L p n m s p s'"
proof -
  have bp: "block_ok p n" by (rule live_okD(1) [OF ls p])
  have "mem s' (p + i) = mem s (p + i)" if "i < min n m" for i
  proof -
    have "p + i \<in> region p n" using that bp by (intro region_offset) (simp_all add: block_ok_def)
    with k p show ?thesis by (auto simp: kept_def live_def)
  qed
  moreover have "kept heap (L(p := None)) (mem s) (mem s')" using k live_del by (rule kept_mono) simp
  ultimately show ?thesis using bp I by (auto simp: realloc_post_def same_bytes_def block_ok_def)
qed

lemma realloc_post_moved:
  assumes "kept heap L (mem s) (mem s')" "q \<noteq> 0" "q \<notin> dom L" "p \<in> dom L"
    "Inv s' ((L(q \<mapsto> m))(p := None))" "same_bytes (mem s) p (mem s') q k" "min n m = k"
  shows "realloc_post Inv heap L p n m s q s'"
proof -
  have "(L(q \<mapsto> m))(p := None) = L(p := None, q \<mapsto> m)" using assms(3,4) by (auto simp: fun_eq_iff)
  moreover have "kept heap (L(p := None)) (mem s) (mem s')" using assms(1) live_del by (rule kept_mono) simp
  ultimately show ?thesis using assms by (simp add: realloc_post_def)
qed

text \<open>Moving and then giving the old block back.\<close>

lemma realloc_moved_free:
  assumes p: "L p = Some n" and q: "q \<notin> dom L" and k: "kept heap L (mem s) (mem t)"
    and sb: "same_bytes (mem s) p (mem t) q (min n m)" and q0: "q \<noteq> 0" "q \<noteq> p" and bq: "block_ok q m"
    and f: "free_post Inv heap (L(q \<mapsto> m)) p t u"
  shows "realloc_post Inv heap L p n m s q u"
proof -
  let ?M = "(L(q \<mapsto> m))(p := None)"
  have M: "?M = L(p := None, q \<mapsto> m)" using q0(2) by (auto simp: fun_eq_iff)
  have ku: "kept heap ?M (mem t) (mem u)" and I: "Inv u ?M" using f by (simp_all add: free_post_def)
  have "kept heap (L(p := None)) (mem t) (mem u)"
    using ku by (rule kept_mono) (use q in \<open>auto intro!: live_mono simp: map_le_def split: if_splits\<close>)
  then have "kept heap (L(p := None)) (mem s) (mem u)"
    using kept_mono [OF k live_del order_refl] by (rule kept_trans [rotated])
  moreover have "same_bytes (mem s) p (mem u) q (min n m)"
  proof -
    have "mem u (q + i) = mem t (q + i)" if "i < min n m" for i
    proof -
      have "q + i \<in> region q m" using that bq by (intro region_offset) (simp_all add: block_ok_def)
      then have "q + i \<in> live ?M" using q0(2) by (intro liveI [of _ q m]) simp_all
      with ku show ?thesis by (simp add: kept_def)
    qed
    with sb show ?thesis by (simp add: same_bytes_def)
  qed
  ultimately show ?thesis using I q q0 by (simp add: realloc_post_def M)
qed

section \<open>The contract\<close>

text \<open>
  \<open>Inv s L\<close>: the allocator is in a valid state and exactly the blocks \<open>L\<close> are in use.
  Clients may write anything into live blocks and anywhere outside the heap (\<open>client_write\<close>).
  Requests are below \<open>lim\<close>, at most \<open>PTRDIFF_MAX\<close>: for larger ones the code's arithmetic can wrap.
  An allocator that adds a header to a request has a smaller bound than its child.
\<close>

locale allocator =
  fixes a :: "'e allo"
    and Inv :: "'e machine \<Rightarrow> live_map \<Rightarrow> bool"
    and heap :: "ptr set"
    and lim :: nat
  assumes lim_le: "lim \<le> 2 ^ 63"
    and live_inv: "Inv s L \<Longrightarrow> live_ok heap L"
    and client_write: "Inv s L \<Longrightarrow> env s' = env s \<Longrightarrow>
      (\<And>x. x \<in> heap \<Longrightarrow> x \<notin> live L \<Longrightarrow> mem s' x = mem s x) \<Longrightarrow> Inv s' L"
    and alloc_law: "Inv s L \<Longrightarrow> unat n < lim \<Longrightarrow>
      \<exists>p s'. vt_alloc a n s = Some (p, s') \<and> alloc_post Inv heap L n s p s'"
    and realloc_law: "Inv s L \<Longrightarrow> L p = Some n \<Longrightarrow> unat m < lim \<Longrightarrow> m \<noteq> 0 \<Longrightarrow>
      \<exists>q s'. vt_realloc a p n m s = Some (q, s') \<and> realloc_post Inv heap L p n m s q s'"
    and free_law: "Inv s L \<Longrightarrow> L p = Some n \<Longrightarrow>
      \<exists>s'. vt_free_mem a p n s = Some ((), s') \<and> free_post Inv heap L p s s'"
    and free_null_law: "Inv s L \<Longrightarrow>
      \<exists>s'. vt_free_mem a NULL n s = Some ((), s') \<and> Inv s' L \<and> kept heap L (mem s) (mem s')"
    and contains_law: "Inv s L \<Longrightarrow>
      \<exists>r. allo_contains a p s = Some (r, s) \<and> (p \<in> dom L \<longrightarrow> r \<noteq> ALLO_CONTAINS_NO) \<and>
        (r = ALLO_CONTAINS_YES \<longrightarrow> p \<in> heap)"
begin

lemma alloc_cases:
  assumes "Inv s L" "unat n < lim"
  obtains (fail) s' where "allo_alloc a n s = Some (NULL, s')" "Inv s' L"
      "kept heap L (mem s) (mem s')"
    | (ok) p s' where "allo_alloc a n s = Some (p, s')" "p \<noteq> 0" "p \<notin> dom L" "Inv s' (L(p \<mapsto> n))"
      "kept heap L (mem s) (mem s')" "block_ok p n" "region p n \<subseteq> heap" "region p n \<inter> live L = {}"
proof -
  obtain p s' where r: "vt_alloc a n s = Some (p, s')" and post: "alloc_post Inv heap L n s p s'"
    using alloc_law [OF assms] by blast
  show thesis
  proof (cases "p = 0")
    case True
    with r post show thesis by (intro fail [of s']) (simp_all add: alloc_post_def allo_alloc_def)
  next
    case False
    with post have I: "p \<notin> dom L" "Inv s' (L(p \<mapsto> n))" "kept heap L (mem s) (mem s')"
      by (simp_all add: alloc_post_def)
    with r False live_okD [OF live_inv [OF I(2)], of p n] live_ok_fresh [OF live_inv [OF I(2)] I(1)]
    show thesis by (intro ok [of p s']) (simp_all add: allo_alloc_def)
  qed
qed

text \<open>The law with what follows from the invariant: a new block is in the heap and meets no other.\<close>

lemma alloc_spec:
  assumes "Inv s L" "unat n < lim"
  shows "\<exists>p s'. vt_alloc a n s = Some (p, s') \<and> alloc_post Inv heap L n s p s' \<and>
    (p \<noteq> NULL \<longrightarrow> n \<noteq> 0 \<and> 8 dvd unat p \<and> region p n \<subseteq> heap \<and> region p n \<inter> live L = {})"
proof -
  obtain p s' where "vt_alloc a n s = Some (p, s')" and post: "alloc_post Inv heap L n s p s'"
    using alloc_law [OF assms] by blast
  moreover have "n \<noteq> 0 \<and> 8 dvd unat p \<and> region p n \<subseteq> heap \<and> region p n \<inter> live L = {}" if "p \<noteq> NULL"
  proof -
    have p: "p \<notin> dom L" and I: "Inv s' (L(p \<mapsto> n))"
      using post that by (simp_all add: alloc_post_def)
    note l = live_inv [OF I]
    then show ?thesis
      using live_okD [OF l, of p n] live_ok_fresh [OF l p] by (simp add: block_ok_def)
  qed
  ultimately show ?thesis by blast
qed

lemma alloc_zero: "Inv s L \<Longrightarrow> 0 < lim \<Longrightarrow> \<exists>s'. allo_alloc a 0 s = Some (NULL, s') \<and> Inv s' L"
proof -
  assume I: "Inv s L" and l: "0 < lim"
  show ?thesis
    by (cases rule: alloc_cases [OF I, of 0]) (use l in \<open>auto simp: block_ok_def\<close>)
qed

lemma free_ok:
  assumes "Inv s L" "L p = Some n"
  obtains s' where "allo_free a p n s = Some ((), s')" "Inv s' (L(p := None))"
    "kept heap (L(p := None)) (mem s) (mem s')"
  using free_law [OF assms] by (auto simp: allo_free_def free_post_def)

text \<open>The wrapper \<open>allo_realloc\<close> meets the same specification for every new size but zero.\<close>

lemma allo_realloc_ok:
  assumes "Inv s L" "L p = Some n" "unat m < lim" "m \<noteq> 0"
  obtains q s' where "allo_realloc a p n m s = Some (q, s')" "realloc_post Inv heap L p n m s q s'"
proof -
  have p: "p \<noteq> 0" using live_okD(1) [OF live_inv [OF assms(1)] assms(2)] by (simp add: block_ok_def)
  show thesis
  proof (cases "n = m")
    case True
    have "L(p \<mapsto> m) = L" using assms(2) True by (auto simp: fun_eq_iff)
    with True p assms show thesis
      by (intro that [of p s]) (simp_all add: allo_realloc_def realloc_post_def)
  next
    case False
    with p assms(4) realloc_law [OF assms] that show thesis
      by (auto simp: allo_realloc_def)
  qed
qed

lemma allo_realloc_zero:
  assumes "Inv s L" "L p = Some n"
  obtains s' where "allo_realloc a p n 0 s = Some (NULL, s')" "Inv s' (L(p := None))"
    "kept heap (L(p := None)) (mem s) (mem s')"
  by (rule free_ok [OF assms]) (simp add: allo_realloc_def that)

lemma allo_realloc_null:
  assumes "m \<noteq> 0"
  shows "allo_realloc a NULL n m s = allo_alloc a m s"
  using assms by (simp add: allo_realloc_def)

text \<open>\<open>allo_calloc\<close>: no block when the product overflows, else a fresh block of zero bytes.\<close>

lemma calloc_ok:
  assumes I: "Inv s L" and sz: "unat k * unat n < lim"
  obtains (fail) s' where "allo_calloc a k n s = Some (NULL, s')" "Inv s' L"
      "kept heap L (mem s) (mem s')"
    | (ok) p s' where "allo_calloc a k n s = Some (p, s')" "p \<noteq> 0" "p \<notin> dom L"
      "Inv s' (L(p \<mapsto> k * n))" "kept heap L (mem s) (mem s')" "region p (k * n) \<inter> live L = {}"
      "\<forall>x\<in>region p (k * n). mem s' x = 0" "region p (k * n) \<subseteq> heap"
proof -
  have prod: "unat (k * n) = unat k * unat n" using sz lim_le by (simp add: unat_mult64)
  have ov: "\<not> (n > 0 \<and> k > (- 1) div n)"
  proof (clarsimp simp: word_gt_0)
    assume n: "n \<noteq> 0" and "- 1 div n < k"
    then have "(2 ^ 64 - 1) div unat n < unat k"
      by (simp add: word_less_nat_alt unat_div)
    then have "2 ^ 64 - 1 < unat k * unat n"
      using n by (simp add: div_less_iff_less_mult unat_gt_0)
    with sz lim_le show False by simp
  qed
  note calloc = allo_calloc_def [where n = n and nmemb = k and a = a, unfolded if_not_P [OF ov]]
  have so: "unat (k * n) < lim" using sz prod by simp
  show thesis
  proof (cases rule: alloc_cases [OF I so])
    case (1 s')
    then show thesis by (intro fail [of s']) (simp_all add: calloc)
  next
    case (2 p s')
    define t where "t = s'\<lparr>mem := set_bytes p 0 (k * n) (mem s')\<rparr>"
    have nw: "unat p + unat (k * n) \<le> 2 ^ 64" using 2(6) by (simp add: block_ok_def)
    have rest: "mem t x = mem s' x" if "x \<notin> region p (k * n)" for x
      using set_bytes_other [OF nw that] by (simp add: t_def)
    have zero: "\<forall>x\<in>region p (k * n). mem t x = 0"
      using in_range_iff [OF nw] by (simp add: t_def set_bytes_def)
    have "Inv t (L(p \<mapsto> k * n))"
    proof (rule client_write [OF 2(4)])
      show "env t = env s'" by (simp add: t_def)
      fix x assume "x \<notin> live (L(p \<mapsto> k * n))"
      then show "mem t x = mem s' x" using 2(3) by (intro rest) (simp add: live_upd)
    qed
    moreover have "kept heap L (mem s) (mem t)"
      using 2(5,7,8) rest unfolding kept_def by (metis IntI empty_iff subsetD)
    ultimately show thesis
      using 2 zero by (intro ok [of p t]) (simp_all add: calloc allo_memset_ok t_def)
  qed
qed

end

text \<open>An allocator that can always tell whether a pointer is its own.\<close>

locale exact_allocator = allocator +
  assumes contains_exact: "Inv s L \<Longrightarrow> allo_contains a p s \<noteq> Some (ALLO_CONTAINS_UNKNOWN, s)"
begin

lemma contains_live: "Inv s L \<Longrightarrow> p \<in> dom L \<Longrightarrow> allo_contains a p s = Some (ALLO_CONTAINS_YES, s)"
  using contains_law [of s L p] contains_exact [of s L p]
  by (metis (full_types) allo_contains_t.exhaust)

lemma contains_foreign: "Inv s L \<Longrightarrow> p \<notin> heap \<Longrightarrow> allo_contains a p s = Some (ALLO_CONTAINS_NO, s)"
  using contains_law [of s L p] contains_exact [of s L p]
  by (metis (full_types) allo_contains_t.exhaust)

end

end
