(* ===== verification/Buffer.thy ===== *)
theory Buffer
  imports Allo
begin

text \<open>
  The fixed buffer allocator, \<open>src/allo_buffer.c\<close>: a bump pointer over a caller's buffer. Its
  context is \<open>allocator_buf_context_t\<close>; frees only poison. Shown: it meets the contract for every
  8-aligned buffer of at most \<open>PTRDIFF_MAX\<close> bytes, and what in-place growth does.
\<close>

section \<open>Code\<close>

record allocator_buf_context_t =
  buf_buffer :: ptr
  buf_size :: size_t
  buf_offset :: size_t

type_synonym 'e buf_machine = "(allocator_buf_context_t \<times> 'e) machine"

definition buf_alloc_fn :: "size_t \<Rightarrow> 'e buf_machine \<Rightarrow> (ptr \<times> 'e buf_machine) option" where
  "buf_alloc_fn n s =
     (if n = 0 then Some (NULL, s)
      else do {
        let ctx = self_ctx s;
        ALLO_ASSERT (buf_offset ctx \<le> buf_size ctx);
        let aligned_offset = allo_align_up (buf_offset ctx) 8;
        if aligned_offset > buf_size ctx \<or> n > buf_size ctx - aligned_offset then Some (NULL, s)
        else do {
          let p = buf_buffer ctx + aligned_offset;
          let s = set_ctx (ctx\<lparr>buf_offset := aligned_offset + n\<rparr>) s;
          Some (p, ALLOC_UNPOISON p n s)
        }
      })"

definition buf_contains_fn :: "ptr \<Rightarrow> 'e buf_machine \<Rightarrow> (allo_contains_t \<times> 'e buf_machine) option" where
  "buf_contains_fn p s =
     (let ctx = self_ctx s in
      Some (if p \<ge> buf_buffer ctx \<and> p < buf_buffer ctx + buf_size ctx
            then ALLO_CONTAINS_YES else ALLO_CONTAINS_NO, s))"

definition buf_realloc_fn ::
  "ptr \<Rightarrow> size_t \<Rightarrow> size_t \<Rightarrow> 'e buf_machine \<Rightarrow> (ptr \<times> 'e buf_machine) option" where
  "buf_realloc_fn p old_size new_size s = (
     let ctx = self_ctx s;
         is_last_alloc = (p + old_size = buf_buffer ctx + buf_offset ctx);
         base_offset = p - buf_buffer ctx;
         fits_in_current = (base_offset + new_size \<le> buf_size ctx)
     in
       if is_last_alloc \<and> fits_in_current then
         (let s = set_ctx (ctx\<lparr>buf_offset := base_offset + new_size\<rparr>) s in
          if new_size > old_size
          then Some (p, ALLOC_UNPOISON (p + old_size) (new_size - old_size) s)
          else Some (p, ALLOC_POISON (p + new_size) (old_size - new_size) s))
       else if new_size \<le> old_size then Some (p, s)
       else do {
         (new_ptr, s) \<leftarrow> buf_alloc_fn new_size s;
         if new_ptr = NULL then Some (NULL, s)
         else do {
           (_, s) \<leftarrow> allo_memcpy new_ptr p old_size s;
           Some (new_ptr, s)
         }
       })"

definition buf_free_fn :: "ptr \<Rightarrow> size_t \<Rightarrow> 'e buf_machine \<Rightarrow> (unit \<times> 'e buf_machine) option" where
  "buf_free_fn p n s =
     (if p = NULL then Some ((), s)
      else do {
        (r, s) \<leftarrow> buf_contains_fn p s;
        Some ((), if r = ALLO_CONTAINS_YES then ALLOC_POISON p n s else s)
      })"

definition buf_destroy_fn :: "'e buf_machine \<Rightarrow> (unit \<times> 'e buf_machine) option" where
  "buf_destroy_fn s =
     (let ctx = self_ctx s in Some ((), ALLOC_POISON (buf_buffer ctx) (buf_size ctx) s))"

definition buf_allo :: "(allocator_buf_context_t \<times> 'e) allo" where
  "buf_allo = \<lparr>vt_alloc = buf_alloc_fn, vt_realloc = buf_realloc_fn, vt_free_mem = buf_free_fn,
     vt_destroy = Some buf_destroy_fn, vt_contains = Some buf_contains_fn\<rparr>"

text \<open>The factory: \<open>out\<close> is the address of the caller's \<open>allo_t\<close>, only tested against null.\<close>

definition make_fixed_buf_allocator ::
  "ptr \<Rightarrow> ptr \<Rightarrow> size_t \<Rightarrow> 'e machine \<Rightarrow> (allo_error_t \<times> 'e machine) + 'e buf_machine" where
  "make_fixed_buf_allocator out buffer n s =
     (if out = NULL \<or> buffer = NULL \<or> n = 0 then Inl (ALLO_ERR_INVAL, s)
      else if \<not> ALLO_IS_ALIGNED buffer 8 then Inl (ALLO_ERR_INVAL, s)
      else
        let s = with_child \<lparr>buf_buffer = buffer, buf_size = n, buf_offset = 0\<rparr> s in
        Inr (ALLOC_POISON buffer n s))"

section \<open>Invariant\<close>

text \<open>The live blocks lie in the buffer, below the bump offset.\<close>

definition buf_inv :: "ptr \<Rightarrow> size_t \<Rightarrow> 'e buf_machine \<Rightarrow> live_map \<Rightarrow> bool" where
  "buf_inv B S s L \<longleftrightarrow>
     B \<noteq> 0 \<and> 8 dvd unat B \<and> unat B + unat S < 2 ^ 64 \<and> size_ok S \<and>
     buf_buffer (self_ctx s) = B \<and> buf_size (self_ctx s) = S \<and>
     unat (buf_offset (self_ctx s)) \<le> unat S \<and> live_ok (region B S) L \<and>
     (\<forall>p n. L p = Some n \<longrightarrow> unat p + unat n \<le> unat B + unat (buf_offset (self_ctx s)))"

lemma buf_invD:
  assumes "buf_inv B S s L"
  shows "B \<noteq> 0" "8 dvd unat B" "unat B + unat S < 2 ^ 64" "unat S < 2 ^ 63"
    "buf_buffer (self_ctx s) = B" "buf_size (self_ctx s) = S"
    "unat (buf_offset (self_ctx s)) \<le> unat S" "live_ok (region B S) L"
  using assms by (simp_all add: buf_inv_def size_ok_def)

lemma buf_inv_below:
  "buf_inv B S s L \<Longrightarrow> L p = Some n \<Longrightarrow> unat p + unat n \<le> unat B + unat (buf_offset (self_ctx s))"
  by (simp add: buf_inv_def)

lemma buf_inv_block:
  assumes "buf_inv B S s L" "L p = Some n"
  shows "block_ok p n" "unat B \<le> unat p" "unat p + unat n \<le> unat B + unat S"
proof -
  show ok: "block_ok p n" using live_okD(1) [OF buf_invD(8)] assms by blast
  have "p \<in> region B S"
    using live_okD(2) [OF buf_invD(8)] assms region_self [of n p] block_okD(2) [OF ok] by blast
  then show "unat B \<le> unat p" by (simp add: mem_region)
  show "unat p + unat n \<le> unat B + unat S"
    using buf_inv_below [OF assms] buf_invD(7) [OF assms(1)] by linarith
qed

text \<open>A new block at or above the offset.\<close>

lemma buf_fresh:
  assumes "buf_inv B S s L" "unat B + unat (buf_offset (self_ctx s)) \<le> unat p"
  shows "p \<notin> dom L" "region p n \<inter> live L = {}"
proof -
  have "L p \<noteq> Some m" for m
    using buf_inv_below [OF assms(1), of p m] buf_inv_block(1) [OF assms(1), of p m] assms(2)
    by (auto simp: block_ok_def unat_gt_0 [symmetric])
  then show "p \<notin> dom L" by (cases "L p") auto
  show "region p n \<inter> live L = {}"
    using buf_inv_below [OF assms(1)] assms(2) by (fastforce simp: live_def mem_region)
qed

lemma buf_inv_put:
  assumes I: "buf_inv B S s L"
    and p: "unat B \<le> unat p" "unat p + unat n \<le> unat B + unat off" "unat off \<le> unat S"
      "8 dvd unat p" "n \<noteq> 0"
    and sep: "region p n \<inter> live (L(p := None)) = {}"
    and low: "\<And>q m. L q = Some m \<Longrightarrow> q \<noteq> p \<Longrightarrow> unat q + unat m \<le> unat B + unat off"
    and ctx: "self_ctx s' = (self_ctx s)\<lparr>buf_offset := off\<rparr>"
  shows "buf_inv B S s' (L(p \<mapsto> n))"
proof -
  note D = buf_invD [OF I]
  have "p \<noteq> 0" using p(1) D(1) by (metis le_zero_eq unat_0 unat_eq_0)
  moreover have "size_ok n" using p D(4) by (simp add: size_ok_def)
  ultimately have ok: "block_ok p n"
    using p D(3) by (simp add: block_ok_def)
  have "region p n \<subseteq> region B S" using p by (intro region_subset) linarith+
  then have "live_ok (region B S) (L(p \<mapsto> n))"
    by (rule live_ok_resize [OF D(8) ok _ sep])
  with D p low ctx show ?thesis by (auto simp: buf_inv_def size_ok_def)
qed

section \<open>The operations\<close>

lemma buf_alloc_cases:
  assumes I: "buf_inv B S s L"
  obtains (fail) "buf_alloc_fn n s = Some (NULL, s)"
  | (ok) p s' where "buf_alloc_fn n s = Some (p, s')" "p \<noteq> 0" "mem s' = mem s" "p \<notin> dom L"
      "buf_inv B S s' (L(p \<mapsto> n))" "region p n \<inter> live L = {}"
      "unat B + unat (buf_offset (self_ctx s)) \<le> unat p" "snd (env s') = snd (env s)"
proof -
  note D = buf_invD [OF I]
  define off where "off = buf_offset (self_ctx s)"
  define ao where "ao = allo_align_up off 8"
  have offS: "unat off \<le> unat S" using D(7) by (simp add: off_def)
  have ao: "unat off \<le> unat ao" "8 dvd unat ao"
    using allo_align_up_8 [of off] offS D(4) by (simp_all add: ao_def)
  have assertion: "buf_offset (self_ctx s) \<le> buf_size (self_ctx s)"
    using D(6,7) by (simp add: word_le_nat_alt)
  show thesis
  proof (cases "n = 0 \<or> ao > S \<or> n > S - ao")
    case True
    with assertion D(6) have "buf_alloc_fn n s = Some (NULL, s)"
      by (auto simp: buf_alloc_fn_def ao_def off_def)
    then show thesis by (rule fail)
  next
    case False
    then have n: "n \<noteq> 0" and aoS: "unat ao \<le> unat S" and nS: "unat n \<le> unat (S - ao)"
      by (simp_all add: word_le_nat_alt word_less_nat_alt)
    have fits: "unat ao + unat n \<le> unat S" using aoS nS by (simp add: unat_diff64)
    define p where "p = B + ao"
    define s' where "s' = ALLOC_UNPOISON p n (set_ctx ((self_ctx s)\<lparr>buf_offset := ao + n\<rparr>) s)"
    have up: "unat p = unat B + unat ao"
      using fits n D(3) unat_pos64 [OF n] by (simp add: p_def unat_add64)
    have uo: "unat (ao + n) = unat ao + unat n"
      using fits D(4) by (simp add: unat_add64)
    have run: "buf_alloc_fn n s = Some (p, s')"
      using False assertion D(5,6)
      by (simp add: buf_alloc_fn_def ao_def off_def p_def s'_def Let_def)
    have above: "unat B + unat (buf_offset (self_ctx s)) \<le> unat p"
      using up ao(1) by (simp add: off_def)
    note fr = buf_fresh [OF I above]
    have "buf_inv B S s' (L(p \<mapsto> n))"
    proof (rule buf_inv_put [OF I, where off = "ao + n"])
      show "region p n \<inter> live (L(p := None)) = {}" using fr by (simp add: live_upd_None)
      show "self_ctx s' = (self_ctx s)\<lparr>buf_offset := ao + n\<rparr>" by (simp add: s'_def)
      fix q m assume "L q = Some m"
      then show "unat q + unat m \<le> unat B + unat (ao + n)"
        using buf_inv_below [OF I, of q m] ao(1) uo by (simp add: off_def)
    qed (use up uo fits ao(2) D(2) n in simp_all)
    moreover have "p \<noteq> 0" using up D(1) by (metis add_is_0 unat_0 unat_eq_0)
    ultimately show thesis
      using run fr above by (intro ok [of p s']) (simp_all add: s'_def)
  qed
qed

lemma buf_inv_ctx: "buf_inv B S s L \<Longrightarrow> self_ctx s' = self_ctx s \<Longrightarrow> buf_inv B S s' L"
  by (simp add: buf_inv_def)

lemma buf_inv_del: "buf_inv B S s L \<Longrightarrow> buf_inv B S s (L(p := None))"
  by (auto simp: buf_inv_def live_ok_del split: if_splits)

lemma buf_alloc_law:
  assumes I: "buf_inv B S s L"
  shows "\<exists>p s'. buf_alloc_fn n s = Some (p, s') \<and> alloc_post (buf_inv B S) (region B S) L n s p s'"
  by (cases rule: buf_alloc_cases [OF I, of n]) (use I in \<open>auto simp: alloc_post_def\<close>)

text \<open>In place at the top of the buffer: the block is resized and the offset follows it.\<close>

lemma buf_realloc_last:
  assumes I: "buf_inv B S s L" and p: "L p = Some n" and m: "m \<noteq> 0" "size_ok m"
    and last: "p + n = B + buf_offset (self_ctx s)"
    and fits: "(p - B) + m \<le> S"
    and ctx: "self_ctx s' = (self_ctx s)\<lparr>buf_offset := (p - B) + m\<rparr>"
  shows "buf_inv B S s' (L(p \<mapsto> m))"
proof -
  note D = buf_invD [OF I] and blk = buf_inv_block [OF I p]
  define off where "off = buf_offset (self_ctx s)"
  have ub: "unat (p - B) = unat p - unat B" using blk(2) by (simp add: unat_diff64)
  have un: "unat ((p - B) + m) = unat p - unat B + unat m"
    using ub blk D(4) m(2) by (subst unat_add64) (auto simp: size_ok_def)
  have fitn: "unat p - unat B + unat m \<le> unat S"
    using fits un by (simp add: word_le_nat_alt)
  have below: "unat p + unat n \<le> unat B + unat off"
    using buf_inv_below [OF I p] by (simp add: off_def)
  have "unat (p + n) = unat (B + off)"
    using last by (simp add: off_def)
  then have top: "unat p + unat n = unat B + unat off"
    using blk(1) D(3,7) by (simp add: unat_add64 off_def block_ok_def)
  have others: "unat q + unat k \<le> unat p" if q: "L q = Some k" "q \<noteq> p" for q k
  proof -
    have "region p n \<inter> region q k = {}"
      using live_ok_disjoint [OF D(8) p q(1)] q(2) by simp
    then have "unat p + unat n \<le> unat q \<or> unat q + unat k \<le> unat p"
      using region_disjoint_iff block_okD(2) [OF blk(1)] block_okD(2) [OF buf_inv_block(1) [OF I q(1)]]
      by blast
    moreover have "unat q + unat k \<le> unat B + unat off"
      using buf_inv_below [OF I q(1)] by (simp add: off_def)
    ultimately show ?thesis
      using top unat_pos64 [OF block_okD(2) [OF buf_inv_block(1) [OF I q(1)]]] by linarith
  qed
  show ?thesis
  proof (rule buf_inv_put [OF I, where off = "(p - B) + m"])
    show "region p m \<inter> live (L(p := None)) = {}"
      using others by (fastforce simp: live_def mem_region split: if_splits)
    fix q k assume "L q = Some k" "q \<noteq> p"
    then show "unat q + unat k \<le> unat B + unat ((p - B) + m)"
      using others [of q k] un blk(2) by simp
  qed (use blk un fitn m ctx block_okD(3) [OF blk(1)] in simp_all)
qed

lemma buf_realloc_shrink:
  assumes I: "buf_inv B S s L" and p: "L p = Some n" and m: "m \<noteq> 0" "m \<le> n"
  shows "buf_inv B S s (L(p \<mapsto> m))"
proof (rule buf_inv_put [OF I, where off = "buf_offset (self_ctx s)"])
  note blk = buf_inv_block [OF I p] and low = buf_inv_below [OF I]
  have mn: "unat m \<le> unat n" using m by (simp add: word_le_nat_alt)
  show "unat p + unat m \<le> unat B + unat (buf_offset (self_ctx s))"
    using low [OF p] mn by simp
  show "region p m \<inter> live (L(p := None)) = {}"
    using live_del_disjoint [OF buf_invD(8) [OF I] p] region_mono [OF mn, of p] by blast
  show "unat B \<le> unat p" "8 dvd unat p" using blk by (simp_all add: block_ok_def)
qed (use buf_inv_below [OF I] buf_invD [OF I] m in auto)

lemma buf_realloc_law:
  assumes I: "buf_inv B S s L" and p: "L p = Some n" and m: "size_ok m" "m \<noteq> 0"
  shows "\<exists>q s'. buf_realloc_fn p n m s = Some (q, s') \<and>
    realloc_post (buf_inv B S) (region B S) L p n m s q s'"
proof -
  note D = buf_invD [OF I] and blk = buf_inv_block [OF I p]
  have p0: "p \<noteq> 0" using blk(1) by (simp add: block_ok_def)
  let ?last = "p + n = B + buf_offset (self_ctx s) \<and> (p - B) + m \<le> S"
  consider (inplace) "?last" | (shrink) "\<not> ?last" "m \<le> n" | (move) "\<not> ?last" "\<not> m \<le> n" by blast
  then show ?thesis
  proof cases
    case inplace
    let ?s = "set_ctx ((self_ctx s)\<lparr>buf_offset := (p - B) + m\<rparr>) s"
    define s' where "s' = (if m > n then ALLOC_UNPOISON (p + n) (m - n) ?s
      else ALLOC_POISON (p + m) (n - m) ?s)"
    have "buf_realloc_fn p n m s = Some (p, s')"
      using inplace D(5,6) by (simp add: buf_realloc_fn_def s'_def Let_def)
    moreover have "buf_inv B S s' (L(p \<mapsto> m))"
      using inplace by (intro buf_realloc_last [OF I p m(2,1)]) (simp_all add: s'_def)
    ultimately show ?thesis using p0 by (auto simp: realloc_post_def s'_def)
  next
    case shrink
    then have "buf_realloc_fn p n m s = Some (p, s)"
      using D(5,6) by (auto simp: buf_realloc_fn_def Let_def)
    with buf_realloc_shrink [OF I p m(2) shrink(2)] p0 show ?thesis
      by (auto simp: realloc_post_def)
  next
    case move
    then have run: "buf_realloc_fn p n m s = do {
         (new_ptr, s) \<leftarrow> buf_alloc_fn m s;
         if new_ptr = NULL then Some (NULL, s)
         else do {
           (_, s) \<leftarrow> allo_memcpy new_ptr p n s;
           Some (new_ptr, s)
         }
       }"
      using D(5,6) by (auto simp: buf_realloc_fn_def Let_def)
    show ?thesis
    proof (cases rule: buf_alloc_cases [OF I, of m])
      case 1
      with I show ?thesis by (simp add: run realloc_post_def)
    next
      case (2 q t)
      have nm: "unat n \<le> unat m" "min n m = n" using move(2) by (simp_all add: word_le_nat_alt)
      have post: "alloc_post (buf_inv B S) (region B S) L m s q t"
        using 2 by (simp add: alloc_post_def)
      have cw: "buf_inv B S t' (L(q \<mapsto> m))" if "env t' = env t" for t'
        using that by (intro buf_inv_ctx [OF 2(5)]) (simp add: self_ctx_def)
      obtain t' where t': "allo_memcpy q p n t = Some (q, t')" "buf_inv B S t' (L(q \<mapsto> m))"
        "kept (region B S) L (mem s) (mem t')" "same_bytes (mem s) p (mem t') q n" "q \<notin> dom L"
        using copy_fresh [OF p D(8) post 2(2) buf_invD(8) [OF 2(5)] cw order.refl nm(1)] by blast
      have "(L(q \<mapsto> m))(p := None) = L(p := None, q \<mapsto> m)"
        using t'(5) p by (auto simp: fun_eq_iff)
      with buf_inv_del [OF t'(2), of p] have "buf_inv B S t' (L(p := None, q \<mapsto> m))" by simp
      moreover have "kept (region B S) (L(p := None)) (mem s) (mem t')"
        by (rule kept_mono [OF t'(3) live_del order.refl])
      ultimately show ?thesis
        using 2(1,2) t' nm(2) by (auto simp: run realloc_post_def)
    qed
  qed
qed

lemma buf_contains_iff:
  assumes "buf_inv B S s L"
  shows "buf_contains_fn p s =
    Some (if p \<in> region B S then ALLO_CONTAINS_YES else ALLO_CONTAINS_NO, s)"
  using buf_invD [OF assms]
  by (auto simp: buf_contains_fn_def mem_region word_le_nat_alt word_less_nat_alt unat_add64)

lemma buf_free_eq:
  assumes I: "buf_inv B S s L"
  shows "buf_free_fn p n s = Some ((), if p \<in> region B S \<and> p \<noteq> 0 then ALLOC_POISON p n s else s)"
  by (simp add: buf_free_fn_def buf_contains_iff [OF I])

lemma buf_free_law:
  assumes I: "buf_inv B S s L"
  shows "\<exists>s'. buf_free_fn p n s = Some ((), s') \<and> mem s' = mem s \<and> buf_inv B S s' L"
  by (auto simp: buf_free_eq [OF I] intro: buf_inv_ctx [OF I])

lemma buf_live_region:
  assumes I: "buf_inv B S s L" and p: "p \<in> dom L"
  shows "p \<in> region B S"
proof -
  obtain n where "L p = Some n" using p by blast
  then show ?thesis
    using live_okD [OF buf_invD(8) [OF I], of p n] region_self [of n p] by (auto simp: block_ok_def)
qed

section \<open>The contract\<close>

interpretation buf: exact_allocator buf_allo "buf_inv B S" "region B S" "2 ^ 63"
proof unfold_locales
  show "(2 :: nat) ^ 63 \<le> 2 ^ 63" by simp
next
  fix s :: "'a buf_machine" and L :: live_map and n m :: size_t and p :: ptr
  assume I: "buf_inv B S s L"
  show "live_ok (region B S) L" by (rule buf_invD(8) [OF I])
  show "\<exists>p s'. vt_alloc buf_allo n s = Some (p, s') \<and> alloc_post (buf_inv B S) (region B S) L n s p s'"
    using buf_alloc_law [OF I] by (simp add: buf_allo_def)
  show "\<exists>s'. vt_free_mem buf_allo NULL n s = Some ((), s') \<and> buf_inv B S s' L \<and>
      kept (region B S) L (mem s) (mem s')"
    using buf_free_law [OF I] by (fastforce simp: buf_allo_def)
  show "\<exists>r. allo_contains buf_allo p s = Some (r, s) \<and> (p \<in> dom L \<longrightarrow> r \<noteq> ALLO_CONTAINS_NO) \<and>
      (r = ALLO_CONTAINS_YES \<longrightarrow> p \<in> region B S)"
    using buf_live_region [OF I, of p]
    by (simp add: allo_contains_def buf_allo_def buf_contains_iff [OF I])
  show "allo_contains buf_allo p s \<noteq> Some (ALLO_CONTAINS_UNKNOWN, s)"
    by (simp add: allo_contains_def buf_allo_def buf_contains_iff [OF I])
  show "buf_inv B S s' L" if "env s' = env s" for s'
    using that by (intro buf_inv_ctx [OF I]) (simp add: self_ctx_def)
  show "\<exists>s'. vt_free_mem buf_allo p n s = Some ((), s') \<and> free_post (buf_inv B S) (region B S) L p s s'"
    if "L p = Some n"
    using buf_free_law [OF I, of p n] buf_inv_del by (fastforce simp: buf_allo_def free_post_def)
  show "\<exists>q s'. vt_realloc buf_allo p n m s = Some (q, s') \<and>
      realloc_post (buf_inv B S) (region B S) L p n m s q s'"
    if "L p = Some n" "unat m < 2 ^ 63" "m \<noteq> 0"
    using buf_realloc_law [OF I that(1) _ that(3)] that(2) by (simp add: buf_allo_def size_ok_def)
qed

lemma make_fixed_buf_ok:
  assumes "make_fixed_buf_allocator out buffer n s = Inr s'" "unat buffer + unat n < 2 ^ 64" "size_ok n"
  shows "buf_inv buffer n s' Map.empty"
  using assms by (auto simp: make_fixed_buf_allocator_def buf_inv_def ALLO_IS_ALIGNED_8 split: if_splits)

end
