(* ===== verification/HeapLists.thy ===== *)
theory HeapLists
  imports Machine
begin

text \<open>
  Linked lists kept in memory: the pool's free list and the arena's block chain are linked by
  the 64-bit field at the start of each node (\<open>sll\<close>), the buddy allocator's free lists also
  back (\<open>dll\<close>, the link to the predecessor at offset 8). A list predicate relates the memory and
  a head pointer to the list of node addresses.
\<close>

section \<open>Singly linked\<close>

fun sll :: "memory \<Rightarrow> ptr \<Rightarrow> ptr list \<Rightarrow> bool" where
  "sll m p [] \<longleftrightarrow> p = 0"
| "sll m p (x # xs) \<longleftrightarrow> p = x \<and> x \<noteq> 0 \<and> sll m (load64 m x) xs"

lemma sll_null [simp]: "sll m 0 xs \<longleftrightarrow> xs = []"
  by (cases xs) auto

lemma sll_node: "p \<noteq> 0 \<Longrightarrow> sll m p xs \<longleftrightarrow> (\<exists>ys. xs = p # ys \<and> sll m (load64 m p) ys)"
  by (cases xs) auto

lemma sll_cong:
  "(\<And>x. x \<in> set xs \<Longrightarrow> load64 m' x = load64 m x) \<Longrightarrow> sll m' p xs \<longleftrightarrow> sll m p xs"
  by (induction xs arbitrary: p) auto

lemma sll_unique: "sll m p xs \<Longrightarrow> sll m p ys \<Longrightarrow> xs = ys"
  by (induction xs arbitrary: p ys) (auto simp: sll_node)

lemma sll_nonnull: "sll m p xs \<Longrightarrow> x \<in> set xs \<Longrightarrow> x \<noteq> 0"
  by (induction xs arbitrary: p) auto

text \<open>Linking a new node \<open>b\<close> in behind the node \<open>c\<close>.\<close>

lemma sll_insert:
  assumes "sll m p (xs @ c # ys)" "\<And>x. x \<in> set xs \<union> set ys \<Longrightarrow> load64 m' x = load64 m x"
    "load64 m' c = b" "load64 m' b = load64 m c" "b \<noteq> 0"
  shows "sll m' p (xs @ c # b # ys)"
  using assms(1,2)
proof (induction xs arbitrary: p)
  case Nil
  then have "sll m' (load64 m c) ys = sll m (load64 m c) ys" by (intro sll_cong) auto
  with Nil assms(3-5) show ?case by auto
qed auto

section \<open>Doubly linked\<close>

fun dll :: "memory \<Rightarrow> ptr \<Rightarrow> ptr \<Rightarrow> ptr list \<Rightarrow> bool" where
  "dll m prev p [] \<longleftrightarrow> p = 0"
| "dll m prev p (x # xs) \<longleftrightarrow>
     p = x \<and> x \<noteq> 0 \<and> load64 m (x + 8) = prev \<and> dll m x (load64 m x) xs"

lemma dll_null [simp]: "dll m prev 0 xs \<longleftrightarrow> xs = []"
  by (cases xs) auto

lemma dll_node:
  "p \<noteq> 0 \<Longrightarrow> dll m prev p xs \<longleftrightarrow>
     (\<exists>ys. xs = p # ys \<and> load64 m (p + 8) = prev \<and> dll m p (load64 m p) ys)"
  by (cases xs) auto

lemma dll_cong:
  "(\<And>x. x \<in> set xs \<Longrightarrow> load64 m' x = load64 m x \<and> load64 m' (x + 8) = load64 m (x + 8)) \<Longrightarrow>
   dll m' prev p xs \<longleftrightarrow> dll m prev p xs"
  by (induction xs arbitrary: prev p) auto

lemma dll_nonnull: "dll m prev p xs \<Longrightarrow> x \<in> set xs \<Longrightarrow> x \<noteq> 0"
  by (induction xs arbitrary: prev p) auto

text \<open>The links of a node in a list.\<close>

lemma dll_links:
  "dll m prev p (xs @ n # ys) \<Longrightarrow> load64 m (n + 8) = (if xs = [] then prev else last xs) \<and>
     load64 m n = (if ys = [] then 0 else hd ys) \<and> n \<noteq> 0"
proof (induction xs arbitrary: prev p)
  case Nil
  then show ?case by (cases ys) auto
next
  case (Cons x xs)
  have "dll m x (load64 m x) (xs @ n # ys)" using Cons.prems by simp
  from Cons.IH [OF this] show ?case by (cases "xs = []") simp_all
qed

text \<open>A new first node.\<close>

lemma dll_push:
  assumes "dll m 0 h xs" "distinct xs" "n \<noteq> 0"
    and "load64 m' n = h" "load64 m' (n + 8) = 0"
    and "\<And>x. x \<in> set xs \<Longrightarrow> load64 m' x = load64 m x"
    and "\<And>x. x \<in> set xs \<Longrightarrow> load64 m' (x + 8) = (if x = h then n else load64 m (x + 8))"
  shows "dll m' 0 n (n # xs)"
proof (cases xs)
  case Nil
  then have h: "h = 0" using assms(1) by simp
  show ?thesis unfolding Nil using assms(3-5) h by simp
next
  case (Cons x ys)
  then have h: "h = x" and t: "dll m x (load64 m x) ys" using assms(1) by auto
  have "dll m' x (load64 m x) ys \<longleftrightarrow> dll m x (load64 m x) ys"
    using assms(2,6,7) h Cons by (intro dll_cong) auto
  with t assms Cons h show ?thesis by auto
qed

text \<open>Taking a node out: its neighbours are linked to each other.\<close>

lemma dll_remove:
  assumes "dll m prev p (xs @ n # ys)" "distinct (xs @ n # ys)"
    and "\<And>x. x \<in> set xs \<union> set ys \<Longrightarrow>
      load64 m' x = (if xs \<noteq> [] \<and> x = last xs then load64 m n else load64 m x)"
    and "\<And>x. x \<in> set xs \<union> set ys \<Longrightarrow>
      load64 m' (x + 8) = (if ys \<noteq> [] \<and> x = hd ys then load64 m (n + 8) else load64 m (x + 8))"
  shows "dll m' prev (if xs = [] then load64 m n else p) (xs @ ys)"
  using assms
proof (induction xs arbitrary: prev p)
  case Nil
  show ?case
  proof (cases ys)
    case (Cons y zs)
    then have y: "load64 m n = y" "y \<noteq> 0" "dll m y (load64 m y) zs" "load64 m (n + 8) = prev"
      using Nil.prems(1) by auto
    have "dll m' y (load64 m y) zs \<longleftrightarrow> dll m y (load64 m y) zs"
      using Nil.prems(2,3,4) Cons by (intro dll_cong) auto
    with y Nil.prems(3) [of y] Nil.prems(4) [of y] Cons show ?thesis by auto
  qed (use Nil.prems(1) in simp)
next
  case (Cons x xs)
  have x: "p = x" "x \<noteq> 0" "load64 m (x + 8) = prev" "dll m x (load64 m x) (xs @ n # ys)"
    using Cons.prems(1) by auto
  have "dll m' x (if xs = [] then load64 m n else load64 m x) (xs @ ys)"
  proof (rule Cons.IH [OF x(4)])
    show "distinct (xs @ n # ys)" using Cons.prems(2) by simp
    show "load64 m' y = (if xs \<noteq> [] \<and> y = last xs then load64 m n else load64 m y)"
      if "y \<in> set xs \<union> set ys" for y
      using Cons.prems(2) Cons.prems(3) [of y] that by (cases "xs = []") auto
    show "load64 m' (y + 8) = (if ys \<noteq> [] \<and> y = hd ys then load64 m (n + 8) else load64 m (y + 8))"
      if "y \<in> set xs \<union> set ys" for y
      using Cons.prems(4) [of y] that by auto
  qed
  moreover have "load64 m' x = (if xs = [] then load64 m n else load64 m x)"
    using Cons.prems(2) Cons.prems(3) [of x] last_in_set [of xs] by auto
  moreover have "load64 m' (x + 8) = prev"
  proof -
    have "\<not> (ys \<noteq> [] \<and> x = hd ys)" using Cons.prems(2) hd_in_set [of ys] by auto
    then show ?thesis using Cons.prems(4) [of x] x(3) by auto
  qed
  ultimately show ?case using x(1,2) by simp
qed

text \<open>Aligned words are either the same or apart.\<close>

lemma load64_store64:
  assumes "8 dvd unat p" "8 dvd unat q"
  shows "load64 (store64 p v m) q = (if p = q then v else load64 m q)"
proof (cases "p = q")
  case False
  obtain a b where ab: "unat p = 8 * a" "unat q = 8 * b" using assms by (auto elim!: dvdE)
  have "unat p < 2 ^ 64" "unat q < 2 ^ 64" by simp_all
  then have "unat p + 8 \<le> 2 ^ 64" "unat q + 8 \<le> 2 ^ 64" using ab by auto
  moreover have "unat p \<noteq> unat q" using False by (simp add: word_eq_iff_unat)
  then have "unat p + 8 \<le> unat q \<or> unat q + 8 \<le> unat p" using ab by auto
  ultimately have "load64 (store64 p v m) q = load64 m q" by (intro load64_store64_other) auto
  with False show ?thesis by simp
qed simp

end
