(* ===== verification/Order.thy ===== *)
theory Order
  imports Prelude
begin

text \<open>
  The order of a size, \<open>get_order\<close> of \<open>src/allo_buddy.c\<close>: the least \<open>k\<close> with \<open>size \<le> 2 ^ k\<close>. The
  code has two versions, one with the compiler's count of leading zeros and a portable binary
  search; both are modelled and shown to agree with the specification.
\<close>

section \<open>Code\<close>

text \<open>The built-in \<open>__builtin_clzll\<close>: the number of zero bits above the highest one bit.\<close>

definition builtin_clzll :: "64 word \<Rightarrow> nat" where
  "builtin_clzll x = length (takeWhile (\<lambda>i. \<not> bit x i) (rev [0..<64]))"

definition get_order :: "size_t \<Rightarrow> int" where
  "get_order n = (if n \<le> 1 then 0 else 64 - int (builtin_clzll (n - 1)))"

text \<open>One step of the portable version: if a bit of the mask is set, shift and count.\<close>

definition order_step :: "64 word \<Rightarrow> nat \<Rightarrow> 64 word \<times> int \<Rightarrow> 64 word \<times> int" where
  "order_step m k = (\<lambda>(val, order). if val AND m \<noteq> 0 then (drop_bit k val, order + int k) else (val, order))"

definition get_order_portable :: "size_t \<Rightarrow> int" where
  "get_order_portable n =
     (if n \<le> 1 then 0
      else
        (let (val, order) = order_step 0xFFFFFFFF00000000 32 (n - 1, 0);
             (val, order) = order_step 0xFFFF0000 16 (val, order);
             (val, order) = order_step 0xFF00 8 (val, order);
             (val, order) = order_step 0xF0 4 (val, order);
             (val, order) = order_step 0xC 2 (val, order);
             (val, order) = order_step 0x2 1 (val, order)
         in if val AND 1 \<noteq> 0 then order + 1 else order))"

section \<open>The length of a binary number\<close>

definition bit_len :: "nat \<Rightarrow> nat" where
  "bit_len v = (LEAST k. v < 2 ^ k)"

lemma bit_len_bound: "v < 2 ^ bit_len v"
  unfolding bit_len_def by (rule LeastI [of _ v]) (rule less_exp)

lemma bit_len_le_iff: "bit_len v \<le> k \<longleftrightarrow> v < 2 ^ k"
proof
  assume "bit_len v \<le> k"
  then have "(2 :: nat) ^ bit_len v \<le> 2 ^ k" by (intro power_increasing) simp_all
  with bit_len_bound [of v] show "v < 2 ^ k" by (rule less_le_trans)
qed (simp add: bit_len_def Least_le)

lemma bit_lenI: "v < 2 ^ k \<Longrightarrow> (\<And>j. v < 2 ^ j \<Longrightarrow> k \<le> j) \<Longrightarrow> bit_len v = k"
  by (rule antisym) (simp_all add: bit_len_le_iff bit_len_bound)

lemma bit_len_0 [simp]: "bit_len 0 = 0"
  by (rule bit_lenI) simp_all

lemma bit_len_pos: "v \<noteq> 0 \<Longrightarrow> 0 < bit_len v"
  using bit_len_bound [of v] by (cases "bit_len v") auto

text \<open>Taking \<open>h\<close> low bits off a number that has more.\<close>

lemma bit_len_div:
  assumes "v div 2 ^ h \<noteq> 0"
  shows "bit_len v = h + bit_len (v div 2 ^ h)"
proof (rule bit_lenI)
  have "v div 2 ^ h < 2 ^ bit_len (v div 2 ^ h)" by (rule bit_len_bound)
  then show "v < 2 ^ (h + bit_len (v div 2 ^ h))"
    by (simp add: power_add div_less_iff_less_mult mult.commute)
next
  fix j assume j: "v < 2 ^ j"
  have "h \<le> j"
  proof (rule ccontr)
    assume "\<not> h \<le> j"
    then have "(2 :: nat) ^ j \<le> 2 ^ h" by (intro power_increasing) simp_all
    with j have "v < 2 ^ h" by (rule less_le_trans)
    then have "v div 2 ^ h = 0" by simp
    with assms show False by simp
  qed
  then have "v < 2 ^ (j - h) * 2 ^ h" using j by (simp flip: power_add)
  then have "v div 2 ^ h < 2 ^ (j - h)" by (simp add: div_less_iff_less_mult)
  then have "bit_len (v div 2 ^ h) \<le> j - h" by (simp add: bit_len_le_iff)
  with \<open>h \<le> j\<close> show "h + bit_len (v div 2 ^ h) \<le> j" by simp
qed

section \<open>Both versions count the bits of \<open>n - 1\<close>\<close>

lemma bit_unat_iff: "bit x i \<longleftrightarrow> odd (unat x div 2 ^ i)" for x :: "64 word"
  by (simp add: bit_iff_odd [symmetric] bit_unsigned_iff)

lemma takeWhile_rev_upt:
  assumes "m \<le> n" "\<And>i. m \<le> i \<Longrightarrow> i < n \<Longrightarrow> P i" "m = 0 \<or> \<not> P (m - 1)"
  shows "length (takeWhile P (rev [0..<n])) = n - m"
  using assms
proof (induction n)
  case (Suc n)
  show ?case
  proof (cases "m = Suc n")
    case True
    then show ?thesis using Suc.prems(3) by simp
  next
    case False
    then have "length (takeWhile P (rev [0..<n])) = n - m"
      using Suc.prems by (intro Suc.IH) auto
    then show ?thesis using Suc.prems False by (simp add: Suc_diff_le)
  qed
qed simp

lemma clzll_bit_len:
  assumes "x \<noteq> 0"
  shows "builtin_clzll x = 64 - bit_len (unat x)"
  unfolding builtin_clzll_def
proof (rule takeWhile_rev_upt)
  have "unat x < 2 ^ 64" by simp
  then show le: "bit_len (unat x) \<le> 64" by (simp only: bit_len_le_iff)
  show "\<not> bit x i" if "bit_len (unat x) \<le> i" for i
    using that by (simp add: bit_len_le_iff bit_unat_iff)
  have pos: "0 < bit_len (unat x)" using assms by (intro bit_len_pos) (simp add: unat_eq_0)
  let ?k = "bit_len (unat x) - 1"
  have "\<not> unat x < 2 ^ ?k" using pos bit_len_le_iff [of "unat x" ?k] by linarith
  moreover have "unat x < 2 * 2 ^ ?k" using bit_len_bound [of "unat x"] pos by (cases "bit_len (unat x)") auto
  ultimately have "unat x div 2 ^ ?k = 1" by (intro div_nat_eqI) simp_all
  then show "bit_len (unat x) = 0 \<or> \<not> \<not> bit x ?k" by (simp add: bit_unat_iff)
qed

lemma get_order_bit_len: "n \<noteq> 0 \<Longrightarrow> get_order n = int (bit_len (unat n - 1))"
proof -
  assume n: "n \<noteq> 0"
  show ?thesis
  proof (cases "n \<le> 1")
    case True
    then have "n = 1" using n by (metis antisym word_le_sub1 word_zero_le le_numeral_extra(4) eq_iff_diff_eq_0)
    then show ?thesis by (simp add: get_order_def)
  next
    case False
    then have u: "unat (n - 1) = unat n - 1" "n - 1 \<noteq> 0" using n by (auto simp: unat_pred64)
    have "unat n - 1 < 2 ^ 64" by (simp add: less_imp_diff_less)
    then have "bit_len (unat n - 1) \<le> 64" by (simp only: bit_len_le_iff)
    with False u show ?thesis by (simp add: get_order_def clzll_bit_len of_nat_diff)
  qed
qed

text \<open>The specification: the least exponent whose power of two holds the size.\<close>

lemma get_order_le_iff: "n \<noteq> 0 \<Longrightarrow> get_order n \<le> int k \<longleftrightarrow> unat n \<le> 2 ^ k"
proof -
  assume n: "n \<noteq> 0"
  have "get_order n \<le> int k \<longleftrightarrow> unat n - 1 < 2 ^ k"
    by (simp add: get_order_bit_len [OF n] bit_len_le_iff)
  with n show ?thesis by (auto dest: unat_pos64)
qed

lemma get_order_nonneg: "0 \<le> get_order n"
proof (cases "n = 0")
  case False
  then show ?thesis by (simp add: get_order_bit_len)
qed (simp add: get_order_def)

lemma order_step_ok:
  assumes "unat v < 2 ^ (2 * h)" "h \<le> 32" "m = push_bit h (mask h)"
  obtains v' d' where "order_step m h (v, d) = (v', d')" "unat v' < 2 ^ h"
    "d' + int (bit_len (unat v')) = d + int (bit_len (unat v))"
proof -
  have sh: "v AND m = v AND NOT (mask h)"
  proof (rule bit_word_eqI)
    fix i assume i: "i < LENGTH(64)"
    have "\<not> bit v i" if "2 * h \<le> i"
    proof -
      have "(2 :: nat) ^ (2 * h) \<le> 2 ^ i" using that by (intro power_increasing) simp_all
      with assms(1) have "unat v < 2 ^ i" by (rule less_le_trans)
      then show ?thesis by (simp add: bit_unat_iff)
    qed
    then have "\<not> i < h \<Longrightarrow> bit v i \<Longrightarrow> i - h < h" by (cases "2 * h \<le> i") auto
    then show "bit (v AND m) i = bit (v AND NOT (mask h)) i"
      using i by (auto simp: assms(3) bit_simps)
  qed
  have ud: "unat (drop_bit h v) = unat v div 2 ^ h"
    by (rule unat_drop_bit64)
  have small: "unat v div 2 ^ h < 2 ^ h"
    using assms(1) by (simp add: div_less_iff_less_mult mult_2 power_add)
  have iff: "v AND m \<noteq> 0 \<longleftrightarrow> unat v div 2 ^ h \<noteq> 0"
    by (simp add: word_eq_iff_unat sh unat_and_not_mask)
  show thesis
  proof (cases "unat v div 2 ^ h = 0")
    case True
    then have "unat v < 2 ^ h" by (simp add: div_eq_0_iff)
    with True iff show thesis by (intro that [of v d]) (simp_all add: order_step_def)
  next
    case False
    then show thesis
      using iff ud small bit_len_div [OF False] by (intro that [of "drop_bit h v" "d + int h"]) (simp_all add: order_step_def)
  qed
qed


lemma get_order_portable_bit_len:
  assumes "n \<noteq> 0"
  shows "get_order_portable n = int (bit_len (unat n - 1))"
proof (cases "n \<le> 1")
  case True
  then have "unat n - 1 = 0" by (simp add: word_le_nat_alt)
  with True show ?thesis by (simp add: get_order_portable_def)
next
  case False
  define v where "v = n - 1"
  have u: "unat v = unat n - 1" using assms by (simp add: v_def unat_pred64)
  have masks: "0xFFFFFFFF00000000 = push_bit 32 (mask 32 :: 64 word)" "0xFFFF0000 = push_bit 16 (mask 16 :: 64 word)"
    "0xFF00 = push_bit 8 (mask 8 :: 64 word)" "0xF0 = push_bit 4 (mask 4 :: 64 word)"
    "0xC = push_bit 2 (mask 2 :: 64 word)" "0x2 = push_bit 1 (mask 1 :: 64 word)"
    by (simp_all add: mask_eq_exp_minus_1 push_bit_eq_mult)
  obtain v1 d1 where 1: "order_step 0xFFFFFFFF00000000 32 (v, 0) = (v1, d1)" "unat v1 < 2 ^ 32"
    "d1 + int (bit_len (unat v1)) = 0 + int (bit_len (unat v))"
    by (rule order_step_ok [where d = "0", OF _ _ masks(1), of v]) simp_all
  obtain v2 d2 where 2: "order_step 0xFFFF0000 16 (v1, d1) = (v2, d2)" "unat v2 < 2 ^ 16"
    "d2 + int (bit_len (unat v2)) = d1 + int (bit_len (unat v1))"
    by (rule order_step_ok [where d = "d1", OF _ _ masks(2), of v1]) (use 1(2) in simp_all)
  obtain v3 d3 where 3: "order_step 0xFF00 8 (v2, d2) = (v3, d3)" "unat v3 < 2 ^ 8"
    "d3 + int (bit_len (unat v3)) = d2 + int (bit_len (unat v2))"
    by (rule order_step_ok [where d = "d2", OF _ _ masks(3), of v2]) (use 2(2) in simp_all)
  obtain v4 d4 where 4: "order_step 0xF0 4 (v3, d3) = (v4, d4)" "unat v4 < 2 ^ 4"
    "d4 + int (bit_len (unat v4)) = d3 + int (bit_len (unat v3))"
    by (rule order_step_ok [where d = "d3", OF _ _ masks(4), of v3]) (use 3(2) in simp_all)
  obtain v5 d5 where 5: "order_step 0xC 2 (v4, d4) = (v5, d5)" "unat v5 < 2 ^ 2"
    "d5 + int (bit_len (unat v5)) = d4 + int (bit_len (unat v4))"
    by (rule order_step_ok [where d = "d4", OF _ _ masks(5), of v4]) (use 4(2) in simp_all)
  obtain v6 d6 where 6: "order_step 0x2 1 (v5, d5) = (v6, d6)" "unat v6 < 2 ^ 1"
    "d6 + int (bit_len (unat v6)) = d5 + int (bit_len (unat v5))"
    by (rule order_step_ok [where d = "d5", OF _ _ masks(6), of v5]) (use 5(2) in simp_all)
  have run: "get_order_portable n = (if v6 AND 1 \<noteq> 0 then d6 + 1 else d6)"
    using False by (simp add: get_order_portable_def 1(1) 2(1) 3(1) 4(1) 5(1) 6(1) 6(1) [unfolded One_nat_def] flip: v_def)
  have "bit_len 1 = 1" 
  proof (rule bit_lenI)
    show "1 \<le> j" if "1 < (2 :: nat) ^ j" for j using that by (cases j) simp_all
  qed simp
  moreover have "v6 = 0 \<or> v6 = 1" using 6(2) by (auto simp: word_eq_iff_unat)
  ultimately have "get_order_portable n = d6 + int (bit_len (unat v6))" using run by auto
  also have "\<dots> = int (bit_len (unat v))" using 1(3) 2(3) 3(3) 4(3) 5(3) 6(3) by simp
  finally show ?thesis by (simp add: u)
qed

lemma get_order_versions: "get_order_portable n = get_order n"
proof (cases "n = 0")
  case False
  then show ?thesis by (simp add: get_order_bit_len get_order_portable_bit_len)
qed (simp add: get_order_def get_order_portable_def)

text \<open>The power of two of the order is the next one.\<close>

lemma get_order_bounds:
  assumes "n \<noteq> 0"
  shows "unat n \<le> 2 ^ nat (get_order n)" "2 ^ nat (get_order n) < 2 * unat n"
proof -
  let ?k = "nat (get_order n)"
  have k: "get_order n = int ?k" using get_order_nonneg [of n] by simp
  then show "unat n \<le> 2 ^ ?k" using get_order_le_iff [OF assms, of ?k] by simp
  show "2 ^ ?k < 2 * unat n"
  proof (cases ?k)
    case 0
    then show ?thesis using unat_pos64 [OF assms] by simp
  next
    case (Suc j)
    then have "\<not> get_order n \<le> int j" using k by simp
    then show ?thesis using get_order_le_iff [OF assms, of j] Suc by simp
  qed
qed

end
