(* ===== verification/BuddyTree.thy ===== *)
theory BuddyTree
  imports Main
begin

text \<open>
  The abstract side of the buddy allocator: nodes of a binary tree of depth \<open>D\<close>, given by level
  and index as in \<open>src/allo_buddy.c\<close>, and the tilings of the leaves by nodes. The free and the
  allocated blocks are such a tiling at all times; splitting and merging keep it; a tiling of
  free blocks without free buddies is the whole buffer in one piece.
\<close>

type_synonym node = "nat \<times> nat"

text \<open>The leaves below a node.\<close>

definition leaves :: "nat \<Rightarrow> node \<Rightarrow> nat set" where
  "leaves D x = {j. j div 2 ^ (D - fst x) = snd x}"

definition node_ok :: "nat \<Rightarrow> node \<Rightarrow> bool" where
  "node_ok D x \<longleftrightarrow> fst x \<le> D \<and> snd x < 2 ^ fst x"

definition tiling :: "nat \<Rightarrow> node set \<Rightarrow> bool" where
  "tiling D T \<longleftrightarrow> (\<forall>x\<in>T. node_ok D x) \<and> (\<Union>x\<in>T. leaves D x) = {..<2 ^ D} \<and>
     (\<forall>x\<in>T. \<forall>y\<in>T. x \<noteq> y \<longrightarrow> leaves D x \<inter> leaves D y = {})"

text \<open>The index of the buddy: \<open>index ^ 1\<close> in C.\<close>

definition flip1 :: "nat \<Rightarrow> nat" where
  "flip1 i = (if even i then i + 1 else i - 1)"

text \<open>No two free buddies.\<close>

definition merged :: "node set \<Rightarrow> bool" where
  "merged F \<longleftrightarrow> (\<forall>l i. (Suc l, i) \<in> F \<longrightarrow> (Suc l, flip1 i) \<notin> F)"

section \<open>Leaves\<close>

lemma flip1_flip1 [simp]: "flip1 (flip1 i) = i"
  by (auto simp: flip1_def elim: oddE)

lemma flip1_div2 [simp]: "flip1 i div 2 = i div 2"
  by (auto simp: flip1_def elim: oddE)

lemma flip1_neq [simp]: "flip1 i \<noteq> i"
  by (auto simp: flip1_def elim: oddE)

lemma flip1_children: "{i, flip1 i} = {2 * (i div 2), 2 * (i div 2) + 1}"
  by (cases "even i") (auto simp: flip1_def elim!: evenE oddE)

lemma flip1_less: "i < 2 ^ Suc l \<Longrightarrow> flip1 i < 2 ^ Suc l"
proof -
  assume "i < 2 ^ Suc l"
  then have "i div 2 < 2 ^ l" by (simp add: div_less_iff_less_mult mult.commute)
  then have "flip1 i div 2 < 2 ^ l" by simp
  then show ?thesis by (simp only: div_less_iff_less_mult power_Suc mult.commute)
qed

lemma leaves_first: "i * 2 ^ (D - l) \<in> leaves D (l, i)"
  by (simp add: leaves_def)

lemma leaves_nonempty: "leaves D x \<noteq> {}"
  using leaves_first [of "snd x" D "fst x"] by auto

lemma leaves_bounds: "j \<in> leaves D (l, i) \<longleftrightarrow> i * 2 ^ (D - l) \<le> j \<and> j < (i + 1) * 2 ^ (D - l)"
proof
  assume "j \<in> leaves D (l, i)"
  then have j: "j div 2 ^ (D - l) = i" by (simp add: leaves_def)
  then have "i * 2 ^ (D - l) \<le> j" by auto
  moreover have "j < (i + 1) * 2 ^ (D - l)" using j dividend_less_div_times [of "2 ^ (D - l)" j] by simp
  ultimately show "i * 2 ^ (D - l) \<le> j \<and> j < (i + 1) * 2 ^ (D - l)" by simp
next
  assume "i * 2 ^ (D - l) \<le> j \<and> j < (i + 1) * 2 ^ (D - l)"
  then show "j \<in> leaves D (l, i)" by (auto simp: leaves_def intro: div_nat_eqI simp: mult.commute)
qed

text \<open>A node is its two children, or one child and its buddy.\<close>

lemma leaves_split:
  assumes "l < D"
  shows "leaves D (l, i) = leaves D (Suc l, 2 * i) \<union> leaves D (Suc l, 2 * i + 1)"
    "leaves D (Suc l, 2 * i) \<inter> leaves D (Suc l, 2 * i + 1) = {}"
proof -
  have "D - l = Suc (D - Suc l)" using assms by simp
  then have "j div 2 ^ (D - l) = j div 2 ^ (D - Suc l) div 2" for j :: nat
    by (simp add: div_mult2_eq [symmetric] mult.commute)
  then show "leaves D (l, i) = leaves D (Suc l, 2 * i) \<union> leaves D (Suc l, 2 * i + 1)"
    by (auto simp: leaves_def)
qed (auto simp: leaves_def)

lemma node_ok_children:
  "l < D \<Longrightarrow> node_ok D (l, i) \<longleftrightarrow> node_ok D (Suc l, 2 * i) \<and> node_ok D (Suc l, 2 * i + 1)"
  by (auto simp: node_ok_def)

section \<open>Tilings\<close>

lemma tiling_node: "tiling D T \<Longrightarrow> x \<in> T \<Longrightarrow> node_ok D x"
  by (simp add: tiling_def)

lemma tiling_disjoint:
  "tiling D T \<Longrightarrow> x \<in> T \<Longrightarrow> y \<in> T \<Longrightarrow> x \<noteq> y \<Longrightarrow> leaves D x \<inter> leaves D y = {}"
  by (simp add: tiling_def)

lemma tiling_root: "tiling D {(0, 0)}"
  by (auto simp: tiling_def node_ok_def leaves_def div_eq_0_iff)

lemma tiling_split:
  assumes T: "tiling D (insert (l, i) X)" and x: "(l, i) \<notin> X" and l: "l < D"
  shows "tiling D (insert (Suc l, 2 * i) (insert (Suc l, 2 * i + 1) X))"
    "(Suc l, 2 * i) \<notin> X" "(Suc l, 2 * i + 1) \<notin> X"
proof -
  note sp = leaves_split [OF l, of i]
  have sep: "leaves D (l, i) \<inter> leaves D y = {}" if "y \<in> X" for y
    using tiling_disjoint [OF T, of "(l, i)" y] that x by auto
  show "(Suc l, 2 * i) \<notin> X" using sep leaves_nonempty sp(1) by blast
  show "(Suc l, 2 * i + 1) \<notin> X" using sep leaves_nonempty sp(1) by blast
  have ok: "node_ok D (Suc l, 2 * i)" "node_ok D (Suc l, 2 * i + 1)"
    using tiling_node [OF T] node_ok_children [OF l] by auto
  have X: "leaves D y \<inter> leaves D z = {}" if "y \<in> X" "z \<in> X" "y \<noteq> z" for y z
    using tiling_disjoint [OF T] that by blast
  have c: "leaves D y \<inter> leaves D z = {}" if "y \<in> {(Suc l, 2 * i), (Suc l, 2 * i + 1)}" "z \<in> X" for y z
    using sep [OF that(2)] that(1) sp(1) by auto
  show "tiling D (insert (Suc l, 2 * i) (insert (Suc l, 2 * i + 1) X))"
    unfolding tiling_def
  proof (intro conjI ballI impI)
    fix y assume "y \<in> insert (Suc l, 2 * i) (insert (Suc l, 2 * i + 1) X)"
    then show "node_ok D y" using ok tiling_node [OF T, of y] by auto
  next
    have "(\<Union>x\<in>insert (l, i) X. leaves D x) = {..<2 ^ D}" using T by (simp add: tiling_def)
    then show "(\<Union>x\<in>insert (Suc l, 2 * i) (insert (Suc l, 2 * i + 1) X). leaves D x) = {..<2 ^ D}"
      using sp(1) by auto
  next
    fix y z assume y: "y \<in> insert (Suc l, 2 * i) (insert (Suc l, 2 * i + 1) X)"
      and z: "z \<in> insert (Suc l, 2 * i) (insert (Suc l, 2 * i + 1) X)" and "y \<noteq> z"
    then show "leaves D y \<inter> leaves D z = {}"
      using X [of y z] c [of y z] c [of z y] sp(2) by blast
  qed
qed

lemma tiling_merge:
  assumes T: "tiling D (insert (Suc l, i) (insert (Suc l, flip1 i) X))"
    and x: "(Suc l, i) \<notin> X" "(Suc l, flip1 i) \<notin> X"
  shows "tiling D (insert (l, i div 2) X)" "(l, i div 2) \<notin> X"
proof -
  let ?c = "{(Suc l, i), (Suc l, flip1 i)}" and ?h = "i div 2"
  have l: "l < D" using tiling_node [OF T, of "(Suc l, i)"] by (simp add: node_ok_def)
  have c: "?c = {(Suc l, 2 * ?h), (Suc l, 2 * ?h + 1)}"
    using flip1_children [of i] by (auto simp: doubleton_eq_iff)
  have lv: "leaves D (l, ?h) = (\<Union>x\<in>?c. leaves D x)"
    unfolding c using leaves_split(1) [OF l, of ?h] by simp
  have sep: "leaves D (l, ?h) \<inter> leaves D y = {}" if "y \<in> X" for y
    unfolding lv using tiling_disjoint [OF T, of _ y] that x by blast
  then show new: "(l, ?h) \<notin> X" using leaves_nonempty by blast
  have "node_ok D (Suc l, 2 * ?h)" "node_ok D (Suc l, 2 * ?h + 1)"
    using tiling_node [OF T] c by blast+
  then have ok: "node_ok D (l, ?h)" using node_ok_children [OF l] by blast
  show "tiling D (insert (l, ?h) X)"
    unfolding tiling_def
  proof (intro conjI ballI impI)
    fix y assume "y \<in> insert (l, ?h) X"
    then show "node_ok D y" using ok tiling_node [OF T, of y] by auto
  next
    have "(\<Union>x\<in>?c \<union> X. leaves D x) = {..<2 ^ D}" using T by (simp add: tiling_def)
    then show "(\<Union>x\<in>insert (l, ?h) X. leaves D x) = {..<2 ^ D}" using lv by auto
  next
    fix y z assume "y \<in> insert (l, ?h) X" "z \<in> insert (l, ?h) X" "y \<noteq> z"
    then show "leaves D y \<inter> leaves D z = {}"
      using sep [of y] sep [of z] tiling_disjoint [OF T, of y z] by blast
  qed
qed

text \<open>Everything free and merged: one block.\<close>

lemma tiling_finite: "tiling D T \<Longrightarrow> finite T"
proof (rule finite_subset)
  show "tiling D T \<Longrightarrow> T \<subseteq> {..D} \<times> {..<2 ^ D}"
  proof
    fix x assume "tiling D T" "x \<in> T"
    then have x: "fst x \<le> D" "snd x < 2 ^ fst x" using tiling_node by (auto simp: node_ok_def)
    then have "(2 :: nat) ^ fst x \<le> 2 ^ D" by (intro power_increasing) simp_all
    with x(2) have "snd x < 2 ^ D" by (rule less_le_trans)
    with x(1) show "x \<in> {..D} \<times> {..<2 ^ D}" by (cases x) simp
  qed
qed simp

lemma leaves_ancestor:
  assumes "j \<in> leaves D (l, i)" "l' \<le> l" "l \<le> D"
  shows "j div 2 ^ (D - l') = i div 2 ^ (l - l')"
proof -
  have "D - l' = (D - l) + (l - l')" using assms by simp
  then show ?thesis using assms(1) by (simp add: leaves_def power_add div_mult2_eq)
qed

text \<open>Nodes that share a leaf: the lower one is below the other.\<close>

lemma leaves_meet:
  assumes "j \<in> leaves D (l, i)" "j \<in> leaves D (l', i')" "l' \<le> l" "l \<le> D"
  shows "i' = i div 2 ^ (l - l')"
  using leaves_ancestor [OF assms(1,3,4)] assms(2) by (simp add: leaves_def)

lemma leaves_below:
  assumes "i' = i div 2 ^ (l - l')" "l' \<le> l" "l \<le> D"
  shows "leaves D (l, i) \<subseteq> leaves D (l', i')"
  using leaves_ancestor [OF _ assms(2,3)] assms(1) by (auto simp: leaves_def)

lemma flip1_above: "l' < l \<Longrightarrow> flip1 i div 2 ^ (l - l') = i div 2 ^ (l - l')"
proof -
  assume "l' < l"
  then obtain d where "l - l' = Suc d" by (metis Suc_diff_Suc)
  then show ?thesis by (simp add: div_mult2_eq)
qed

text \<open>
  Merging is complete: a node none of whose leaves is in use lies in one free node.
\<close>

lemma merged_free_node:
  assumes T: "tiling D (F \<union> U)" and m: "merged F" and ok: "node_ok D (l, i)"
    and free: "\<And>x. x \<in> U \<Longrightarrow> leaves D x \<inter> leaves D (l, i) = {}"
  shows "\<exists>l'\<le>l. (l', i div 2 ^ (l - l')) \<in> F"
proof -
  define S where "S = {x \<in> F. leaves D x \<inter> leaves D (l, i) \<noteq> {}}"
  have cover: "\<exists>x\<in>S. j \<in> leaves D x" if "j \<in> leaves D (l, i)" for j
  proof -
    have "j < (i + 1) * 2 ^ (D - l)" using that by (simp only: leaves_bounds)
    also have "\<dots> \<le> 2 ^ l * 2 ^ (D - l)" using ok by (intro mult_le_mono1) (simp add: node_ok_def)
    also have "\<dots> = 2 ^ D" using ok by (simp add: node_ok_def flip: power_add)
    finally have "j \<in> (\<Union>x\<in>F \<union> U. leaves D x)" using T by (simp add: tiling_def)
    then obtain x where "x \<in> F \<union> U" "j \<in> leaves D x" by blast
    then show ?thesis using free [of x] that unfolding S_def by blast
  qed
  have "finite S" using tiling_finite [OF T] by (simp add: S_def)
  moreover have "S \<noteq> {}" using cover [OF leaves_first] by blast
  ultimately have "Max (fst ` S) \<in> fst ` S" and top: "\<And>y. y \<in> S \<Longrightarrow> fst y \<le> Max (fst ` S)"
    by (auto intro: Max_in Max_ge)
  then obtain k n where x: "(k, n) \<in> S" "\<And>y. y \<in> S \<Longrightarrow> fst y \<le> k" by auto
  have kn: "(k, n) \<in> F" "node_ok D (k, n)" using x(1) tiling_node [OF T] by (auto simp: S_def)
  obtain j where j: "j \<in> leaves D (k, n)" "j \<in> leaves D (l, i)" using x(1) by (auto simp: S_def)
  show ?thesis
  proof (cases "k \<le> l")
    case True
    then have "n = i div 2 ^ (l - k)" using leaves_meet [OF j(2,1)] ok by (simp add: node_ok_def)
    with True kn(1) show ?thesis by auto
  next
    case False
    then have lk: "l < k" by simp
    have kD: "k \<le> D" using kn(2) by (simp add: node_ok_def)
    have "i = n div 2 ^ (k - l)" using leaves_meet [OF j] lk kD by simp
    then have "i = flip1 n div 2 ^ (k - l)" using flip1_above [OF lk] by simp
    then have "leaves D (k, flip1 n) \<subseteq> leaves D (l, i)" using lk kD by (intro leaves_below) simp_all
    then obtain y where y: "y \<in> S" "flip1 n * 2 ^ (D - k) \<in> leaves D y"
      using cover leaves_first [of "flip1 n" D k] by blast
    obtain l' i' where yl: "y = (l', i')" by (cases y)
    have le: "l' \<le> k" using x(2) [OF y(1)] by (simp add: yl)
    have i': "i' = flip1 n div 2 ^ (k - l')"
      using leaves_meet [OF leaves_first [of "flip1 n" D k] _ le kD] y(2) by (simp add: yl)
    have yF: "(l', i') \<in> F" using y(1) by (simp add: S_def yl)
    show ?thesis
    proof (cases "l' = k")
      case True
      obtain k' where "k = Suc k'" using lk by (cases k) auto
      then show ?thesis using m kn(1) yF i' True by (auto simp: merged_def)
    next
      case False
      then have lt: "l' < k" using le by simp
      then have "leaves D (k, n) \<subseteq> leaves D (l', i')"
        using i' flip1_above [OF lt] kD by (intro leaves_below) simp_all
      moreover have "leaves D (k, n) \<inter> leaves D (l', i') = {}"
        using tiling_disjoint [OF T, of "(k, n)" "(l', i')"] kn(1) yF False by auto
      ultimately show ?thesis using leaves_nonempty by blast
    qed
  qed
qed

theorem merged_tiling_root:
  assumes T: "tiling D F" and m: "merged F"
  shows "F = {(0, 0)}"
proof -
  have "\<exists>l'\<le>0. (l', 0 div 2 ^ (0 - l')) \<in> F"
    using merged_free_node [of D F "{}" 0 0] T m by (simp add: node_ok_def)
  then have root: "(0, 0) \<in> F" by simp
  have "leaves D y \<subseteq> leaves D (0, 0)" if "y \<in> F" for y
    using tiling_node [OF T that] leaves_below [of 0 "snd y" "fst y" 0 D] by (cases y) (auto simp: node_ok_def)
  then have "y = (0, 0)" if "y \<in> F" for y
    using tiling_disjoint [OF T that root] that leaves_nonempty by blast
  with root show ?thesis by blast
qed

end
