(* ===== verification/Buddy.thy ===== *)
theory Buddy
  imports Buffer HeapLists Order BuddyTree
begin

text \<open>
  The buddy allocator, \<open>src/allo_buddy.c\<close>: a buffer of \<open>2 ^ max_order\<close> bytes cut into blocks whose
  sizes are powers of two; per level a doubly linked list of the free blocks, kept in the blocks
  themselves, and a bit set that says which blocks are free. Levels are C \<open>int\<close>s and range over
  at most \<open>-64..64\<close>; they are integers here. A negative shift count is undefined in C: it is
  \<open>None\<close>.
\<close>

section \<open>Code\<close>

record 'e buddy_context_t =
  bd_buffer :: ptr
  bd_total_size :: size_t
  bd_min_block_size :: size_t
  bd_max_order :: int
  bd_free_lists :: ptr
  bd_bitset :: ptr
  bd_block_orders :: ptr
  bd_own_buffer :: bool
  bd_child :: "'e allo"

type_synonym 'e buddy_machine = "('e buddy_context_t \<times> 'e) machine"

text \<open>The address of \<open>free_lists[level]\<close>; a node has \<open>next\<close> at offset 0 and \<open>prev\<close> at offset 8.\<close>

definition free_list :: "ptr \<Rightarrow> int \<Rightarrow> ptr" where
  "free_list fl level = fl + 8 * word_of_int level"

definition list_push :: "ptr \<Rightarrow> int \<Rightarrow> ptr \<Rightarrow> 'e machine \<Rightarrow> 'e machine" where
  "list_push fl level node s =
     (let s = wr64 node (rd64 s (free_list fl level)) s;
          s = wr64 (node + 8) NULL s;
          s = (if rd64 s (free_list fl level) \<noteq> NULL
               then wr64 (rd64 s (free_list fl level) + 8) node s else s)
      in wr64 (free_list fl level) node s)"

definition list_remove :: "ptr \<Rightarrow> int \<Rightarrow> ptr \<Rightarrow> 'e machine \<Rightarrow> 'e machine" where
  "list_remove fl level node s =
     (let s = (if rd64 s (node + 8) \<noteq> NULL
               then wr64 (rd64 s (node + 8)) (rd64 s node) s
               else wr64 (free_list fl level) (rd64 s node) s)
      in if rd64 s node \<noteq> NULL
         then wr64 (rd64 s node + 8) (rd64 s (node + 8)) s else s)"

definition node_index :: "int \<Rightarrow> size_t \<Rightarrow> size_t" where
  "node_index level index = push_bit (nat level) 1 + index - 1"

definition set_bit :: "ptr \<Rightarrow> size_t \<Rightarrow> 'e machine \<Rightarrow> 'e machine" where
  "set_bit bitset b s = s\<lparr>mem := (mem s)(bitset + b div 8 :=
     mem s (bitset + b div 8) OR push_bit (unat (b mod 8)) 1)\<rparr>"

definition clear_bit :: "ptr \<Rightarrow> size_t \<Rightarrow> 'e machine \<Rightarrow> 'e machine" where
  "clear_bit bitset b s = s\<lparr>mem := (mem s)(bitset + b div 8 :=
     mem s (bitset + b div 8) AND NOT (push_bit (unat (b mod 8)) 1))\<rparr>"

definition get_bit :: "ptr \<Rightarrow> size_t \<Rightarrow> memory \<Rightarrow> byte" where
  "get_bit bitset b m = drop_bit (unat (b mod 8)) (m (bitset + b div 8)) AND 1"

text \<open>The order a request is rounded to.\<close>

definition block_order :: "'e buddy_context_t \<Rightarrow> size_t \<Rightarrow> int" where
  "block_order ctx n =
     (let order = get_order n; min_order = get_order (bd_min_block_size ctx)
      in if order < min_order then min_order else order)"

text \<open>The search loop of \<open>buddy_alloc_fn\<close>.\<close>

function find_level :: "memory \<Rightarrow> ptr \<Rightarrow> int \<Rightarrow> int" where
  "find_level m fl level =
     (if level \<ge> 0 \<and> load64 m (free_list fl level) = NULL then find_level m fl (level - 1) else level)"
  by pat_completeness auto
termination by (relation "measure (\<lambda>(m, fl, level). nat (level + 1))") auto

declare find_level.simps [simp del]

text \<open>The split loop of \<open>buddy_alloc_fn\<close>.\<close>

function split_loop ::
  "'c buddy_context_t \<Rightarrow> ptr \<Rightarrow> int \<Rightarrow> int \<Rightarrow> size_t \<Rightarrow> 'e machine \<Rightarrow> 'e machine" where
  "split_loop ctx node target level index s =
     (if level < target then
        (let level = level + 1;
             index = push_bit 1 index;
             buddy_size = drop_bit (nat level) (bd_total_size ctx);
             buddy = node + buddy_size;
             s = ALLOC_UNPOISON buddy 16 s;
             s = list_push (bd_free_lists ctx) level buddy s;
             s = set_bit (bd_bitset ctx) (node_index level (index + 1)) s;
             s = clear_bit (bd_bitset ctx) (node_index level index) s
         in split_loop ctx node target level index s)
      else s)"
  by pat_completeness auto
termination by (relation "measure (\<lambda>(ctx, node, target, level, index, s). nat (target - level))") auto

declare split_loop.simps [simp del]

definition buddy_alloc_fn :: "size_t \<Rightarrow> 'e buddy_machine \<Rightarrow> (ptr \<times> 'e buddy_machine) option" where
  "buddy_alloc_fn n s =
     (if n = 0 then Some (NULL, s)
      else
        (let ctx = self_ctx s;
             target_level = bd_max_order ctx - block_order ctx n
         in
           if target_level < 0 then Some (NULL, s)
           else
             (let level = find_level (mem s) (bd_free_lists ctx) target_level in
              if level < 0 then Some (NULL, s)
              else
                (let node = rd64 s (free_list (bd_free_lists ctx) level);
                     s = ALLOC_UNPOISON node 16 s;
                     s = list_remove (bd_free_lists ctx) level node s;
                     index = (node - bd_buffer ctx) div drop_bit (nat level) (bd_total_size ctx);
                     s = clear_bit (bd_bitset ctx) (node_index level index) s;
                     s = split_loop ctx node target_level level index s;
                     block_idx = (node - bd_buffer ctx) div bd_min_block_size ctx;
                     s = s\<lparr>mem := (mem s)(bd_block_orders ctx + block_idx := word_of_int target_level)\<rparr>
                 in Some (node,
                      ALLOC_UNPOISON node (drop_bit (nat target_level) (bd_total_size ctx)) s)))))"

definition buddy_contains_fn ::
  "ptr \<Rightarrow> 'e buddy_machine \<Rightarrow> (allo_contains_t \<times> 'e buddy_machine) option" where
  "buddy_contains_fn p s =
     (let ctx = self_ctx s in
      Some (if p \<ge> bd_buffer ctx \<and> p < bd_buffer ctx + bd_total_size ctx
            then ALLO_CONTAINS_YES else ALLO_CONTAINS_NO, s))"

text \<open>A block becomes free and is put on its list.\<close>

definition buddy_insert :: "'c buddy_context_t \<Rightarrow> int \<Rightarrow> size_t \<Rightarrow> 'e machine \<Rightarrow> 'e machine" where
  "buddy_insert ctx level index s =
     (let s = set_bit (bd_bitset ctx) (node_index level index) s;
          node = bd_buffer ctx + index * drop_bit (nat level) (bd_total_size ctx);
          s = ALLOC_UNPOISON node 16 s
      in list_push (bd_free_lists ctx) level node s)"

text \<open>The merge loop of \<open>buddy_free_fn\<close>.\<close>

function merge_loop :: "'c buddy_context_t \<Rightarrow> int \<Rightarrow> size_t \<Rightarrow> 'e machine \<Rightarrow> 'e machine" where
  "merge_loop ctx level index s =
     (if level < 0 then s
      else if level = 0 then buddy_insert ctx level index s
      else
        (let buddy_idx = index XOR 1 in
         if get_bit (bd_bitset ctx) (node_index level buddy_idx) (mem s) = 0
         then buddy_insert ctx level index s
         else
           (let buddy_ptr = bd_buffer ctx + buddy_idx * drop_bit (nat level) (bd_total_size ctx);
                s = list_remove (bd_free_lists ctx) level buddy_ptr s;
                s = ALLOC_POISON buddy_ptr 16 s;
                s = clear_bit (bd_bitset ctx) (node_index level buddy_idx) s
            in merge_loop ctx (level - 1) (drop_bit 1 index) s)))"
  by pat_completeness auto
termination by (relation "measure (\<lambda>(ctx, level, index, s). nat (level + 1))") auto

declare merge_loop.simps [simp del]

definition buddy_free_fn :: "ptr \<Rightarrow> size_t \<Rightarrow> 'e buddy_machine \<Rightarrow> (unit \<times> 'e buddy_machine) option" where
  "buddy_free_fn p n s =
     (if p = NULL then Some ((), s)
      else do {
        (r, s) \<leftarrow> buddy_contains_fn p s;
        ALLO_ASSERT (r = ALLO_CONTAINS_YES);
        let ctx = self_ctx s;
        let level = bd_max_order ctx - block_order ctx n;
        if level < 0 then None
        else do {
          let offset = p - bd_buffer ctx;
          let index = offset div drop_bit (nat level) (bd_total_size ctx);
          let s = ALLOC_POISON p (drop_bit (nat level) (bd_total_size ctx)) s;
          Some ((), merge_loop ctx level index s)
        }
      })"

definition buddy_realloc_fn ::
  "ptr \<Rightarrow> size_t \<Rightarrow> size_t \<Rightarrow> 'e buddy_machine \<Rightarrow> (ptr \<times> 'e buddy_machine) option" where
  "buddy_realloc_fn p old_size new_size s = do {
     (r, s) \<leftarrow> (if p = NULL then Some (ALLO_CONTAINS_YES, s) else buddy_contains_fn p s);
     ALLO_ASSERT (p = NULL \<or> r = ALLO_CONTAINS_YES);
     if p = NULL then buddy_alloc_fn new_size s
     else if new_size = 0 then do {
       (_, s) \<leftarrow> buddy_free_fn p old_size s;
       Some (NULL, s)
     }
     else do {
       (new_ptr, s) \<leftarrow> buddy_alloc_fn new_size s;
       if new_ptr = NULL then Some (NULL, s)
       else do {
         let copy_size = (if old_size < new_size then old_size else new_size);
         (_, s) \<leftarrow> allo_memcpy new_ptr p copy_size s;
         (_, s) \<leftarrow> buddy_free_fn p old_size s;
         Some (new_ptr, s)
       }
     }
   }"

text \<open>The sizes of the three metadata blocks, as the factory and the destroy function compute them.\<close>

definition free_lists_bytes :: "int \<Rightarrow> size_t \<Rightarrow> size_t" where
  "free_lists_bytes max_order min_block =
     (let num_levels = max_order - get_order min_block + 1 in (word_of_int num_levels + 1) * 8)"

definition bitset_bytes :: "size_t \<Rightarrow> size_t \<Rightarrow> size_t" where
  "bitset_bytes tot min_block = (let max_nodes = tot div min_block * 2 in (max_nodes + 7) div 8)"

definition buddy_destroy_fn :: "'e buddy_machine \<Rightarrow> (unit \<times> 'e buddy_machine) option" where
  "buddy_destroy_fn s = do {
     let ctx = self_ctx s;
     (_, s) \<leftarrow> (if bd_own_buffer ctx \<and> bd_buffer ctx \<noteq> NULL
       then call_child (allo_free (bd_child ctx) (bd_buffer ctx) (bd_total_size ctx)) s
       else Some ((), s));
     (_, s) \<leftarrow> (if bd_free_lists ctx \<noteq> NULL
       then call_child (allo_free (bd_child ctx) (bd_free_lists ctx)
              (free_lists_bytes (bd_max_order ctx) (bd_min_block_size ctx))) s
       else Some ((), s));
     (_, s) \<leftarrow> (if bd_bitset ctx \<noteq> NULL
       then call_child (allo_free (bd_child ctx) (bd_bitset ctx)
              (bitset_bytes (bd_total_size ctx) (bd_min_block_size ctx))) s
       else Some ((), s));
     (if bd_block_orders ctx \<noteq> NULL
      then call_child (allo_free (bd_child ctx) (bd_block_orders ctx)
             (bd_total_size ctx div bd_min_block_size ctx)) s
      else Some ((), s))
   }"

definition buddy_allo :: "('e buddy_context_t \<times> 'e) allo" where
  "buddy_allo = \<lparr>vt_alloc = buddy_alloc_fn, vt_realloc = buddy_realloc_fn,
     vt_free_mem = buddy_free_fn, vt_destroy = Some buddy_destroy_fn,
     vt_contains = Some buddy_contains_fn\<rparr>"

text \<open>The loop that rounds the size up to a power of two; it need not end.\<close>

partial_function (option) round_up_loop :: "size_t \<Rightarrow> size_t \<Rightarrow> size_t option" where
  "round_up_loop actual_size n =
     (if actual_size < n then round_up_loop (push_bit 1 actual_size) n else Some actual_size)"

text \<open>The second half of the factory: the metadata and the first free block.\<close>

definition buddy_metadata ::
  "'e allo \<Rightarrow> bool \<Rightarrow> ptr \<Rightarrow> size_t \<Rightarrow> 'e machine \<Rightarrow>
     ((allo_error_t \<times> 'e machine) + 'e buddy_machine) option" where
  "buddy_metadata c own_buffer buf total_size s = (
     let max_order = get_order total_size;
         free_lists_count = word_of_int (max_order - get_order 32 + 1) + 1;
         bit_bytes = bitset_bytes total_size 32;
         block_orders_len = total_size div 32
     in do {
       (free_lists, s) \<leftarrow> allo_calloc c free_lists_count 8 s;
       if free_lists = NULL then do {
         (_, s) \<leftarrow> (if own_buffer then allo_free c buf total_size s else Some ((), s));
         Some (Inl (ALLO_ERR_NOMEM, s))
       }
       else do {
         (bitset, s) \<leftarrow> allo_calloc c bit_bytes 1 s;
         if bitset = NULL then do {
           (_, s) \<leftarrow> allo_free c free_lists (free_lists_count * 8) s;
           (_, s) \<leftarrow> (if own_buffer then allo_free c buf total_size s else Some ((), s));
           Some (Inl (ALLO_ERR_NOMEM, s))
         }
         else do {
           (block_orders, s) \<leftarrow> allo_calloc c block_orders_len 1 s;
           if block_orders = NULL then do {
             (_, s) \<leftarrow> allo_free c bitset bit_bytes s;
             (_, s) \<leftarrow> allo_free c free_lists (free_lists_count * 8) s;
             (_, s) \<leftarrow> (if own_buffer then allo_free c buf total_size s else Some ((), s));
             Some (Inl (ALLO_ERR_NOMEM, s))
           }
           else do {
             let s = list_push free_lists 0 buf s;
             let s = set_bit bitset (node_index 0 0) s;
             let s = ALLOC_POISON buf total_size s;
             let s = ALLOC_UNPOISON buf 16 s;
             Some (Inr (with_child \<lparr>bd_buffer = buf, bd_total_size = total_size,
               bd_min_block_size = 32, bd_max_order = max_order,
               bd_free_lists = free_lists, bd_bitset = bitset,
               bd_block_orders = block_orders, bd_own_buffer = own_buffer,
               bd_child = c\<rparr> s))
           }
         }
       }
     })"

definition make_buddy_allocator ::
  "ptr \<Rightarrow> 'e allo option \<Rightarrow> ptr \<Rightarrow> size_t \<Rightarrow> 'e machine \<Rightarrow>
     ((allo_error_t \<times> 'e machine) + 'e buddy_machine) option" where
  "make_buddy_allocator out child buffer n s =
     (case child of
        None \<Rightarrow> Some (Inl (ALLO_ERR_INVAL, s))
      | Some c \<Rightarrow>
          if out = NULL \<or> n = 0 then Some (Inl (ALLO_ERR_INVAL, s))
          else do {
            total_size \<leftarrow> round_up_loop 1 n;
            let own_buffer = (buffer = NULL);
            (buf, s) \<leftarrow> (if own_buffer then allo_alloc c total_size s else Some (buffer, s));
            if own_buffer \<and> buf = NULL then Some (Inl (ALLO_ERR_NOMEM, s))
            else buddy_metadata c own_buffer buf total_size s
          })"

end
