(* ===== verification/BuddyRep.thy ===== *)
theory BuddyRep
  imports Buddy
begin

text \<open>
  How memory represents the free blocks of a buddy allocator: for every level a list with the
  addresses of its free nodes, and for every node a bit. The list and bit operations of the code
  act on this representation like insertion into and removal from the set of free nodes, and
  write nothing but the list heads, the bit set and the headers of free blocks.
\<close>

section \<open>Nodes in the buffer\<close>

definition node_addr :: "ptr \<Rightarrow> nat \<Rightarrow> node \<Rightarrow> ptr" where
  "node_addr B D x = B + word_of_nat (32 * (snd x * 2 ^ (D - fst x)))"

definition node_mem :: "ptr \<Rightarrow> nat \<Rightarrow> node \<Rightarrow> ptr set" where
  "node_mem B D x = {a. unat B \<le> unat a \<and> (unat a - unat B) div 32 \<in> leaves D x}"

text \<open>Distinct nodes have disjoint leaves: a part of a tiling.\<close>

definition frag :: "nat \<Rightarrow> node set \<Rightarrow> bool" where
  "frag D T \<longleftrightarrow> (\<forall>x\<in>T. node_ok D x) \<and>
     (\<forall>x\<in>T. \<forall>y\<in>T. x \<noteq> y \<longrightarrow> leaves D x \<inter> leaves D y = {})"

lemma frag_mono: "frag D T \<Longrightarrow> S \<subseteq> T \<Longrightarrow> frag D S"
  unfolding frag_def by blast

lemma tiling_frag: "tiling D T \<Longrightarrow> S \<subseteq> T \<Longrightarrow> frag D S"
  by (rule frag_mono [of D T]) (simp_all add: tiling_def frag_def)

lemma frag_node: "frag D T \<Longrightarrow> x \<in> T \<Longrightarrow> node_ok D x"
  by (simp add: frag_def)

lemma frag_disjoint: "frag D T \<Longrightarrow> x \<in> T \<Longrightarrow> y \<in> T \<Longrightarrow> x \<noteq> y \<Longrightarrow> leaves D x \<inter> leaves D y = {}"
  by (simp add: frag_def)

text \<open>The four areas of memory: buffer, list heads, bit set and block orders.\<close>

definition buf_bytes :: "nat \<Rightarrow> size_t" where "buf_bytes D = word_of_nat (2 ^ (D + 5))"
definition fl_bytes :: "nat \<Rightarrow> size_t" where "fl_bytes D = word_of_nat (8 * (D + 2))"
definition bs_bytes :: "nat \<Rightarrow> size_t" where "bs_bytes D = word_of_nat ((2 ^ (D + 1) + 7) div 8)"
definition bo_bytes :: "nat \<Rightarrow> size_t" where "bo_bytes D = word_of_nat (2 ^ D)"

locale buddy_mem =
  fixes B :: ptr and D :: nat and fl bs bo :: ptr
  assumes depth: "D \<le> 57"
    and buffer: "B \<noteq> 0" "8 dvd unat B" "unat B + 2 ^ (D + 5) < 2 ^ 64"
    and lists: "8 dvd unat fl" "unat fl + 8 * (D + 2) < 2 ^ 64"
    and bits: "unat bs + (2 ^ (D + 1) + 7) div 8 < 2 ^ 64"
    and orders: "unat bo + 2 ^ D < 2 ^ 64"
    and buf_fl: "region B (buf_bytes D) \<inter> region fl (fl_bytes D) = {}"
    and buf_bs: "region B (buf_bytes D) \<inter> region bs (bs_bytes D) = {}"
    and buf_bo: "region B (buf_bytes D) \<inter> region bo (bo_bytes D) = {}"
    and fl_bs: "region fl (fl_bytes D) \<inter> region bs (bs_bytes D) = {}"
    and fl_bo: "region fl (fl_bytes D) \<inter> region bo (bo_bytes D) = {}"
    and bs_bo: "region bs (bs_bytes D) \<inter> region bo (bo_bytes D) = {}"
begin

lemma pow_bounds: "(2 :: nat) ^ (D + 5) \<le> 2 ^ 62" "(2 :: nat) ^ (D + 1) \<le> 2 ^ 58" "(2 :: nat) ^ D \<le> 2 ^ 57"
  using depth by (intro power_increasing; simp)+

lemma unat_bytes:
  "unat (buf_bytes D) = 2 ^ (D + 5)" "unat (fl_bytes D) = 8 * (D + 2)"
  "unat (bs_bytes D) = (2 ^ (D + 1) + 7) div 8" "unat (bo_bytes D) = 2 ^ D"
proof -
  show "unat (buf_bytes D) = 2 ^ (D + 5)"
    unfolding buf_bytes_def using pow_bounds(1) by (intro unat_of_nat64) simp
  show "unat (fl_bytes D) = 8 * (D + 2)"
    unfolding fl_bytes_def using depth by (intro unat_of_nat64) simp
  have "(2 ^ (D + 1) + 7) div 8 \<le> (2 ^ 58 + 7) div (8 :: nat)"
    using pow_bounds(2) by (intro div_le_mono) simp
  then show "unat (bs_bytes D) = (2 ^ (D + 1) + 7) div 8"
    unfolding bs_bytes_def by (intro unat_of_nat64) (simp add: le_less_trans)
  show "unat (bo_bytes D) = 2 ^ D"
    unfolding bo_bytes_def using pow_bounds(3) by (intro unat_of_nat64) simp
qed

lemma node_end:
  assumes "node_ok D (l, i)"
  shows "(i + 1) * 2 ^ (D - l) \<le> 2 ^ D" "32 * (i * 2 ^ (D - l)) < 2 ^ (D + 5)"
    "32 * (i * 2 ^ (D - l)) + 32 \<le> 2 ^ (D + 5)"
proof -
  have "(i + 1) * 2 ^ (D - l) \<le> 2 ^ l * 2 ^ (D - l)" using assms by (intro mult_le_mono) (auto simp: node_ok_def)
  also have "\<dots> = 2 ^ D" using assms by (simp add: node_ok_def flip: power_add)
  finally show le: "(i + 1) * 2 ^ (D - l) \<le> 2 ^ D" .
  have "i * 2 ^ (D - l) < (i + 1) * 2 ^ (D - l)" by simp
  with le have "i * 2 ^ (D - l) < 2 ^ D" by (rule less_le_trans [rotated])
  then show "32 * (i * 2 ^ (D - l)) < 2 ^ (D + 5)" "32 * (i * 2 ^ (D - l)) + 32 \<le> 2 ^ (D + 5)"
    by (simp_all add: power_add)
qed

lemma unat_node_addr:
  assumes "node_ok D (l, i)"
  shows "unat (node_addr B D (l, i)) = unat B + 32 * (i * 2 ^ (D - l))"
proof -
  note e = node_end(2) [OF assms]
  have u: "unat (word_of_nat (32 * (i * 2 ^ (D - l))) :: size_t) = 32 * (i * 2 ^ (D - l))"
    by (intro unat_of_nat64 less_le_trans [OF e] order_trans [OF pow_bounds(1)]) simp
  have "unat B + 32 * (i * 2 ^ (D - l)) < 2 ^ 64" using e buffer(3) by linarith
  then show ?thesis unfolding node_addr_def by (subst unat_add64) (simp_all only: u fst_conv snd_conv)
qed

lemma node_region:
  assumes "node_ok D (l, i)" "unat k = 2 ^ (D - l + 5)"
  shows "region (node_addr B D (l, i)) k = node_mem B D (l, i)"
proof -
  have "(a - b) div 32 \<in> leaves D (l, i) \<and> b \<le> a \<longleftrightarrow>
    b + 32 * (i * 2 ^ (D - l)) \<le> a \<and> a < b + 32 * (i * 2 ^ (D - l)) + 2 ^ (D - l + 5)" for a b :: nat
  proof -
    have p: "(2 :: nat) ^ (D - l + 5) = 32 * 2 ^ (D - l)" by (simp add: power_add)
    show ?thesis
      unfolding leaves_bounds p by (auto simp: less_eq_div_iff_mult_less_eq div_less_iff_less_mult algebra_simps)
  qed
  note key = this
  show ?thesis
  proof (rule set_eqI)
    fix a
    show "a \<in> region (node_addr B D (l, i)) k \<longleftrightarrow> a \<in> node_mem B D (l, i)"
      using key [of "unat a" "unat B"]
      by (simp only: mem_region node_mem_def unat_node_addr [OF assms(1)] assms(2) mem_Collect_eq) blast
  qed
qed

lemma node_mem_sub: "node_ok D x \<Longrightarrow> node_mem B D x \<subseteq> region B (buf_bytes D)"
proof
  fix a assume x: "node_ok D x" and "a \<in> node_mem B D x"
  then have a: "unat B \<le> unat a" "(unat a - unat B) div 32 \<in> leaves D (fst x, snd x)"
    by (simp_all add: node_mem_def)
  then have "(unat a - unat B) div 32 < 2 ^ D"
    using node_end(1) [of "fst x" "snd x"] x unfolding leaves_bounds by simp
  then have "unat a - unat B < 2 ^ (D + 5)" by (simp add: div_less_iff_less_mult power_add)
  with a(1) show "a \<in> region B (buf_bytes D)" by (simp add: mem_region unat_bytes)
qed

lemma node_mem_disjoint: "leaves D x \<inter> leaves D y = {} \<Longrightarrow> node_mem B D x \<inter> node_mem B D y = {}"
  by (auto simp: node_mem_def)

lemma node_mem_header: "node_ok D x \<Longrightarrow> region (node_addr B D x) 32 \<subseteq> node_mem B D x"
proof -
  assume x: "node_ok D x"
  obtain l i where li: "x = (l, i)" by (cases x)
  define k :: size_t where "k = word_of_nat (2 ^ (D - l + 5))"
  have "(2 :: nat) ^ (D - l + 5) \<le> 2 ^ 62" using depth by (intro power_increasing) simp_all
  then have k: "unat k = 2 ^ (D - l + 5)" unfolding k_def by (intro unat_of_nat64) simp
  have "(2 :: nat) ^ 5 \<le> 2 ^ (D - l + 5)" by (intro power_increasing) simp_all
  then have "region (node_addr B D x) 32 \<subseteq> region (node_addr B D x) k" using k by (intro region_mono) simp
  with x k show ?thesis by (simp add: li node_region)
qed

text \<open>Addresses of nodes and of their links.\<close>

lemma node_addr_props:
  assumes "node_ok D x"
  shows "node_addr B D x \<noteq> 0" "8 dvd unat (node_addr B D x)" "8 dvd unat (node_addr B D x + 8)"
    "unat (node_addr B D x + 8) = unat (node_addr B D x) + 8"
    "unat (node_addr B D x) + 32 < 2 ^ 64 + 32"
proof -
  obtain l i where li: "x = (l, i)" by (cases x)
  have u: "unat (node_addr B D x) = unat B + 32 * (i * 2 ^ (D - l))"
    using unat_node_addr assms by (simp add: li)
  have "unat B \<noteq> 0" using buffer(1) by (simp add: unat_eq_0)
  then show "node_addr B D x \<noteq> 0" using u by (metis add_is_0 unat_0)
  show d: "8 dvd unat (node_addr B D x)" unfolding u using buffer(2) by simp
  have "unat (node_addr B D x) < 2 ^ 64 - 8"
    using node_end(3) [of l i] assms buffer(3) u by (simp add: li)
  then show u8: "unat (node_addr B D x + 8) = unat (node_addr B D x) + 8" by (subst unat_add64) simp_all
  then show "8 dvd unat (node_addr B D x + 8)" using d by simp
  show "unat (node_addr B D x) + 32 < 2 ^ 64 + 32" by simp
qed

lemma node_addr_eq_iff:
  assumes "frag D T" "x \<in> T" "y \<in> T"
  shows "node_addr B D x = node_addr B D y \<longleftrightarrow> x = y"
proof
  assume eq: "node_addr B D x = node_addr B D y"
  have ok: "node_ok D x" "node_ok D y" using assms frag_node by blast+
  have "snd x * 2 ^ (D - fst x) = snd y * 2 ^ (D - fst y)"
    using unat_node_addr [of "fst x" "snd x"] unat_node_addr [of "fst y" "snd y"] ok eq by simp
  then have "snd x * 2 ^ (D - fst x) \<in> leaves D x \<inter> leaves D y"
    using leaves_first [of "snd x" D "fst x"] leaves_first [of "snd y" D "fst y"] by simp
  with assms show "x = y" by (auto simp: frag_def)
qed simp

lemma node_addr_links:
  assumes "node_ok D x" "node_ok D y"
  shows "node_addr B D x + 8 \<noteq> node_addr B D y"
proof
  assume "node_addr B D x + 8 = node_addr B D y"
  then have "unat (node_addr B D x) + 8 = unat (node_addr B D y)"
    using node_addr_props(4) [OF assms(1)] by simp
  then have "32 * (snd x * 2 ^ (D - fst x)) + 8 = 32 * (snd y * 2 ^ (D - fst y))"
    using unat_node_addr [of "fst x" "snd x"] unat_node_addr [of "fst y" "snd y"] assms by simp
  then show False by presburger
qed

lemma slot_props:
  assumes "l \<le> D"
  shows "unat (free_list fl (int l)) = unat fl + 8 * l" "8 dvd unat (free_list fl (int l))"
    "region (free_list fl (int l)) 8 \<subseteq> region fl (fl_bytes D)"
    "unat (free_list fl (int l)) + 8 \<le> 2 ^ 64"
proof -
  have w: "8 * word_of_int (int l) = (word_of_nat (8 * l) :: size_t)" by simp
  have "unat (word_of_nat (8 * l) :: size_t) = 8 * l" using assms depth by (intro unat_of_nat64) simp
  then show u: "unat (free_list fl (int l)) = unat fl + 8 * l"
    unfolding free_list_def w using lists(2) assms by (subst unat_add64) simp_all
  show "8 dvd unat (free_list fl (int l))" unfolding u using lists(1) by simp
  show "region (free_list fl (int l)) 8 \<subseteq> region fl (fl_bytes D)"
    using assms by (intro region_subset) (simp_all add: u unat_bytes)
  show "unat (free_list fl (int l)) + 8 \<le> 2 ^ 64" using u lists(2) assms by simp
qed

lemma slot_eq_iff: "l \<le> D \<Longrightarrow> l' \<le> D \<Longrightarrow> free_list fl (int l) = free_list fl (int l') \<longleftrightarrow> l = l'"
  using slot_props(1) by (metis add_left_cancel mult_cancel1 zero_neq_numeral)

lemma slot_node:
  assumes "l \<le> D" "node_ok D x"
  shows "free_list fl (int l) \<noteq> node_addr B D x" "free_list fl (int l) \<noteq> node_addr B D x + 8"
proof -
  have "free_list fl (int l) \<in> region fl (fl_bytes D)"
    using slot_props(3) [OF assms(1)] region_self [of 8 "free_list fl (int l)"] by auto
  then have out: "free_list fl (int l) \<notin> region B (buf_bytes D)" using buf_fl by auto
  have "node_addr B D x \<in> region (node_addr B D x) 32" by (rule region_self) simp
  moreover have "node_addr B D x + 8 \<in> region (node_addr B D x) 32"
    using node_addr_props(4) [OF assms(2)] by (simp add: mem_region)
  ultimately show "free_list fl (int l) \<noteq> node_addr B D x" "free_list fl (int l) \<noteq> node_addr B D x + 8"
    using node_mem_header [OF assms(2)] node_mem_sub [OF assms(2)] out by auto
qed

end

section \<open>The lists\<close>

definition lists_rep :: "ptr \<Rightarrow> nat \<Rightarrow> ptr \<Rightarrow> memory \<Rightarrow> node set \<Rightarrow> bool" where
  "lists_rep B D fl m F \<longleftrightarrow> (\<forall>l\<le>D. \<exists>xs.
     dll m 0 (load64 m (free_list fl (int l))) (map (\<lambda>i. node_addr B D (l, i)) xs) \<and>
     distinct xs \<and> set xs = {i. (l, i) \<in> F})"

text \<open>What the list operations write: the list heads and the headers of free nodes.\<close>

definition list_frame :: "ptr \<Rightarrow> nat \<Rightarrow> ptr \<Rightarrow> node set \<Rightarrow> memory \<Rightarrow> memory \<Rightarrow> bool" where
  "list_frame B D fl F m m' \<longleftrightarrow>
     (\<forall>a. a \<notin> region fl (fl_bytes D) \<longrightarrow> (\<forall>x\<in>F. a \<notin> node_mem B D x) \<longrightarrow> m' a = m a)"

lemma list_frame_trans:
  "list_frame B D fl F m m' \<Longrightarrow> list_frame B D fl F m' m'' \<Longrightarrow> list_frame B D fl F m m''"
  unfolding list_frame_def by metis

lemma lists_rep_list:
  assumes "lists_rep B D fl m F" "l \<le> D"
  obtains xs where "dll m 0 (load64 m (free_list fl (int l))) (map (\<lambda>i. node_addr B D (l, i)) xs)"
    "distinct xs" "set xs = {i. (l, i) \<in> F}"
  using assms unfolding lists_rep_def by blast

text \<open>A change of one list, with the others left alone, in memory and in the set of nodes.\<close>

lemma lists_rep_change:
  assumes R: "lists_rep B D fl m F"
    and one: "dll m' 0 (load64 m' (free_list fl (int l))) (map (\<lambda>i. node_addr B D (l, i)) xs)" "distinct xs"
      "set xs = {i. (l, i) \<in> F'}"
    and heads: "\<And>k. k \<le> D \<Longrightarrow> k \<noteq> l \<Longrightarrow> load64 m' (free_list fl (int k)) = load64 m (free_list fl (int k))"
    and links: "\<And>k j. (k, j) \<in> F \<Longrightarrow> k \<noteq> l \<Longrightarrow> load64 m' (node_addr B D (k, j)) = load64 m (node_addr B D (k, j)) \<and>
      load64 m' (node_addr B D (k, j) + 8) = load64 m (node_addr B D (k, j) + 8)"
    and rest: "\<And>k j. k \<noteq> l \<Longrightarrow> (k, j) \<in> F' \<longleftrightarrow> (k, j) \<in> F"
  shows "lists_rep B D fl m' F'"
  unfolding lists_rep_def
proof (intro allI impI)
  fix k assume k: "k \<le> D"
  show "\<exists>xs. dll m' 0 (load64 m' (free_list fl (int k))) (map (\<lambda>i. node_addr B D (k, i)) xs) \<and>
    distinct xs \<and> set xs = {j. (k, j) \<in> F'}"
  proof (cases "k = l")
    case True
    with one show ?thesis by blast
  next
    case False
    obtain ys where ys: "dll m 0 (load64 m (free_list fl (int k))) (map (\<lambda>i. node_addr B D (k, i)) ys)"
      "distinct ys" "set ys = {i. (k, i) \<in> F}" by (rule lists_rep_list [OF R k])
    have "dll m' 0 (load64 m (free_list fl (int k))) (map (\<lambda>i. node_addr B D (k, i)) ys) \<longleftrightarrow>
      dll m 0 (load64 m (free_list fl (int k))) (map (\<lambda>i. node_addr B D (k, i)) ys)"
      using links False ys(3) by (intro dll_cong) auto
    with ys heads [OF k False] rest [OF False] show ?thesis by (intro exI [of _ ys]) auto
  qed
qed

context buddy_mem
begin

lemma distinct_addrs:
  "frag D F \<Longrightarrow> distinct xs \<Longrightarrow> (\<And>i. i \<in> set xs \<Longrightarrow> (l, i) \<in> F) \<Longrightarrow> distinct (map (\<lambda>i. node_addr B D (l, i)) xs)"
  unfolding distinct_map by (auto simp: inj_on_def node_addr_eq_iff)

lemma header_frame:
  assumes "node_ok D x" "a \<notin> node_mem B D x"
  shows "store64 (node_addr B D x) v m a = m a" "store64 (node_addr B D x + 8) v m a = m a"
proof -
  note p = node_addr_props [OF assms(1)]
  have out: "a \<notin> region (node_addr B D x) 32" using node_mem_header [OF assms(1)] assms(2) by auto
  have "32 dvd unat (node_addr B D x) - unat B" and "unat B \<le> unat (node_addr B D x)"
    using unat_node_addr [of "fst x" "snd x"] assms(1) by simp_all
  have nw: "unat (node_addr B D x) + 16 \<le> 2 ^ 64"
    using unat_node_addr [of "fst x" "snd x"] node_end(3) [of "fst x" "snd x"] assms(1) buffer(3) by simp
  show "store64 (node_addr B D x) v m a = m a"
    using out nw by (intro store64_other) (auto simp: mem_region)
  show "store64 (node_addr B D x + 8) v m a = m a"
    using out nw p(4) by (intro store64_other) (auto simp: mem_region)
qed

lemma slot_frame:
  assumes "l \<le> D" "a \<notin> region fl (fl_bytes D)"
  shows "store64 (free_list fl (int l)) v m a = m a"
  using slot_props(3,4) [OF assms(1)] assms(2) by (intro store64_other) auto

text \<open>The memory after a push, word by word.\<close>

lemma list_push_cells:
  assumes l: "l \<le> D" and x: "node_ok D x" and h: "h = 0 \<or> node_ok D y \<and> h = node_addr B D y"
    and hs: "load64 (mem s) (free_list fl (int l)) = h"
  defines "n \<equiv> node_addr B D x" and "m' \<equiv> mem (list_push fl (int l) (node_addr B D x) s)"
  shows "8 dvd unat q \<Longrightarrow> load64 m' q =
      (if q = free_list fl (int l) then n else if h \<noteq> 0 \<and> q = h + 8 then n
       else if q = n + 8 then 0 else if q = n then h else load64 (mem s) q)"
    and "a \<notin> region fl (fl_bytes D) \<Longrightarrow> a \<notin> node_mem B D x \<Longrightarrow>
      (h \<noteq> 0 \<Longrightarrow> a \<notin> node_mem B D y) \<Longrightarrow> m' a = mem s a"
    and "env (list_push fl (int l) (node_addr B D x) s) = env s"
proof -
  let ?sl = "free_list fl (int l)"
  note ns = slot_node [OF l x] and np = node_addr_props [OF x] and sp = slot_props [OF l]
  have m': "m' = store64 ?sl n ((if h \<noteq> 0 then store64 (h + 8) n else id)
      (store64 (n + 8) 0 (store64 n h (mem s))))"
    using ns sp(2) np hs by (simp add: m'_def n_def list_push_def Let_def rd64_def load64_store64)
  have h8: "8 dvd unat (h + 8)" if "h \<noteq> 0" using h that node_addr_props(3) by auto
  show "load64 m' q = (if q = ?sl then n else if h \<noteq> 0 \<and> q = h + 8 then n
       else if q = n + 8 then 0 else if q = n then h else load64 (mem s) q)" if "8 dvd unat q"
    using that sp(2) np(2,3) h8 unfolding m' n_def by (auto simp: load64_store64)
  show "m' a = mem s a" if a: "a \<notin> region fl (fl_bytes D)" "a \<notin> node_mem B D x"
    "h \<noteq> 0 \<Longrightarrow> a \<notin> node_mem B D y"
  proof -
    have "store64 (h + 8) n k a = k a" if "h \<noteq> 0" for k
      using h that a(3) header_frame(2) by metis
    then show ?thesis
      unfolding m' n_def using slot_frame [OF l a(1)] header_frame [OF x a(2)] by (simp add: n_def)
  qed
  show "env (list_push fl (int l) (node_addr B D x) s) = env s"
    by (simp add: list_push_def Let_def)
qed

lemma list_push_loads:
  assumes R: "lists_rep B D fl (mem s) F" and fr: "frag D (insert (l, i) F)" and new: "(l, i) \<notin> F"
  defines "s' \<equiv> list_push fl (int l) (node_addr B D (l, i)) s" and "h \<equiv> load64 (mem s) (free_list fl (int l))"
  shows "y \<in> F \<Longrightarrow> load64 (mem s') (node_addr B D y) = load64 (mem s) (node_addr B D y)"
    "y \<in> F \<Longrightarrow> load64 (mem s') (node_addr B D y + 8) =
      (if node_addr B D y = h then node_addr B D (l, i) else load64 (mem s) (node_addr B D y + 8))"
    "load64 (mem s') (node_addr B D (l, i)) = h" "load64 (mem s') (node_addr B D (l, i) + 8) = 0"
    "load64 (mem s') (free_list fl (int l)) = node_addr B D (l, i)"
    "k \<le> D \<Longrightarrow> k \<noteq> l \<Longrightarrow> load64 (mem s') (free_list fl (int k)) = load64 (mem s) (free_list fl (int k))"
    "list_frame B D fl (insert (l, i) F) (mem s) (mem s')" "env s' = env s"
proof -
  let ?n = "node_addr B D (l, i)" and ?sl = "free_list fl (int l)"
  have ok: "node_ok D y" if "y \<in> insert (l, i) F" for y using frag_node [OF fr that] .
  then have x: "node_ok D (l, i)" by simp
  then have l: "l \<le> D" by (simp add: node_ok_def)
  have hd: "load64 (mem s) ?sl = h" by (simp add: h_def)
  obtain xs where xs: "dll (mem s) 0 (load64 (mem s) ?sl) (map (\<lambda>i. node_addr B D (l, i)) xs)"
    "distinct xs" "set xs = {i. (l, i) \<in> F}" by (rule lists_rep_list [OF R l])
  have hx: "h = 0 \<or> (\<exists>j. (l, j) \<in> F \<and> h = node_addr B D (l, j))"
    using xs(1,3) by (cases xs) (auto simp: h_def)
  then obtain y0 where y0: "h \<noteq> 0 \<Longrightarrow> y0 \<in> F" and hok: "h = 0 \<or> node_ok D y0 \<and> h = node_addr B D y0"
    using ok by (metis insertI2)
  note cells = list_push_cells(1) [OF l x hok hd, folded s'_def]
  note addr = node_addr_eq_iff [OF fr]
  note np = node_addr_props
  have sep: "node_addr B D y + 8 \<noteq> node_addr B D z" "node_addr B D z \<noteq> node_addr B D y + 8"
    if "y \<in> insert (l, i) F" "z \<in> insert (l, i) F" for y z
    using node_addr_links [OF ok [OF that(1)] ok [OF that(2)]] by metis+
  have slots: "?sl \<noteq> node_addr B D y" "?sl \<noteq> node_addr B D y + 8" "node_addr B D y \<noteq> free_list fl (int k)"
    "node_addr B D y + 8 \<noteq> free_list fl (int k)" if "y \<in> insert (l, i) F" "k \<le> D" for y k
    using slot_node [OF l ok [OF that(1)]] slot_node [OF that(2) ok [OF that(1)]] by metis+
  show "load64 (mem s') (node_addr B D y) = load64 (mem s) (node_addr B D y)" if y: "y \<in> F" for y
  proof -
    have "y \<noteq> (l, i)" using y new by auto
    then have ne: "node_addr B D y \<noteq> ?n" using addr [of y "(l, i)"] y by auto
    have h8: "\<not> (h \<noteq> 0 \<and> node_addr B D y = h + 8)" using hx sep(2) [of _ y] y by auto
    show ?thesis
      unfolding cells [OF np(2) [OF ok [of y]], OF insertI2 [OF y]]
      using ne h8 sep(2) [of "(l, i)" y] slots(3) [of y l] l y by auto
  qed
  show "load64 (mem s') (node_addr B D y + 8) =
      (if node_addr B D y = h then ?n else load64 (mem s) (node_addr B D y + 8))" if y: "y \<in> F" for y
  proof -
    have "y \<noteq> (l, i)" using y new by auto
    then have ne: "node_addr B D y \<noteq> ?n" using addr [of y "(l, i)"] y by auto
    have h0: "node_addr B D y = h \<Longrightarrow> h \<noteq> 0" using np(1) [OF ok [of y]] y by auto
    show ?thesis
      unfolding cells [OF np(3) [OF ok [of y]], OF insertI2 [OF y]]
      using ne h0 sep(1) [of y "(l, i)"] slots(4) [of y l] l y by auto
  qed
  show "load64 (mem s') ?n = h" "load64 (mem s') (?n + 8) = 0" "load64 (mem s') ?sl = ?n"
  proof -
    have "\<not> (h \<noteq> 0 \<and> ?n = h + 8)" using hx sep(2) [of _ "(l, i)"] by auto
    then show "load64 (mem s') ?n = h"
      unfolding cells [OF np(2) [OF x]] using slots(3) [of "(l, i)" l] sep(2) [of "(l, i)" "(l, i)"] l by auto
    have "\<not> (h \<noteq> 0 \<and> ?n = h)" using hx addr new by auto
    then show "load64 (mem s') (?n + 8) = 0"
      unfolding cells [OF np(3) [OF x]] using slots(4) [of "(l, i)" l] l by auto
    show "load64 (mem s') ?sl = ?n" using cells [OF slot_props(2) [OF l]] by simp
  qed
  show "load64 (mem s') (free_list fl (int k)) = load64 (mem s) (free_list fl (int k))"
    if "k \<le> D" "k \<noteq> l" for k
  proof -
    have "\<not> (h \<noteq> 0 \<and> free_list fl (int k) = h + 8)" using y0 hok slots(4) [of y0 k] that(1) by auto
    then show ?thesis
      unfolding cells [OF slot_props(2) [OF that(1)]]
      using slots(3,4) [of "(l, i)" k] slot_eq_iff [OF that(1) l] that by auto
  qed
  show "list_frame B D fl (insert (l, i) F) (mem s) (mem s')"
    unfolding list_frame_def
  proof (intro allI impI)
    fix a assume a: "a \<notin> region fl (fl_bytes D)" "\<forall>x\<in>insert (l, i) F. a \<notin> node_mem B D x"
    show "mem s' a = mem s a"
      unfolding s'_def
    proof (rule list_push_cells(2) [OF l x hok hd a(1)])
      show "a \<notin> node_mem B D (l, i)" using a(2) by simp
      show "a \<notin> node_mem B D y0" if "h \<noteq> 0" using a(2) y0 [OF that] by simp
    qed
  qed
  show "env s' = env s" unfolding s'_def by (rule list_push_cells(3) [OF l x hok hd])
qed

lemma lists_rep_push:
  assumes R: "lists_rep B D fl (mem s) F" and fr: "frag D (insert (l, i) F)" and new: "(l, i) \<notin> F"
  defines "s' \<equiv> list_push fl (int l) (node_addr B D (l, i)) s"
  shows "lists_rep B D fl (mem s') (insert (l, i) F)"
    "list_frame B D fl (insert (l, i) F) (mem s) (mem s')" "env s' = env s"
proof -
  let ?n = "node_addr B D (l, i)" and ?h = "load64 (mem s) (free_list fl (int l))"
  note loads = list_push_loads [OF R fr new, folded s'_def]
  have x: "node_ok D (l, i)" using frag_node [OF fr] by simp
  then have l: "l \<le> D" by (simp add: node_ok_def)
  obtain xs where xs: "dll (mem s) 0 ?h (map (\<lambda>i. node_addr B D (l, i)) xs)"
    "distinct xs" "set xs = {i. (l, i) \<in> F}" by (rule lists_rep_list [OF R l])
  have hx: "?h = 0 \<or> (\<exists>j. (l, j) \<in> F \<and> ?h = node_addr B D (l, j))"
    using xs(1,3) by (cases xs) auto
  have nh: "node_addr B D (k, j) \<noteq> ?h" if "(k, j) \<in> F" "k \<noteq> l" for k j
    using hx that node_addr_eq_iff [OF fr, of "(k, j)"] node_addr_props(1) [OF frag_node [OF fr]] by fastforce
  have d: "distinct (map (\<lambda>i. node_addr B D (l, i)) xs)"
    using frag_mono [OF fr, of F] xs(2,3) by (intro distinct_addrs) auto
  have "dll (mem s') 0 ?n (?n # map (\<lambda>i. node_addr B D (l, i)) xs)"
  proof (rule dll_push [OF xs(1)])
    fix z assume "z \<in> set (map (\<lambda>i. node_addr B D (l, i)) xs)"
    then obtain j where j: "z = node_addr B D (l, j)" "(l, j) \<in> F" using xs(3) by auto
    show "load64 (mem s') z = load64 (mem s) z" unfolding j(1) by (rule loads(1) [OF j(2)])
    show "load64 (mem s') (z + 8) = (if z = ?h then ?n else load64 (mem s) (z + 8))"
      unfolding j(1) by (rule loads(2) [OF j(2)])
  qed (use d node_addr_props(1) [OF x] loads(3,4) in simp_all)
  then show "lists_rep B D fl (mem s') (insert (l, i) F)"
    using loads(5) xs(2,3) new loads(6) loads(1,2) nh by (intro lists_rep_change [OF R, of _ l "i # xs"]) auto
  show "list_frame B D fl (insert (l, i) F) (mem s) (mem s')" "env s' = env s" by (rule loads(7), rule loads(8))
qed

text \<open>The memory after taking a node out: its neighbours, or the list head, are linked.\<close>

lemma list_remove_mem:
  assumes l: "l \<le> D" and x: "node_ok D x"
    and p: "load64 (mem s) (node_addr B D x + 8) = p" "p = 0 \<or> node_ok D y \<and> p = node_addr B D y"
    and q: "load64 (mem s) (node_addr B D x) = q" "q = 0 \<or> node_ok D z \<and> q = node_addr B D z"
    and ne: "p \<noteq> node_addr B D x"
  defines "w \<equiv> if p \<noteq> 0 then p else free_list fl (int l)"
  shows "mem (list_remove fl (int l) (node_addr B D x) s) =
    (if q \<noteq> 0 then store64 (q + 8) p else id) (store64 w q (mem s))"
    and "env (list_remove fl (int l) (node_addr B D x) s) = env s"
proof -
  let ?n = "node_addr B D x" and ?sl = "free_list fl (int l)"
  note np = node_addr_props [OF x] and sp = slot_props [OF l] and ns = slot_node [OF l x]
  have w: "8 dvd unat w" "w \<noteq> ?n" "w \<noteq> ?n + 8"
    using p(2) sp(2) ns ne node_addr_props(2) [of y] node_addr_links [OF x, of y] by (auto simp: w_def)
  have rd: "load64 (store64 w q (mem s)) ?n = q" "load64 (store64 w q (mem s)) (?n + 8) = p"
    using w np(2,3) p(1) q(1) by (simp_all add: load64_store64)
  have s1: "mem (if rd64 s (?n + 8) \<noteq> NULL then wr64 (rd64 s (?n + 8)) (rd64 s ?n) s
      else wr64 ?sl (rd64 s ?n) s) = store64 w q (mem s)"
    using p(1) q(1) by (simp add: rd64_def w_def)
  show "mem (list_remove fl (int l) ?n s) = (if q \<noteq> 0 then store64 (q + 8) p else id) (store64 w q (mem s))"
    using p(1) q(1) rd s1 by (simp add: list_remove_def Let_def rd64_def)
  show "env (list_remove fl (int l) ?n s) = env s"
    by (simp add: list_remove_def Let_def)
qed

text \<open>The neighbours of a node in its list, and what the links are when it is gone.\<close>

lemma list_remove_loads:
  assumes fr: "frag D F" and x: "(l, i) \<in> F" and zs: "dll (mem s) 0 (load64 (mem s) (free_list fl (int l)))
      (map (\<lambda>i. node_addr B D (l, i)) (xs @ i # ys))"
    and set: "distinct (xs @ i # ys)" "set (xs @ i # ys) = {i. (l, i) \<in> F}"
  defines "s' \<equiv> list_remove fl (int l) (node_addr B D (l, i)) s"
    and "p \<equiv> load64 (mem s) (node_addr B D (l, i) + 8)" and "q \<equiv> load64 (mem s) (node_addr B D (l, i))"
  shows "p = (if xs = [] then 0 else node_addr B D (l, last xs))" "q = (if ys = [] then 0 else node_addr B D (l, hd ys))"
    "u \<in> F \<Longrightarrow> load64 (mem s') (node_addr B D u) = (if node_addr B D u = p then q else load64 (mem s) (node_addr B D u))"
    "u \<in> F \<Longrightarrow> load64 (mem s') (node_addr B D u + 8) =
      (if node_addr B D u = q then p else load64 (mem s) (node_addr B D u + 8))"
    "k \<le> D \<Longrightarrow> load64 (mem s') (free_list fl (int k)) =
      (if k = l \<and> xs = [] then q else load64 (mem s) (free_list fl (int k)))"
    "list_frame B D fl F (mem s) (mem s')" "env s' = env s"
proof -
  let ?n = "node_addr B D (l, i)" and ?sl = "free_list fl (int l)" and ?m = "mem s"
  let ?ad = "\<lambda>i. node_addr B D (l, i)"
  note addr = node_addr_eq_iff [OF fr]
  note np = node_addr_props
  have ok: "node_ok D y" if "y \<in> F" for y using frag_node [OF fr that] .
  have l: "l \<le> D" using ok [OF x] by (simp add: node_ok_def)
  have d: "distinct (map ?ad (xs @ i # ys))" using fr set by (intro distinct_addrs) auto
  have dl: "dll ?m 0 (load64 ?m ?sl) (map ?ad xs @ ?n # map ?ad ys)" using zs by simp
  have pd: "load64 ?m (?n + 8) = p" and qd: "load64 ?m ?n = q" by (simp_all add: p_def q_def)
  have pq: "p = (if xs = [] then 0 else ?ad (last xs))" "q = (if ys = [] then 0 else ?ad (hd ys))"
    using dll_links [OF dl] by (simp_all add: p_def q_def last_map hd_map)
  define y where "y = (l, if xs = [] then i else last xs)"
  define z where "z = (l, if ys = [] then i else hd ys)"
  show "p = (if xs = [] then 0 else ?ad (last xs))" "q = (if ys = [] then 0 else ?ad (hd ys))" by (rule pq(1), rule pq(2))
  have yF: "y \<in> F" "z \<in> F"
  proof -
    have F: "(l, j) \<in> F" if "j \<in> set (xs @ i # ys)" for j
      using set(2) that by blast
    have "(if xs = [] then i else last xs) \<in> set (xs @ i # ys)"
      "(if ys = [] then i else hd ys) \<in> set (xs @ i # ys)" by simp_all
    then show "y \<in> F" "z \<in> F" unfolding y_def z_def by (simp_all only: F)
  qed
  have pz: "p = 0 \<longleftrightarrow> xs = []" "q = 0 \<longleftrightarrow> ys = []" "p \<noteq> 0 \<Longrightarrow> p = node_addr B D y"
    "q \<noteq> 0 \<Longrightarrow> q = node_addr B D z"
  proof -
    have a: "node_addr B D y \<noteq> 0" "node_addr B D z \<noteq> 0"
      using np(1) [OF ok [OF yF(1)]] np(1) [OF ok [OF yF(2)]] .
    have "xs \<noteq> [] \<Longrightarrow> p = node_addr B D y" "ys \<noteq> [] \<Longrightarrow> q = node_addr B D z"
      using pq by (simp_all add: y_def z_def)
    with a pq show "p = 0 \<longleftrightarrow> xs = []" "q = 0 \<longleftrightarrow> ys = []" "p \<noteq> 0 \<Longrightarrow> p = node_addr B D y"
      "q \<noteq> 0 \<Longrightarrow> q = node_addr B D z"
      by (cases "xs = []"; cases "ys = []"; simp)+
  qed
  have ne: "p \<noteq> ?n"
  proof
    assume eq: "p = ?n"
    then have "xs \<noteq> []" using pz(1) np(1) [OF ok [OF x]] by auto
    then have "?ad (last xs) = ?n" "last xs \<in> set xs" using eq pq(1) by simp_all
    with d show False by (auto simp: image_iff)
  qed
  have pq': "p = 0 \<or> node_ok D y \<and> p = node_addr B D y" "q = 0 \<or> node_ok D z \<and> q = node_addr B D z"
    using pz ok yF by auto
  define w where "w = (if p \<noteq> 0 then p else ?sl)"
  note rm = list_remove_mem [OF l ok [OF x] pd pq'(1) qd pq'(2) ne, folded s'_def w_def]
  have wa: "8 dvd unat w" "q \<noteq> 0 \<Longrightarrow> 8 dvd unat (q + 8)"
    using pz(3,4) np(2) [OF ok [OF yF(1)]] np(3) [OF ok [OF yF(2)]] slot_props(2) [OF l] by (auto simp: w_def)
  have cells: "load64 (mem s') a = (if q \<noteq> 0 \<and> a = q + 8 then p else if a = w then q else load64 ?m a)"
    if "8 dvd unat a" for a
    unfolding rm(1) using that wa by (auto simp: load64_store64)
  have sep: "node_addr B D u + 8 \<noteq> node_addr B D v" if "u \<in> F" "v \<in> F" for u v
    using node_addr_links ok that by blast
  have slots: "free_list fl (int k) \<noteq> node_addr B D u" "free_list fl (int k) \<noteq> node_addr B D u + 8"
    if "u \<in> F" "k \<le> D" for u k
    using slot_node [OF that(2) ok [OF that(1)]] .
  show "load64 (mem s') (node_addr B D u) = (if node_addr B D u = p then q else load64 ?m (node_addr B D u))"
    if u: "u \<in> F" for u
  proof -
    have "\<not> (q \<noteq> 0 \<and> node_addr B D u = q + 8)" using pz(4) sep [OF yF(2) u] by metis
    moreover have "node_addr B D u = w \<longleftrightarrow> node_addr B D u = p"
      unfolding w_def using slots(1) [OF u l, THEN not_sym] np(1) [OF ok [OF u]] by (cases "p = 0") simp_all
    ultimately show ?thesis unfolding cells [OF np(2) [OF ok [OF u]]] by argo
  qed
  show "load64 (mem s') (node_addr B D u + 8) =
      (if node_addr B D u = q then p else load64 ?m (node_addr B D u + 8))" if u: "u \<in> F" for u
  proof -
    have "w \<noteq> node_addr B D u + 8"
      unfolding w_def using pz(3) sep [OF u yF(1), THEN not_sym] slots(2) [OF u l] by (cases "p = 0") simp_all
    moreover have "(q \<noteq> 0 \<and> node_addr B D u + 8 = q + 8) \<longleftrightarrow> node_addr B D u = q"
      using np(1) [OF ok [OF u]] by (cases "node_addr B D u = q") simp_all
    ultimately show ?thesis unfolding cells [OF np(3) [OF ok [OF u]]] by argo
  qed
  show "load64 (mem s') (free_list fl (int k)) =
      (if k = l \<and> xs = [] then q else load64 ?m (free_list fl (int k)))" if k: "k \<le> D" for k
  proof -
    have "\<not> (q \<noteq> 0 \<and> free_list fl (int k) = q + 8)" using pz(4) slots(2) [OF yF(2) k] by metis
    moreover have "free_list fl (int k) = w \<longleftrightarrow> k = l \<and> xs = []"
      unfolding w_def using pz(1,3) slots(1) [OF yF(1) k] slot_eq_iff [OF k l] by (cases "p = 0") simp_all
    ultimately show ?thesis unfolding cells [OF slot_props(2) [OF k]] by argo
  qed
  show "list_frame B D fl F ?m (mem s')"
    unfolding list_frame_def
  proof (intro allI impI)
    fix a assume a: "a \<notin> region fl (fl_bytes D)" "\<forall>x\<in>F. a \<notin> node_mem B D x"
    have "store64 w v k a = k a" for v k
      using pz(3) header_frame(1) [OF ok [OF yF(1)]] a yF(1) slot_frame [OF l a(1)] by (auto simp: w_def)
    moreover have "q \<noteq> 0 \<Longrightarrow> store64 (q + 8) v k a = k a" for v k
      using pz(4) header_frame(2) [OF ok [OF yF(2)]] a(2) yF(2) by auto
    ultimately show "mem s' a = ?m a" unfolding rm(1) by simp
  qed
  show "env s' = env s" by (rule rm(2))
qed

lemma lists_rep_remove:
  assumes R: "lists_rep B D fl (mem s) F" and fr: "frag D F" and x: "(l, i) \<in> F"
  defines "s' \<equiv> list_remove fl (int l) (node_addr B D (l, i)) s"
  shows "lists_rep B D fl (mem s') (F - {(l, i)})"
    "list_frame B D fl F (mem s) (mem s')" "env s' = env s"
proof -
  let ?n = "node_addr B D (l, i)" and ?sl = "free_list fl (int l)" and ?m = "mem s"
  let ?ad = "\<lambda>i. node_addr B D (l, i)"
  have np: "node_addr B D y \<noteq> 0" if "y \<in> F" for y using node_addr_props(1) [OF frag_node [OF fr that]] .
  have l: "l \<le> D" using frag_node [OF fr x] by (simp add: node_ok_def)
  obtain zs where zs: "dll ?m 0 (load64 ?m ?sl) (map ?ad zs)" "distinct zs" "set zs = {i. (l, i) \<in> F}"
    by (rule lists_rep_list [OF R l])
  obtain xs ys where split: "zs = xs @ i # ys" using x zs(3) by (metis mem_Collect_eq split_list)
  have dz: "distinct (map ?ad zs)" using fr zs(2,3) by (intro distinct_addrs) auto
  note loads = list_remove_loads [OF fr x zs [unfolded split], folded s'_def]
  define p where "p = load64 ?m (?n + 8)"
  define q where "q = load64 ?m ?n"
  note pq = loads(1,2) [folded p_def q_def] and nxt = loads(3) [folded p_def q_def]
    and prv = loads(4) [folded p_def q_def] and heads = loads(5) [folded q_def]
  have away: "node_addr B D (k, j) \<noteq> p" "node_addr B D (k, j) \<noteq> q" if "(k, j) \<in> F" "k \<noteq> l" for k j
  proof -
    have "(l, last xs) \<in> F" if "xs \<noteq> []" using zs(3) last_in_set [OF that] unfolding split by auto
    moreover have "(l, hd ys) \<in> F" if "ys \<noteq> []" using zs(3) hd_in_set [OF that] unfolding split by auto
    ultimately show "node_addr B D (k, j) \<noteq> p" "node_addr B D (k, j) \<noteq> q"
      using that np [OF that(1)] node_addr_eq_iff [OF fr that(1)] unfolding pq by auto
  qed
  have "dll (mem s') 0 (if map ?ad xs = [] then load64 ?m ?n else load64 ?m ?sl) (map ?ad xs @ map ?ad ys)"
  proof (rule dll_remove [OF zs(1) [unfolded split map_append list.map]])
    show "distinct (map ?ad xs @ ?n # map ?ad ys)" using dz by (simp add: split)
    fix v assume "v \<in> set (map ?ad xs) \<union> set (map ?ad ys)"
    then obtain j where j: "v = ?ad j" "j \<in> set xs \<union> set ys" by auto
    then have jF: "(l, j) \<in> F" using zs(3) split by auto
    have "v = p \<longleftrightarrow> map ?ad xs \<noteq> [] \<and> v = last (map ?ad xs)"
      using pq(1) np [OF jF] j(1) by (auto simp: last_map)
    then show "load64 (mem s') v = (if map ?ad xs \<noteq> [] \<and> v = last (map ?ad xs) then load64 ?m ?n else load64 ?m v)"
      using nxt [OF jF] j(1) by (simp add: q_def)
    have "v = q \<longleftrightarrow> map ?ad ys \<noteq> [] \<and> v = hd (map ?ad ys)"
      using pq(2) np [OF jF] j(1) by (auto simp: hd_map)
    then show "load64 (mem s') (v + 8) =
        (if map ?ad ys \<noteq> [] \<and> v = hd (map ?ad ys) then load64 ?m (?n + 8) else load64 ?m (v + 8))"
      using prv [OF jF] j(1) by (simp add: p_def)
  qed
  moreover have "load64 (mem s') ?sl = (if map ?ad xs = [] then load64 ?m ?n else load64 ?m ?sl)"
    using heads [OF l] by (simp add: q_def)
  moreover have "set (xs @ ys) = {j. (l, j) \<in> F - {(l, i)}}" using zs(2,3) split by auto
  ultimately show "lists_rep B D fl (mem s') (F - {(l, i)})"
    using zs(2) split heads nxt prv away by (intro lists_rep_change [OF R, of _ l "xs @ ys"]) auto
  show "list_frame B D fl F ?m (mem s')" "env s' = env s" by (rule loads(6), rule loads(7))
qed

text \<open>Writes elsewhere keep the lists.\<close>

lemma lists_rep_cong:
  assumes R: "lists_rep B D fl m F" and fr: "frag D F"
    and eq: "\<And>a. a \<in> region fl (fl_bytes D) \<Longrightarrow> m' a = m a"
      "\<And>a x. x \<in> F \<Longrightarrow> a \<in> node_mem B D x \<Longrightarrow> m' a = m a"
  shows "lists_rep B D fl m' F"
  unfolding lists_rep_def
proof (intro allI impI)
  fix k assume k: "k \<le> D"
  obtain xs where xs: "dll m 0 (load64 m (free_list fl (int k))) (map (\<lambda>i. node_addr B D (k, i)) xs)"
    "distinct xs" "set xs = {i. (k, i) \<in> F}" by (rule lists_rep_list [OF R k])
  have h: "load64 m' (free_list fl (int k)) = load64 m (free_list fl (int k))"
    using slot_props(3,4) [OF k] eq(1) by (intro load64_cong) auto
  have "dll m' 0 (load64 m (free_list fl (int k))) (map (\<lambda>i. node_addr B D (k, i)) xs) \<longleftrightarrow>
    dll m 0 (load64 m (free_list fl (int k))) (map (\<lambda>i. node_addr B D (k, i)) xs)"
  proof (rule dll_cong)
    fix v assume "v \<in> set (map (\<lambda>i. node_addr B D (k, i)) xs)"
    then obtain j where j: "v = node_addr B D (k, j)" "(k, j) \<in> F" using xs(3) by auto
    have ok: "node_ok D (k, j)" by (rule frag_node [OF fr j(2)])
    have u: "unat v + 32 \<le> 2 ^ 64"
      using unat_node_addr [OF ok] node_end(3) [OF ok] buffer(3) by (simp add: j(1))
    have "region v 8 \<subseteq> region v 32" "region (v + 8) 8 \<subseteq> region v 32"
      using node_addr_props(4) [OF ok] by (auto simp: region_def j(1))
    then have "\<forall>a \<in> region v 8 \<union> region (v + 8) 8. m' a = m a"
      using node_mem_header [OF ok] eq(2) [OF j(2)] by (auto simp: j(1))
    then show "load64 m' v = load64 m v \<and> load64 m' (v + 8) = load64 m (v + 8)"
      using u node_addr_props(4) [OF ok] by (intro conjI load64_cong) (auto simp: j(1))
  qed
  with xs h show "\<exists>xs. dll m' 0 (load64 m' (free_list fl (int k))) (map (\<lambda>i. node_addr B D (k, i)) xs) \<and>
      distinct xs \<and> set xs = {i. (k, i) \<in> F}" by auto
qed

end

section \<open>The bit set\<close>

definition bits_rep :: "nat \<Rightarrow> ptr \<Rightarrow> memory \<Rightarrow> node set \<Rightarrow> bool" where
  "bits_rep D bs m F \<longleftrightarrow> (\<forall>l i. node_ok D (l, i) \<longrightarrow>
     (get_bit bs (node_index (int l) (word_of_nat i)) m \<noteq> 0 \<longleftrightarrow> (l, i) \<in> F))"

lemma and_1_neq_0: "(w :: 8 word) AND 1 \<noteq> 0 \<longleftrightarrow> bit w 0"
proof
  assume "bit w 0"
  then have "bit (w AND 1) 0" by (simp add: bit_simps)
  then show "w AND 1 \<noteq> 0" by auto
next
  assume "w AND 1 \<noteq> 0"
  then obtain n where "bit (w AND 1) n" by (metis bit_eqI bit_0_eq bot_apply bot_bool_def)
  then show "bit w 0" by (auto simp: bit_simps bit_1_iff)
qed

lemma get_bit_iff: "get_bit bs b m \<noteq> 0 \<longleftrightarrow> bit (m (bs + b div 8)) (unat (b mod 8))"
  unfolding get_bit_def and_1_neq_0 by (simp add: bit_simps)

lemma bit_pos_eq: "b div 8 = c div 8 \<Longrightarrow> unat (b mod 8) = unat (c mod 8) \<Longrightarrow> b = (c :: size_t)"
  by (metis word_eq_iff_unat div_mult_mod_eq)

lemma bit_pos_less: "unat (b mod 8 :: size_t) < 8"
proof -
  have "unat (b mod 8) = unat b mod 8" by (simp add: unat_mod)
  then show ?thesis by simp
qed

lemma get_bit_set:
  "get_bit bs c (mem (set_bit bs b s)) \<noteq> 0 \<longleftrightarrow> c = b \<or> get_bit bs c (mem s) \<noteq> 0"
proof (cases "c div 8 = b div 8")
  case True
  have "unat (c mod 8) = unat (b mod 8) \<longleftrightarrow> c = b" using bit_pos_eq [OF True] by auto
  then show ?thesis
    using True bit_pos_less [of b] bit_pos_less [of c]
    by (auto simp: get_bit_iff set_bit_def bit_simps)
qed (auto simp: get_bit_iff set_bit_def)

lemma get_bit_clear:
  "get_bit bs c (mem (clear_bit bs b s)) \<noteq> 0 \<longleftrightarrow> c \<noteq> b \<and> get_bit bs c (mem s) \<noteq> 0"
proof (cases "c div 8 = b div 8")
  case True
  have "unat (c mod 8) = unat (b mod 8) \<longleftrightarrow> c = b" using bit_pos_eq [OF True] by auto
  then show ?thesis
    using True bit_pos_less [of b] bit_pos_less [of c]
    by (auto simp: get_bit_iff clear_bit_def bit_simps)
qed (auto simp: get_bit_iff clear_bit_def)

lemma bit_env [simp]: "env (set_bit bs b s) = env s" "env (clear_bit bs b s) = env s"
  by (simp_all add: set_bit_def clear_bit_def)

lemma level_index_eq:
  assumes "(2 :: nat) ^ l + i = 2 ^ l' + i'" "i < 2 ^ l" "i' < 2 ^ l'"
  shows "l = l' \<and> i = i'"
proof -
  have "l = l'"
  proof (rule ccontr)
    assume "l \<noteq> l'"
    then consider "Suc l \<le> l'" | "Suc l' \<le> l" by linarith
    then show False
    proof cases
      case 1
      then have "(2 :: nat) ^ Suc l \<le> 2 ^ l'" by (intro power_increasing) simp_all
      with assms show False by simp
    next
      case 2
      then have "(2 :: nat) ^ Suc l' \<le> 2 ^ l" by (intro power_increasing) simp_all
      with assms show False by simp
    qed
  qed
  with assms show ?thesis by simp
qed

context buddy_mem
begin

lemma unat_node_index:
  assumes "node_ok D (l, i)"
  shows "unat (node_index (int l) (word_of_nat i)) = 2 ^ l + i - 1"
    "unat (node_index (int l) (word_of_nat i)) < 2 ^ (D + 1)"
proof -
  have l: "l \<le> D" "i < 2 ^ l" using assms by (simp_all add: node_ok_def)
  have p: "(2 :: nat) ^ l \<le> 2 ^ D" using l(1) by (intro power_increasing) simp_all
  have "(2 :: nat) ^ (D + 1) = 2 ^ D + 2 ^ D" by simp
  then have big: "2 ^ l + i < 2 ^ (D + 1)" using l(2) p by linarith
  have "i < 2 ^ 57" using l(2) p pow_bounds(3) by linarith
  then have "i < 2 ^ 64" by simp
  then have ui: "unat (word_of_nat i :: size_t) = i" by (rule unat_of_nat64)
  have "unat (push_bit l 1 :: size_t) = 2 ^ l" using l(1) depth by (simp add: push_bit_eq_mult unat_pow64)
  then have "unat (push_bit l 1 + word_of_nat i :: size_t) = 2 ^ l + i"
    using less_le_trans [OF big pow_bounds(2)] ui by (subst unat_add64) simp_all
  moreover from this have "push_bit l 1 + word_of_nat i \<noteq> (0 :: size_t)" by (metis unat_0 add_is_0 power_not_zero zero_neq_numeral)
  ultimately show u: "unat (node_index (int l) (word_of_nat i)) = 2 ^ l + i - 1"
    by (simp add: node_index_def unat_pred64)
  with big show "unat (node_index (int l) (word_of_nat i)) < 2 ^ (D + 1)" by simp
qed

lemma node_index_eq:
  assumes "node_ok D (l, i)" "node_ok D (l', i')"
  shows "node_index (int l) (word_of_nat i) = node_index (int l') (word_of_nat i') \<longleftrightarrow> (l, i) = (l', i')"
proof
  assume "node_index (int l) (word_of_nat i) = node_index (int l') (word_of_nat i')"
  then have "2 ^ l + i - 1 = 2 ^ l' + i' - 1"
    using unat_node_index(1) [OF assms(1)] unat_node_index(1) [OF assms(2)] by simp
  moreover have "(1 :: nat) \<le> 2 ^ l" "(1 :: nat) \<le> 2 ^ l'" by simp_all
  ultimately have "2 ^ l + i = 2 ^ l' + i'" by linarith
  from level_index_eq [OF this] show "(l, i) = (l', i')" using assms by (simp add: node_ok_def)
qed simp

lemma bits_rep_set:
  assumes "bits_rep D bs (mem s) F" "node_ok D (l, i)"
  shows "bits_rep D bs (mem (set_bit bs (node_index (int l) (word_of_nat i)) s)) (insert (l, i) F)"
  using assms node_index_eq unfolding bits_rep_def get_bit_set by auto

lemma bits_rep_clear:
  assumes "bits_rep D bs (mem s) F" "node_ok D (l, i)"
  shows "bits_rep D bs (mem (clear_bit bs (node_index (int l) (word_of_nat i)) s)) (F - {(l, i)})"
  using assms node_index_eq unfolding bits_rep_def get_bit_clear by auto

lemma bit_byte:
  assumes "node_ok D (l, i)"
  shows "bs + node_index (int l) (word_of_nat i) div 8 \<in> region bs (bs_bytes D)"
proof (rule region_offset)
  have "unat (node_index (int l) (word_of_nat i) div 8) = (2 ^ l + i - 1) div 8"
    using unat_node_index(1) [OF assms] by (simp add: unat_div)
  moreover have "(2 ^ l + i - 1) div 8 < (2 ^ (D + 1) + 7) div 8"
  proof -
    have "2 ^ l + i - 1 + 8 \<le> 2 ^ (D + 1) + 7"
      using unat_node_index [OF assms] by simp
    then have "(2 ^ l + i - 1 + 8) div 8 \<le> (2 ^ (D + 1) + 7) div 8" by (rule div_le_mono)
    then show ?thesis by simp
  qed
  ultimately show "node_index (int l) (word_of_nat i) div 8 < bs_bytes D"
    by (simp add: word_less_nat_alt unat_bytes)
  show "unat bs + unat (bs_bytes D) \<le> 2 ^ 64" using bits by (simp add: unat_bytes)
qed

lemma bit_frame:
  assumes "node_ok D (l, i)" "a \<notin> region bs (bs_bytes D)"
  shows "mem (set_bit bs (node_index (int l) (word_of_nat i)) s) a = mem s a"
    "mem (clear_bit bs (node_index (int l) (word_of_nat i)) s) a = mem s a"
  using bit_byte [OF assms(1)] assms(2) by (auto simp: set_bit_def clear_bit_def)

lemma bits_rep_cong:
  assumes "bits_rep D bs m F" "\<And>a. a \<in> region bs (bs_bytes D) \<Longrightarrow> m' a = m a"
  shows "bits_rep D bs m' F"
  using assms bit_byte unfolding bits_rep_def get_bit_iff by auto

end

end
