(* ===== verification/BuddyProof.thy ===== *)
theory BuddyProof
  imports BuddyRep
begin

text \<open>
  The operations of the buddy allocator on the represented set of free nodes: the split loop, the
  merge loop, allocation and release; then the contract.
\<close>

section \<open>Address and index arithmetic\<close>

definition buddy_ctx_ok :: "ptr \<Rightarrow> nat \<Rightarrow> ptr \<Rightarrow> ptr \<Rightarrow> ptr \<Rightarrow> 'c buddy_context_t \<Rightarrow> bool" where
  "buddy_ctx_ok B D fl bs bo ctx \<longleftrightarrow> bd_buffer ctx = B \<and> bd_total_size ctx = buf_bytes D \<and>
     bd_min_block_size ctx = 32 \<and> bd_max_order ctx = int (D + 5) \<and> bd_free_lists ctx = fl \<and>
     bd_bitset ctx = bs \<and> bd_block_orders ctx = bo"

definition buddy_heap :: "ptr \<Rightarrow> nat \<Rightarrow> ptr \<Rightarrow> ptr \<Rightarrow> ptr \<Rightarrow> ptr set" where
  "buddy_heap B D fl bs bo = region B (buf_bytes D) \<union> region fl (fl_bytes D) \<union>
     region bs (bs_bytes D) \<union> region bo (bo_bytes D)"

text \<open>Memory outside the four areas and in the nodes \<open>U\<close> does not change.\<close>

definition node_frame :: "ptr \<Rightarrow> nat \<Rightarrow> ptr \<Rightarrow> ptr \<Rightarrow> ptr \<Rightarrow> node set \<Rightarrow> memory \<Rightarrow> memory \<Rightarrow> bool" where
  "node_frame B D fl bs bo U m m' \<longleftrightarrow>
     (\<forall>a. a \<notin> buddy_heap B D fl bs bo \<or> (\<exists>x\<in>U. a \<in> node_mem B D x) \<longrightarrow> m' a = m a)"

lemma node_frame_refl [simp]: "node_frame B D fl bs bo U m m"
  by (simp add: node_frame_def)

lemma node_frame_trans:
  "node_frame B D fl bs bo U m m' \<Longrightarrow> node_frame B D fl bs bo U m' m'' \<Longrightarrow> node_frame B D fl bs bo U m m''"
  by (simp add: node_frame_def)

definition buddy_rep :: "ptr \<Rightarrow> nat \<Rightarrow> ptr \<Rightarrow> ptr \<Rightarrow> memory \<Rightarrow> node set \<Rightarrow> bool" where
  "buddy_rep B D fl bs m F \<longleftrightarrow> lists_rep B D fl m F \<and> bits_rep D bs m F"

lemma word_XOR_1: "(word_of_nat i :: size_t) XOR 1 = word_of_nat (flip1 i)"
proof -
  have "flip1 i = i XOR 1" using xor_one_eq [of i] by (auto simp: flip1_def)
  then show ?thesis by (simp add: of_nat_xor_eq)
qed

context buddy_mem
begin

lemma unat_node_bytes: "l \<le> D \<Longrightarrow> unat (drop_bit l (buf_bytes D)) = 2 ^ (D - l + 5)"
proof -
  assume l: "l \<le> D"
  have "unat (drop_bit l (buf_bytes D)) = 2 ^ (D + 5) div 2 ^ l" by (simp add: unat_drop_bit64 unat_bytes)
  also have "\<dots> = 2 ^ (D + 5 - l)" using l by (simp add: power_diff)
  finally show ?thesis using l by (simp add: add.commute)
qed

lemma unat_index: "node_ok D (l, i) \<Longrightarrow> unat (word_of_nat i :: size_t) = i"
proof -
  assume x: "node_ok D (l, i)"
  then have "i < 2 ^ l" "(2 :: nat) ^ l \<le> 2 ^ D" by (auto simp: node_ok_def intro: power_increasing)
  then have "i < 2 ^ 57" using pow_bounds(3) by linarith
  then show ?thesis by (intro unat_of_nat64) simp
qed

lemma index_addr:
  assumes "node_ok D (l, i)"
  shows "B + word_of_nat i * drop_bit l (buf_bytes D) = node_addr B D (l, i)"
    and "(node_addr B D (l, i) - B) div drop_bit l (buf_bytes D) = word_of_nat i"
proof -
  have l: "l \<le> D" using assms by (simp add: node_ok_def)
  have p: "i * 2 ^ (D - l + 5) = 32 * (i * 2 ^ (D - l))" by (simp add: power_add)
  have lt: "i * 2 ^ (D - l + 5) < 2 ^ (D + 5)" using node_end(2) [OF assms] by (simp only: p)
  have "i * 2 ^ (D - l + 5) < 2 ^ 64" using less_le_trans [OF lt pow_bounds(1)] by simp
  then have u: "unat (word_of_nat i * drop_bit l (buf_bytes D)) = i * 2 ^ (D - l + 5)"
    using unat_node_bytes [OF l] unat_index [OF assms] by (subst unat_mult64) simp_all
  have "unat B + i * 2 ^ (D - l + 5) < 2 ^ 64" using lt buffer(3) by linarith
  then have "unat (B + word_of_nat i * drop_bit l (buf_bytes D)) = unat B + i * 2 ^ (D - l + 5)"
    using u by (subst unat_add64) simp_all
  then show e: "B + word_of_nat i * drop_bit l (buf_bytes D) = node_addr B D (l, i)"
    unfolding word_eq_iff_unat unat_node_addr [OF assms] p .
  have "unat ((node_addr B D (l, i) - B) div drop_bit l (buf_bytes D)) = i * 2 ^ (D - l + 5) div 2 ^ (D - l + 5)"
    unfolding unat_div unat_node_bytes [OF l]
    by (subst unat_diff64) (simp_all only: unat_node_addr [OF assms] p add_diff_cancel_left' le_add1)
  then show "(node_addr B D (l, i) - B) div drop_bit l (buf_bytes D) = word_of_nat i"
    by (simp add: word_eq_iff_unat unat_index [OF assms])
qed

lemma child_addr:
  assumes "node_ok D (l, i)" "l < D"
  shows "node_addr B D (Suc l, 2 * i) = node_addr B D (l, i)"
    and "node_addr B D (l, i) + drop_bit (Suc l) (buf_bytes D) = node_addr B D (Suc l, 2 * i + 1)"
proof -
  have ok: "node_ok D (Suc l, 2 * i)" "node_ok D (Suc l, 2 * i + 1)"
    using assms node_ok_children by auto
  have p: "(2 :: nat) ^ (D - l) = 2 * 2 ^ (D - Suc l)"
    using assms(2) by (metis Suc_diff_Suc power_Suc)
  show eq: "node_addr B D (Suc l, 2 * i) = node_addr B D (l, i)"
    unfolding word_eq_iff_unat unat_node_addr [OF ok(1)] unat_node_addr [OF assms(1)] p by simp
  have "node_addr B D (Suc l, 2 * i + 1) = B + word_of_nat (2 * i + 1) * drop_bit (Suc l) (buf_bytes D)"
    using index_addr(1) [OF ok(2)] by simp
  also have "\<dots> = B + word_of_nat (2 * i) * drop_bit (Suc l) (buf_bytes D) + drop_bit (Suc l) (buf_bytes D)"
    by (simp add: algebra_simps)
  also have "\<dots> = node_addr B D (l, i) + drop_bit (Suc l) (buf_bytes D)"
    using index_addr(1) [OF ok(1)] eq by simp
  finally show "node_addr B D (l, i) + drop_bit (Suc l) (buf_bytes D) = node_addr B D (Suc l, 2 * i + 1)" ..
qed

lemma descend_addr:
  assumes "node_ok D (l, i)" "l \<le> t" "t \<le> D"
  shows "node_addr B D (t, i * 2 ^ (t - l)) = node_addr B D (l, i)" "node_ok D (t, i * 2 ^ (t - l))"
proof -
  have "i * 2 ^ (t - l) < 2 ^ l * 2 ^ (t - l)" using assms by (simp add: node_ok_def)
  then show ok: "node_ok D (t, i * 2 ^ (t - l))" using assms by (simp add: node_ok_def flip: power_add)
  have "i * 2 ^ (t - l) * 2 ^ (D - t) = i * 2 ^ (D - l)" using assms by (simp flip: power_add)
  then show "node_addr B D (t, i * 2 ^ (t - l)) = node_addr B D (l, i)"
    unfolding word_eq_iff_unat unat_node_addr [OF ok] unat_node_addr [OF assms(1)] by simp
qed

section \<open>Frames\<close>

lemma buf_node: "node_ok D x \<Longrightarrow> a \<in> node_mem B D x \<Longrightarrow> a \<in> region B (buf_bytes D)"
  using node_mem_sub by blast

lemma list_frame_node:
  assumes "list_frame B D fl F m m'" "frag D (F \<union> U)" "F \<inter> U = {}"
  shows "node_frame B D fl bs bo U m m'"
  unfolding node_frame_def
proof (intro allI impI)
  fix a assume a: "a \<notin> buddy_heap B D fl bs bo \<or> (\<exists>x\<in>U. a \<in> node_mem B D x)"
  have ok: "node_ok D x" if "x \<in> F \<union> U" for x using frag_node [OF assms(2) that] .
  have "a \<notin> region fl (fl_bytes D) \<and> (\<forall>x\<in>F. a \<notin> node_mem B D x)"
    using a
  proof
    assume "a \<notin> buddy_heap B D fl bs bo"
    then have out: "a \<notin> region B (buf_bytes D)" "a \<notin> region fl (fl_bytes D)"
      unfolding buddy_heap_def by simp_all
    have "a \<notin> node_mem B D x" if "x \<in> F" for x
    proof
      assume "a \<in> node_mem B D x"
      then have "a \<in> region B (buf_bytes D)" by (rule buf_node [OF ok [OF UnI1 [OF that]]])
      with out(1) show False by simp
    qed
    with out(2) show ?thesis by (intro conjI ballI)
  next
    assume "\<exists>x\<in>U. a \<in> node_mem B D x"
    then obtain x where x: "x \<in> U" "a \<in> node_mem B D x" by blast
    have "a \<notin> node_mem B D y" if "y \<in> F" for y
    proof -
      have "y \<noteq> x" using assms(3) that x(1) by blast
      then have "leaves D y \<inter> leaves D x = {}"
        by (rule frag_disjoint [OF assms(2) UnI1 [OF that] UnI2 [OF x(1)]])
      then show ?thesis using node_mem_disjoint [of y x] x(2) by blast
    qed
    moreover have "a \<notin> region fl (fl_bytes D)" using buf_node [OF ok [OF UnI2 [OF x(1)]] x(2)] buf_fl by blast
    ultimately show ?thesis by blast
  qed
  with assms(1) show "m' a = m a" by (simp add: list_frame_def)
qed

lemma bit_frame_node:
  assumes "\<And>a. a \<notin> region bs (bs_bytes D) \<Longrightarrow> m' a = m a" "frag D U"
  shows "node_frame B D fl bs bo U m m'"
  unfolding node_frame_def
proof (intro allI impI assms(1))
  fix a assume "a \<notin> buddy_heap B D fl bs bo \<or> (\<exists>x\<in>U. a \<in> node_mem B D x)"
  then show "a \<notin> region bs (bs_bytes D)"
    using buf_node frag_node [OF assms(2)] buf_bs unfolding buddy_heap_def by blast
qed

lemma order_frame_node:
  assumes "\<And>a. a \<notin> region bo (bo_bytes D) \<Longrightarrow> m' a = m a" "frag D U"
  shows "node_frame B D fl bs bo U m m'"
  unfolding node_frame_def
proof (intro allI impI assms(1))
  fix a assume "a \<notin> buddy_heap B D fl bs bo \<or> (\<exists>x\<in>U. a \<in> node_mem B D x)"
  then show "a \<notin> region bo (bo_bytes D)"
    using buf_node frag_node [OF assms(2)] buf_bo unfolding buddy_heap_def by blast
qed

text \<open>Bit operations keep the lists, list operations keep the bits.\<close>

lemma lists_rep_bits:
  assumes "lists_rep B D fl m F" "frag D F" "\<And>a. a \<notin> region bs (bs_bytes D) \<Longrightarrow> m' a = m a"
  shows "lists_rep B D fl m' F"
proof (rule lists_rep_cong [OF assms(1,2)])
  show "m' a = m a" if "a \<in> region fl (fl_bytes D)" for a using that fl_bs by (intro assms(3)) blast
  show "m' a = m a" if "x \<in> F" "a \<in> node_mem B D x" for a x
    using buf_node [OF frag_node [OF assms(2) that(1)] that(2)] buf_bs by (intro assms(3)) blast
qed

lemma bits_rep_lists:
  assumes "bits_rep D bs m F" "list_frame B D fl F' m m'" "frag D F'"
  shows "bits_rep D bs m' F"
proof (rule bits_rep_cong [OF assms(1)])
  fix a assume a: "a \<in> region bs (bs_bytes D)"
  have "a \<notin> node_mem B D x" if "x \<in> F'" for x
    using buf_node [OF frag_node [OF assms(3) that]] a buf_bs by blast
  then show "m' a = m a" using assms(2) a fl_bs unfolding list_frame_def by blast
qed

section \<open>Putting a node on its list and taking it off\<close>

lemma rep_insert:
  assumes R: "buddy_rep B D fl bs (mem s) F" and fr: "frag D (insert (l, i) (F \<union> U))"
    and new: "(l, i) \<notin> F \<union> U" and dj: "F \<inter> U = {}"
  defines "s' \<equiv> list_push fl (int l) (node_addr B D (l, i)) s"
    and "b \<equiv> node_index (int l) (word_of_nat i)"
  shows "buddy_rep B D fl bs (mem (set_bit bs b s')) (insert (l, i) F)"
    "buddy_rep B D fl bs (mem (list_push fl (int l) (node_addr B D (l, i)) (set_bit bs b s))) (insert (l, i) F)"
    "node_frame B D fl bs bo U (mem s) (mem (set_bit bs b s'))"
    "node_frame B D fl bs bo U (mem s) (mem (list_push fl (int l) (node_addr B D (l, i)) (set_bit bs b s)))"
    "env s' = env s"
    "env (list_push fl (int l) (node_addr B D (l, i)) (set_bit bs b s)) = env s"
proof -
  let ?F = "insert (l, i) F"
  have x: "node_ok D (l, i)" using frag_node [OF fr] by simp
  have frF: "frag D ?F" "frag D F" "frag D U" using frag_mono [OF fr] by blast+
  have frU: "frag D (?F \<union> U)" using fr by simp
  have dj': "?F \<inter> U = {}" using new dj by blast
  have new': "(l, i) \<notin> F" using new by blast
  have RL: "lists_rep B D fl (mem s) F" and RB: "bits_rep D bs (mem s) F"
    using R by (simp_all add: buddy_rep_def)
  note bf = bit_frame(1) [OF x, folded b_def]
  note push = lists_rep_push [OF RL frF(1) new', folded s'_def]
  show "buddy_rep B D fl bs (mem (set_bit bs b s')) ?F"
    unfolding buddy_rep_def
  proof
    show "lists_rep B D fl (mem (set_bit bs b s')) ?F"
      by (rule lists_rep_bits [OF push(1) frF(1) bf])
    show "bits_rep D bs (mem (set_bit bs b s')) ?F"
      unfolding b_def by (rule bits_rep_set [OF bits_rep_lists [OF RB push(2) frF(1)] x])
  qed
  have RL': "lists_rep B D fl (mem (set_bit bs b s)) F" by (rule lists_rep_bits [OF RL frF(2) bf])
  note push' = lists_rep_push [OF RL' frF(1) new']
  show "buddy_rep B D fl bs (mem (list_push fl (int l) (node_addr B D (l, i)) (set_bit bs b s))) ?F"
    unfolding buddy_rep_def
  proof
    show "lists_rep B D fl (mem (list_push fl (int l) (node_addr B D (l, i)) (set_bit bs b s))) ?F"
      by (rule push'(1))
    show "bits_rep D bs (mem (list_push fl (int l) (node_addr B D (l, i)) (set_bit bs b s))) ?F"
      by (rule bits_rep_lists [OF bits_rep_set [OF RB x, folded b_def] push'(2) frF(1)])
  qed
  show "node_frame B D fl bs bo U (mem s) (mem (set_bit bs b s'))"
    by (rule node_frame_trans [OF list_frame_node [OF push(2) frU dj'] bit_frame_node [OF bf frF(3)]])
  show "node_frame B D fl bs bo U (mem s)
      (mem (list_push fl (int l) (node_addr B D (l, i)) (set_bit bs b s)))"
    by (rule node_frame_trans [OF bit_frame_node [OF bf frF(3)] list_frame_node [OF push'(2) frU dj']])
  show "env s' = env s" by (rule push(3))
  show "env (list_push fl (int l) (node_addr B D (l, i)) (set_bit bs b s)) = env s"
    using push'(3) by simp
qed

lemma rep_remove:
  assumes R: "buddy_rep B D fl bs (mem s) F" and fr: "frag D (F \<union> U)"
    and x: "(l, i) \<in> F" and dj: "F \<inter> U = {}"
  defines "s' \<equiv> clear_bit bs (node_index (int l) (word_of_nat i))
      (list_remove fl (int l) (node_addr B D (l, i)) s)"
  shows "buddy_rep B D fl bs (mem s') (F - {(l, i)})" "node_frame B D fl bs bo U (mem s) (mem s')"
    "env s' = env s"
proof -
  have ok: "node_ok D (l, i)" using frag_node [OF fr] x by blast
  have frF: "frag D F" "frag D U" "frag D (F - {(l, i)})" using frag_mono [OF fr] by blast+
  have RL: "lists_rep B D fl (mem s) F" and RB: "bits_rep D bs (mem s) F"
    using R by (simp_all add: buddy_rep_def)
  note rm = lists_rep_remove [OF RL frF(1) x]
  note bf = bit_frame(2) [OF ok]
  show "buddy_rep B D fl bs (mem s') (F - {(l, i)})"
    unfolding buddy_rep_def s'_def
    using lists_rep_bits [OF rm(1) frF(3) bf] bits_rep_clear [OF bits_rep_lists [OF RB rm(2) frF(1)] ok]
    by (rule conjI)
  show "node_frame B D fl bs bo U (mem s) (mem s')"
    unfolding s'_def
    by (rule node_frame_trans [OF list_frame_node [OF rm(2) fr dj] bit_frame_node [OF bf frF(2)]])
  show "env s' = env s" unfolding s'_def using rm(3) by simp
qed

text \<open>Clearing a bit that is not set.\<close>

lemma rep_clear:
  assumes R: "buddy_rep B D fl bs (mem s) F" and fr: "frag D F" "frag D U"
    and x: "node_ok D (l, i)" "(l, i) \<notin> F"
  defines "s' \<equiv> clear_bit bs (node_index (int l) (word_of_nat i)) s"
  shows "buddy_rep B D fl bs (mem s') F" "node_frame B D fl bs bo U (mem s) (mem s')"
proof -
  have RL: "lists_rep B D fl (mem s) F" and RB: "bits_rep D bs (mem s) F"
    using R by (simp_all add: buddy_rep_def)
  note bf = bit_frame(2) [OF x(1)]
  have "F - {(l, i)} = F" using x(2) by blast
  then show "buddy_rep B D fl bs (mem s') F"
    unfolding buddy_rep_def s'_def
    using lists_rep_bits [OF RL fr(1) bf] bits_rep_clear [OF RB x(1)] by simp
  show "node_frame B D fl bs bo U (mem s) (mem s')"
    unfolding s'_def by (rule bit_frame_node [OF bf fr(2)])
qed

section \<open>The loops\<close>

lemma merged_insert_child:
  assumes "merged F" "(Suc l, 2 * i) \<notin> F"
  shows "merged (insert (Suc l, 2 * i + 1) F)"
proof -
  have f: "flip1 (2 * i + 1) = 2 * i" by (simp add: flip1_def)
  have g: "flip1 j = 2 * i + 1 \<Longrightarrow> j = 2 * i" for j using f flip1_flip1 [of j] by metis
  show ?thesis
    using assms f g flip1_neq unfolding merged_def by (metis insert_iff prod.inject nat.inject)
qed

lemma split_loop_ok:
  assumes ctx: "buddy_ctx_ok B D fl bs bo ctx" and lt: "l \<le> t" "t \<le> D"
    and R: "buddy_rep B D fl bs (mem s) F" and T: "tiling D (insert (l, i) (F \<union> U))"
    and new: "(l, i) \<notin> F \<union> U" and dj: "F \<inter> U = {}" and mg: "merged F"
  shows "\<exists>F'. let s' = split_loop ctx (node_addr B D (l, i)) (int t) (int l) (word_of_nat i) s in
    buddy_rep B D fl bs (mem s') F' \<and> tiling D (insert (t, i * 2 ^ (t - l)) (F' \<union> U)) \<and>
    (t, i * 2 ^ (t - l)) \<notin> F' \<union> U \<and> F' \<inter> U = {} \<and> merged F' \<and>
    node_frame B D fl bs bo U (mem s) (mem s') \<and> env s' = env s"
  using lt(1) R T new dj mg
proof (induction "t - l" arbitrary: l i s F)
  case 0
  then have tl: "l = t" by simp
  then have "split_loop ctx (node_addr B D (l, i)) (int t) (int l) (word_of_nat i) s = s"
    by (subst split_loop.simps) simp
  with 0 tl show ?case by (intro exI [of _ F]) (simp add: Let_def)
next
  case (Suc d)
  let ?c = "(Suc l, 2 * i)" and ?b = "(Suc l, 2 * i + 1)" and ?n = "node_addr B D (l, i)"
  have l: "l < t" "l < D" using Suc.hyps(2) lt(2) by simp_all
  have x: "node_ok D (l, i)" using tiling_node [OF Suc.prems(3)] by simp
  note sp = tiling_split [OF Suc.prems(3,4) l(2)]
  have ok: "node_ok D ?c" "node_ok D ?b" using tiling_node [OF sp(1)] by simp_all
  note ch = child_addr [OF x l(2)]
  define s1 where "s1 = ALLOC_UNPOISON (?n + drop_bit (Suc l) (buf_bytes D)) 16 s"
  define s2 where "s2 = set_bit bs (node_index (int (Suc l)) (word_of_nat (2 * i + 1)))
      (list_push fl (int (Suc l)) (node_addr B D ?b) s1)"
  define s3 where "s3 = clear_bit bs (node_index (int (Suc l)) (word_of_nat (2 * i))) s2"
  have w: "push_bit 1 (word_of_nat i :: size_t) = word_of_nat (2 * i)"
    by (simp add: push_bit_eq_mult mult.commute)
  have run: "split_loop ctx ?n (int t) (int l) (word_of_nat i) s =
      split_loop ctx (node_addr B D ?c) (int t) (int (Suc l)) (word_of_nat (2 * i)) s3"
  proof -
    have e: "int l + 1 = int (Suc l)" "int l < int t" "nat (int (Suc l)) = Suc l"
      "word_of_nat (2 * i) + 1 = (word_of_nat (2 * i + 1) :: size_t)" using l by (simp_all add: add.commute)
    have c: "bd_total_size ctx = buf_bytes D" "bd_free_lists ctx = fl" "bd_bitset ctx = bs"
      using ctx by (simp_all add: buddy_ctx_ok_def)
    show ?thesis
      unfolding ch(1) s3_def s2_def s1_def ch(2) [symmetric]
      by (subst split_loop.simps) (simp only: Let_def e w c if_True)
  qed
  have fr: "frag D (insert ?b (F \<union> U))" by (rule tiling_frag [OF sp(1)]) blast
  have R1: "buddy_rep B D fl bs (mem s1) F" using Suc.prems(2) by (simp add: s1_def)
  have nb: "?b \<notin> F \<union> U" "?c \<notin> F \<union> U" by (rule sp(3), rule sp(2))
  note ins = rep_insert [OF R1 fr nb(1) Suc.prems(5), folded s2_def]
  have frs: "frag D (insert ?b F)" "frag D U" using frag_mono [OF fr] by blast+
  have nc: "?c \<notin> insert ?b F" using nb(2) by simp
  note clr = rep_clear [OF ins(1) frs ok(1) nc, folded s3_def]
  have T3: "tiling D (insert ?c (insert ?b F \<union> U))" using sp(1) by simp
  have n3: "?c \<notin> insert ?b F \<union> U" using nb(2) by simp
  have d3: "insert ?b F \<inter> U = {}" using nb(1) Suc.prems(5) by blast
  have m3: "merged (insert ?b F)" using merged_insert_child [OF Suc.prems(6)] nb(2) by blast
  have "d = t - Suc l" "Suc l \<le> t" using Suc.hyps(2) l by simp_all
  from Suc.hyps(1) [OF this clr(1) T3 n3 d3 m3]
  obtain F' where F': "let s' = split_loop ctx (node_addr B D ?c) (int t) (int (Suc l)) (word_of_nat (2 * i)) s3 in
    buddy_rep B D fl bs (mem s') F' \<and> tiling D (insert (t, 2 * i * 2 ^ (t - Suc l)) (F' \<union> U)) \<and>
    (t, 2 * i * 2 ^ (t - Suc l)) \<notin> F' \<union> U \<and> F' \<inter> U = {} \<and> merged F' \<and>
    node_frame B D fl bs bo U (mem s3) (mem s') \<and> env s' = env s3" by blast
  have p: "i * 2 ^ (t - l) = 2 * i * 2 ^ (t - Suc l)"
    using l(1) by (metis Suc_diff_Suc mult.assoc mult.commute power_Suc)
  have k: "node_frame B D fl bs bo U (mem s) (mem s3)"
    using node_frame_trans [OF ins(3) clr(2)] by (simp add: s1_def)
  have e: "env s3 = env s" using ins(5) by (simp add: s3_def s2_def s1_def)
  show ?case
    unfolding run p using F' k e by (intro exI [of _ F']) (auto simp: Let_def intro: node_frame_trans)
qed

lemma merged_mono: "merged F \<Longrightarrow> G \<subseteq> F \<Longrightarrow> merged G"
  unfolding merged_def by blast

lemma merged_insert:
  assumes "merged F" "\<And>k. l = Suc k \<Longrightarrow> (l, flip1 i) \<notin> F"
  shows "merged (insert (l, i) F)"
proof -
  have g: "flip1 j = i \<Longrightarrow> j = flip1 i" for j by auto
  show ?thesis
    using assms g flip1_neq unfolding merged_def by (metis insert_iff prod.inject)
qed

lemma buddy_insert_ok:
  assumes ctx: "buddy_ctx_ok B D fl bs bo ctx"
    and R: "buddy_rep B D fl bs (mem s) F" and T: "tiling D (insert (l, i) (F \<union> U))"
    and new: "(l, i) \<notin> F \<union> U" and dj: "F \<inter> U = {}"
  defines "s' \<equiv> buddy_insert ctx (int l) (word_of_nat i) s"
  shows "buddy_rep B D fl bs (mem s') (insert (l, i) F)" "node_frame B D fl bs bo U (mem s) (mem s')"
    "env s' = env s"
proof -
  have x: "node_ok D (l, i)" using tiling_node [OF T] by simp
  have fr: "frag D (insert (l, i) (F \<union> U))" by (rule tiling_frag [OF T]) simp
  have c: "bd_total_size ctx = buf_bytes D" "bd_free_lists ctx = fl" "bd_bitset ctx = bs" "bd_buffer ctx = B"
    using ctx by (simp_all add: buddy_ctx_ok_def)
  let ?n = "node_addr B D (l, i)"
  let ?s1 = "set_bit bs (node_index (int l) (word_of_nat i)) s"
  have s': "s' = list_push fl (int l) ?n (ALLOC_UNPOISON ?n 16 ?s1)"
    unfolding s'_def buddy_insert_def Let_def c nat_int index_addr(1) [OF x] ..
  have same: "mem (list_push fl (int l) ?n (ALLOC_UNPOISON ?n 16 ?s1)) = mem (list_push fl (int l) ?n ?s1)"
    "env (list_push fl (int l) ?n (ALLOC_UNPOISON ?n 16 ?s1)) = env (list_push fl (int l) ?n ?s1)"
    by (simp_all add: list_push_def Let_def rd64_def)
  note ins = rep_insert [OF R fr new dj]
  show "buddy_rep B D fl bs (mem s') (insert (l, i) F)" "node_frame B D fl bs bo U (mem s) (mem s')"
    "env s' = env s"
    unfolding s' same using ins(2,4,6) by simp_all
qed

lemma merge_loop_ok:
  assumes ctx: "buddy_ctx_ok B D fl bs bo ctx"
    and R: "buddy_rep B D fl bs (mem s) F" and T: "tiling D (insert (l, i) (F \<union> U))"
    and new: "(l, i) \<notin> F \<union> U" and dj: "F \<inter> U = {}" and mg: "merged F"
  shows "\<exists>F'. let s' = merge_loop ctx (int l) (word_of_nat i) s in
    buddy_rep B D fl bs (mem s') F' \<and> tiling D (F' \<union> U) \<and> F' \<inter> U = {} \<and> merged F' \<and>
    node_frame B D fl bs bo U (mem s) (mem s') \<and> env s' = env s"
  using R T new dj mg
proof (induction l arbitrary: i s F)
  case 0
  have run: "merge_loop ctx (int 0) (word_of_nat i) s = buddy_insert ctx (int 0) (word_of_nat i) s"
    by (subst merge_loop.simps) simp
  have "merged (insert (0, i) F)" using merged_insert [OF 0(5), of 0 i] by simp
  then show ?case
    unfolding run using buddy_insert_ok [OF ctx 0(1-4)] 0(2-4)
    by (intro exI [of _ "insert (0, i) F"]) (simp add: Let_def)
next
  case (Suc k)
  let ?x = "(Suc k, i)" and ?b = "(Suc k, flip1 i)"
  have x: "node_ok D ?x" using tiling_node [OF Suc.prems(2)] by simp
  have b: "node_ok D ?b" using x flip1_less by (simp add: node_ok_def)
  have c: "bd_total_size ctx = buf_bytes D" "bd_free_lists ctx = fl" "bd_bitset ctx = bs" "bd_buffer ctx = B"
    using ctx by (simp_all add: buddy_ctx_ok_def)
  have bit: "get_bit bs (node_index (int (Suc k)) (word_of_nat (flip1 i))) (mem s) = 0 \<longleftrightarrow> ?b \<notin> F"
    using Suc.prems(1) b unfolding buddy_rep_def bits_rep_def by blast
  have lev: "\<not> int (Suc k) < 0" "int (Suc k) \<noteq> 0" "int (Suc k) - 1 = int k" by simp_all
  show ?case
  proof (cases "?b \<in> F")
    case False
    then have run: "merge_loop ctx (int (Suc k)) (word_of_nat i) s = buddy_insert ctx (int (Suc k)) (word_of_nat i) s"
      using bit by (subst merge_loop.simps) (simp only: lev Let_def c word_XOR_1 if_False if_True simp_thms)
    have "merged (insert ?x F)" using merged_insert [OF Suc.prems(5), of "Suc k" i] False by blast
    then show ?thesis
      unfolding run using buddy_insert_ok [OF ctx Suc.prems(1-4)] Suc.prems(2-4)
      by (intro exI [of _ "insert ?x F"]) (simp add: Let_def)
  next
    case True
    let ?F = "F - {?b}"
    let ?bp = "node_addr B D ?b"
    define s1 where "s1 = clear_bit bs (node_index (int (Suc k)) (word_of_nat (flip1 i)))
      (ALLOC_POISON ?bp 16 (list_remove fl (int (Suc k)) ?bp s))"
    have half: "drop_bit 1 (word_of_nat i :: size_t) = word_of_nat (i div 2)"
      unfolding word_eq_iff_unat unat_drop_bit64 unat_index [OF x] 
    proof -
      have "i div 2 < 2 ^ 64"
        using unat64_less [of "word_of_nat i"] unat_index [OF x] by simp
      then show "i div 2 ^ 1 = unat (word_of_nat (i div 2) :: size_t)" by (simp add: unat_of_nat64)
    qed
    have run: "merge_loop ctx (int (Suc k)) (word_of_nat i) s = merge_loop ctx (int k) (word_of_nat (i div 2)) s1"
      using bit True unfolding s1_def
      by (subst merge_loop.simps)
        (simp only: lev Let_def c word_XOR_1 if_False if_True simp_thms nat_int index_addr(1) [OF b] half)
    have fr: "frag D (F \<union> U)" by (rule tiling_frag [OF Suc.prems(2)]) blast
    note rm = rep_remove [OF Suc.prems(1) fr True Suc.prems(4)]
    have same: "mem s1 = mem (clear_bit bs (node_index (int (Suc k)) (word_of_nat (flip1 i))) (list_remove fl (int (Suc k)) ?bp s))"
      "env s1 = env (clear_bit bs (node_index (int (Suc k)) (word_of_nat (flip1 i))) (list_remove fl (int (Suc k)) ?bp s))"
      by (simp_all add: s1_def clear_bit_def)
    have R1: "buddy_rep B D fl bs (mem s1) ?F" "node_frame B D fl bs bo U (mem s) (mem s1)" "env s1 = env s"
      unfolding same using rm by simp_all
    have "insert ?x (F \<union> U) = insert ?x (insert ?b (?F \<union> U))" using True by blast
    then have T1: "tiling D (insert ?x (insert ?b (?F \<union> U)))" using Suc.prems(2) by simp
    have n1: "?x \<notin> ?F \<union> U" "?b \<notin> ?F \<union> U" using Suc.prems(3,4) True by blast+
    note mt = tiling_merge [OF T1 n1]
    have d1: "?F \<inter> U = {}" using Suc.prems(4) by blast
    have m1: "merged ?F" by (rule merged_mono [OF Suc.prems(5)]) blast
    from Suc.IH [OF R1(1) mt d1 m1]
    obtain F' where F': "let s' = merge_loop ctx (int k) (word_of_nat (i div 2)) s1 in
      buddy_rep B D fl bs (mem s') F' \<and> tiling D (F' \<union> U) \<and> F' \<inter> U = {} \<and> merged F' \<and>
      node_frame B D fl bs bo U (mem s1) (mem s') \<and> env s' = env s1" by blast
    then show ?thesis
      unfolding run using R1(2,3) by (intro exI [of _ F']) (auto simp: Let_def intro: node_frame_trans)
  qed
qed

text \<open>The search for a level with a free block.\<close>

lemma find_level_ok:
  assumes R: "lists_rep B D fl m F" and t: "t \<le> D"
  shows "(find_level m fl (int t) = -1 \<and> (\<forall>l\<le>t. \<forall>i. (l, i) \<notin> F)) \<or>
    (\<exists>l i. l \<le> t \<and> find_level m fl (int t) = int l \<and> (l, i) \<in> F \<and>
      load64 m (free_list fl (int l)) = node_addr B D (l, i))"
  using t
proof (induction t)
  case 0
  obtain xs where xs: "dll m 0 (load64 m (free_list fl (int 0))) (map (\<lambda>i. node_addr B D (0, i)) xs)"
    "set xs = {i. (0, i) \<in> F}" by (rule lists_rep_list [OF R, of 0]) simp_all
  have m1: "find_level m fl (- 1) = -1" by (subst find_level.simps) simp
  show ?case
  proof (cases xs)
    case Nil
    with xs m1 show ?thesis by (subst (1) find_level.simps) auto
  next
    case (Cons i ys)
    with xs show ?thesis by (subst (2) find_level.simps) auto
  qed
next
  case (Suc t)
  obtain xs where xs: "dll m 0 (load64 m (free_list fl (int (Suc t)))) (map (\<lambda>i. node_addr B D (Suc t, i)) xs)"
    "set xs = {i. (Suc t, i) \<in> F}" by (rule lists_rep_list [OF R Suc.prems])
  show ?case
  proof (cases xs)
    case Nil
    then have h: "load64 m (free_list fl (int (Suc t))) = 0" using xs(1) by simp
    have "find_level m fl (int (Suc t)) = find_level m fl (int (Suc t) - 1)"
      using h by (subst find_level.simps) simp
    then have e: "find_level m fl (int (Suc t)) = find_level m fl (int t)" by simp
    have none: "(Suc t, i) \<notin> F" for i using xs(2) Nil by auto
    have "t \<le> D" using Suc.prems by simp
    from Suc.IH [OF this] show ?thesis
      unfolding e using none le_Suc_eq by blast
  next
    case (Cons i ys)
    then have "load64 m (free_list fl (int (Suc t))) = node_addr B D (Suc t, i)"
      "load64 m (free_list fl (int (Suc t))) \<noteq> 0" "(Suc t, i) \<in> F" using xs by auto
    moreover from this(2) have "find_level m fl (int (Suc t)) = int (Suc t)"
      by (subst find_level.simps) simp
    ultimately show ?thesis by blast
  qed
qed

end

section \<open>Invariant\<close>

text \<open>The level of a request, and the nodes of the blocks in use.\<close>

definition level_of :: "nat \<Rightarrow> size_t \<Rightarrow> nat" where
  "level_of D n = D + 5 - max 5 (nat (get_order n))"

definition buddy_used :: "ptr \<Rightarrow> nat \<Rightarrow> live_map \<Rightarrow> node set \<Rightarrow> bool" where
  "buddy_used B D L U \<longleftrightarrow>
     (\<forall>p n. L p = Some n \<longrightarrow> n \<noteq> 0 \<and> unat n \<le> 2 ^ (D + 5) \<and>
       (\<exists>i. (level_of D n, i) \<in> U \<and> p = node_addr B D (level_of D n, i))) \<and>
     (\<forall>x\<in>U. \<exists>n. L (node_addr B D x) = Some n \<and> level_of D n = fst x)"

text \<open>
  The free blocks are the ones in the lists and in the bit set; together with the blocks in use
  they tile the buffer; no two buddies are both free.
\<close>

definition buddy_inv :: "ptr \<Rightarrow> nat \<Rightarrow> ptr \<Rightarrow> ptr \<Rightarrow> ptr \<Rightarrow> 'e buddy_machine \<Rightarrow> live_map \<Rightarrow> bool" where
  "buddy_inv B D fl bs bo s L \<longleftrightarrow> buddy_mem B D fl bs bo \<and> buddy_ctx_ok B D fl bs bo (self_ctx s) \<and>
     (\<exists>F U. buddy_rep B D fl bs (mem s) F \<and> tiling D (F \<union> U) \<and> F \<inter> U = {} \<and> merged F \<and>
       buddy_used B D L U)"

lemma buddy_invE:
  assumes "buddy_inv B D fl bs bo s L"
  obtains F U where "buddy_mem B D fl bs bo" "buddy_ctx_ok B D fl bs bo (self_ctx s)"
    "buddy_rep B D fl bs (mem s) F" "tiling D (F \<union> U)" "F \<inter> U = {}" "merged F" "buddy_used B D L U"
  using assms by (auto simp: buddy_inv_def)

lemma block_order_eq:
  "buddy_ctx_ok B D fl bs bo ctx \<Longrightarrow> bd_max_order ctx - block_order ctx n = int (D + 5) - max 5 (get_order n)"
proof -
  assume c: "buddy_ctx_ok B D fl bs bo ctx"
  have "get_order 32 = 5"
  proof (rule antisym)
    show "get_order 32 \<le> 5" using get_order_le_iff [of 32 5] by simp
    show "5 \<le> get_order 32" using get_order_le_iff [of 32 4] by simp
  qed
  then show ?thesis using c by (simp add: buddy_ctx_ok_def block_order_def Let_def max_def)
qed

lemma level_cases:
  assumes "n \<noteq> 0"
  obtains (large) "int (D + 5) - max 5 (get_order n) < 0" "2 ^ (D + 5) < unat n"
    | (ok) "int (D + 5) - max 5 (get_order n) = int (level_of D n)" "unat n \<le> 2 ^ (D + 5)"
      "level_of D n \<le> D" "unat n \<le> 2 ^ (D - level_of D n + 5)"
proof (cases "get_order n \<le> int (D + 5)")
  case True
  have n: "unat n \<le> 2 ^ (D + 5)" using True get_order_le_iff [OF assms] by blast
  have k: "max 5 (get_order n) = int (max 5 (nat (get_order n)))" using get_order_nonneg [of n] by simp
  have le: "max 5 (nat (get_order n)) \<le> D + 5" using True by simp
  have lv: "D - level_of D n + 5 = max 5 (nat (get_order n))" "level_of D n \<le> D"
    using le by (auto simp: level_of_def max_def)
  have "get_order n \<le> int (D - level_of D n + 5)" using lv(1) get_order_nonneg [of n] by simp
  then have "unat n \<le> 2 ^ (D - level_of D n + 5)" using get_order_le_iff [OF assms] by blast
  moreover have "int (D + 5) - max 5 (get_order n) = int (level_of D n)"
    unfolding k level_of_def using le by (simp add: of_nat_diff)
  ultimately show thesis using n lv(2) by (intro ok)
next
  case False
  then have "\<not> unat n \<le> 2 ^ (D + 5)" using get_order_le_iff [OF assms] by blast
  with False show thesis by (intro large) simp_all
qed

context buddy_mem
begin

lemma used_block:
  assumes us: "buddy_used B D L U" and fr: "frag D U" and p: "L p = Some n"
  obtains i where "(level_of D n, i) \<in> U" "p = node_addr B D (level_of D n, i)" "n \<noteq> 0"
    "unat n \<le> 2 ^ (D + 5)" "region p n \<subseteq> node_mem B D (level_of D n, i)" "level_of D n \<le> D"
    "unat p + unat n \<le> unat B + 2 ^ (D + 5)" "node_ok D (level_of D n, i)"
proof -
  obtain i where i: "(level_of D n, i) \<in> U" "p = node_addr B D (level_of D n, i)" "n \<noteq> 0"
    "unat n \<le> 2 ^ (D + 5)" using us p unfolding buddy_used_def by blast
  let ?k = "drop_bit (level_of D n) (buf_bytes D)"
  have ok: "node_ok D (level_of D n, i)" by (rule frag_node [OF fr i(1)])
  then have l: "level_of D n \<le> D" by (simp add: node_ok_def)
  have nk: "unat n \<le> unat ?k"
    by (cases rule: level_cases [OF i(3), of D]) (use i(4) unat_node_bytes [OF l] in simp_all)
  have "32 * (i * 2 ^ (D - level_of D n)) + 2 ^ (D - level_of D n + 5) = 32 * ((i + 1) * 2 ^ (D - level_of D n))"
    by (simp add: power_add algebra_simps)
  also have "\<dots> \<le> 32 * 2 ^ D" using node_end(1) [OF ok] by simp
  finally have "32 * (i * 2 ^ (D - level_of D n)) + unat n \<le> 2 ^ (D + 5)"
    using nk unat_node_bytes [OF l] by (simp add: power_add)
  then have e: "unat p + unat n \<le> unat B + 2 ^ (D + 5)"
    unfolding i(2) unat_node_addr [OF ok] by simp
  from nk have "region p n \<subseteq> region p ?k" by (rule region_mono)
  also have "\<dots> = node_mem B D (level_of D n, i)"
    unfolding i(2) by (rule node_region [OF ok unat_node_bytes [OF l]])
  finally show thesis by (rule that [OF i _ l e ok])
qed

lemma used_live_ok:
  assumes us: "buddy_used B D L U" and fr: "frag D U"
  shows "live_ok (buddy_heap B D fl bs bo) L"
proof -
  have blk: "block_ok p n \<and> region p n \<subseteq> buddy_heap B D fl bs bo" if p: "L p = Some n" for p n
  proof -
    obtain i where i: "p = node_addr B D (level_of D n, i)" "n \<noteq> 0" "unat n \<le> 2 ^ (D + 5)"
      "region p n \<subseteq> node_mem B D (level_of D n, i)" "unat p + unat n \<le> unat B + 2 ^ (D + 5)"
      "node_ok D (level_of D n, i)" by (rule used_block [OF us fr p])
    have "unat n < 2 ^ 63" using le_trans [OF i(3) pow_bounds(1)] by simp
    moreover have "unat p + unat n < 2 ^ 64" using i(5) buffer(3) by (rule le_less_trans)
    ultimately have "block_ok p n"
      unfolding block_ok_def size_ok_def using node_addr_props(1,2) [OF i(6)] i(1,2) by simp
    moreover have "region p n \<subseteq> region B (buf_bytes D)" using i(4) node_mem_sub [OF i(6)] by blast
    ultimately show ?thesis unfolding buddy_heap_def by blast
  qed
  have sep: "region p n \<inter> region q m = {}" if p: "L p = Some n" and q: "L q = Some m" and ne: "p \<noteq> q" for p n q m
  proof -
    obtain i where i: "(level_of D n, i) \<in> U" "p = node_addr B D (level_of D n, i)"
      "region p n \<subseteq> node_mem B D (level_of D n, i)" by (rule used_block [OF us fr p])
    obtain j where j: "(level_of D m, j) \<in> U" "q = node_addr B D (level_of D m, j)"
      "region q m \<subseteq> node_mem B D (level_of D m, j)" by (rule used_block [OF us fr q])
    have "(level_of D n, i) \<noteq> (level_of D m, j)" using ne i(2) j(2) by auto
    then have "node_mem B D (level_of D n, i) \<inter> node_mem B D (level_of D m, j) = {}"
      by (intro node_mem_disjoint frag_disjoint [OF fr i(1) j(1)])
    with i(3) j(3) show ?thesis by blast
  qed
  show ?thesis unfolding live_ok_def using blk sep by (intro conjI allI impI) simp_all
qed

text \<open>Live bytes are bytes of nodes in use.\<close>

lemma live_used:
  assumes us: "buddy_used B D L U" and fr: "frag D U" and a: "a \<in> live L"
  shows "\<exists>x\<in>U. a \<in> node_mem B D x"
proof -
  obtain p n where p: "L p = Some n" "a \<in> region p n" using a by (rule liveE)
  obtain i where i: "(level_of D n, i) \<in> U" "region p n \<subseteq> node_mem B D (level_of D n, i)"
    by (rule used_block [OF us fr p(1)])
  with p(2) show ?thesis by blast
qed

lemma node_frame_kept:
  assumes "node_frame B D fl bs bo U m m'" "buddy_used B D L U" "frag D U"
  shows "kept (buddy_heap B D fl bs bo) L m m'"
  using assms(1) live_used [OF assms(2,3)] unfolding node_frame_def kept_def by blast

lemma buddy_client_write:
  assumes R: "buddy_rep B D fl bs m F" and T: "tiling D (F \<union> U)" and dj: "F \<inter> U = {}"
    and us: "buddy_used B D L U"
    and w: "\<And>a. a \<in> buddy_heap B D fl bs bo \<Longrightarrow> a \<notin> live L \<Longrightarrow> m' a = m a"
  shows "buddy_rep B D fl bs m' F"
proof -
  have fr: "frag D (F \<union> U)" "frag D F" "frag D U" using tiling_frag [OF T] by blast+
  have out: "a \<notin> live L" if "a \<in> region fl (fl_bytes D) \<or> a \<in> region bs (bs_bytes D) \<or>
      (\<exists>x\<in>F. a \<in> node_mem B D x)" for a
  proof
    assume "a \<in> live L"
    then obtain y where y: "y \<in> U" "a \<in> node_mem B D y" using live_used [OF us fr(3)] by blast
    have aB: "a \<in> region B (buf_bytes D)" by (rule buf_node [OF frag_node [OF fr(3) y(1)] y(2)])
    from that show False
    proof (elim disjE bexE)
      fix x assume x: "x \<in> F" "a \<in> node_mem B D x"
      have "x \<noteq> y" using x(1) y(1) dj by blast
      then have "node_mem B D x \<inter> node_mem B D y = {}"
        by (intro node_mem_disjoint frag_disjoint [OF fr(1) UnI1 [OF x(1)] UnI2 [OF y(1)]])
      with x(2) y(2) show False by blast
    qed (use aB buf_fl buf_bs in blast)+
  qed
  show ?thesis
    unfolding buddy_rep_def
  proof
    show "lists_rep B D fl m' F"
    proof (rule lists_rep_cong [OF _ fr(2)])
      show "lists_rep B D fl m F" using R by (simp add: buddy_rep_def)
      show "m' a = m a" if "a \<in> region fl (fl_bytes D)" for a
        using that out by (intro w) (simp_all add: buddy_heap_def)
      show "m' a = m a" if "x \<in> F" "a \<in> node_mem B D x" for a x
      proof (rule w)
        show "a \<in> buddy_heap B D fl bs bo"
          unfolding buddy_heap_def using buf_node [OF frag_node [OF fr(2) that(1)] that(2)] by blast
        show "a \<notin> live L" using that by (intro out) blast
      qed
    qed
    show "bits_rep D bs m' F"
    proof (rule bits_rep_cong)
      show "bits_rep D bs m F" using R by (simp add: buddy_rep_def)
      show "m' a = m a" if "a \<in> region bs (bs_bytes D)" for a
        using that out by (intro w) (simp_all add: buddy_heap_def)
    qed
  qed
qed

section \<open>Allocation\<close>

lemma rep_orders:
  assumes R: "buddy_rep B D fl bs m F" and fr: "frag D F" and w: "\<And>a. a \<notin> region bo (bo_bytes D) \<Longrightarrow> m' a = m a"
  shows "buddy_rep B D fl bs m' F"
  unfolding buddy_rep_def
proof
  show "lists_rep B D fl m' F"
  proof (rule lists_rep_cong [OF _ fr])
    show "lists_rep B D fl m F" using R by (simp add: buddy_rep_def)
    show "m' a = m a" if "a \<in> region fl (fl_bytes D)" for a using that fl_bo by (intro w) blast
    show "m' a = m a" if "x \<in> F" "a \<in> node_mem B D x" for a x
      using buf_node [OF frag_node [OF fr that(1)] that(2)] buf_bo by (intro w) blast
  qed
  show "bits_rep D bs m' F"
  proof (rule bits_rep_cong)
    show "bits_rep D bs m F" using R by (simp add: buddy_rep_def)
    show "m' a = m a" if "a \<in> region bs (bs_bytes D)" for a using that bs_bo by (intro w) blast
  qed
qed

lemma order_byte:
  assumes "node_ok D (l, i)"
  shows "bo + (node_addr B D (l, i) - B) div 32 \<in> region bo (bo_bytes D)"
proof (rule region_offset)
  have "unat ((node_addr B D (l, i) - B) div 32) = 32 * (i * 2 ^ (D - l)) div 32"
    unfolding unat_div using unat_node_addr [OF assms] by (subst unat_diff64) simp_all
  also have "\<dots> < 2 ^ D"
    using node_end(2) [OF assms] by (simp add: power_add)
  finally show "(node_addr B D (l, i) - B) div 32 < bo_bytes D"
    by (simp add: word_less_nat_alt unat_bytes)
  show "unat bo + unat (bo_bytes D) \<le> 2 ^ 64" using orders by (simp add: unat_bytes)
qed

text \<open>
  Allocation takes a node of the lowest level that has a free one, splits it down to the level of
  the request, and fails only when no level up to there has a free node.
\<close>

lemma buddy_alloc_rep:
  assumes ctx: "buddy_ctx_ok B D fl bs bo (self_ctx s)" and R: "buddy_rep B D fl bs (mem s) F"
    and T: "tiling D (F \<union> U)" and dj: "F \<inter> U = {}" and mg: "merged F" and n: "n \<noteq> 0"
  obtains (none) "buddy_alloc_fn n s = Some (NULL, s)"
      "2 ^ (D + 5) < unat n \<or> (\<forall>l\<le>level_of D n. \<forall>i. (l, i) \<notin> F)"
    | (some) i F' s' where "buddy_alloc_fn n s = Some (node_addr B D (level_of D n, i), s')"
      "buddy_rep B D fl bs (mem s') F'" "tiling D (insert (level_of D n, i) (F' \<union> U))"
      "(level_of D n, i) \<notin> F' \<union> U" "F' \<inter> U = {}" "merged F'"
      "node_frame B D fl bs bo U (mem s) (mem s')" "env s' = env s" "unat n \<le> 2 ^ (D + 5)"
proof -
  note tgt = block_order_eq [OF ctx, of n]
  show thesis
  proof (cases rule: level_cases [OF n, of D])
    case 1
    then have neg: "bd_max_order (self_ctx s) - block_order (self_ctx s) n < 0" using tgt by simp
    have "buddy_alloc_fn n s = Some (NULL, s)"
      unfolding buddy_alloc_fn_def Let_def if_P [OF neg] by simp
    with 1(2) show thesis by (intro none) simp_all
  next
    case 2
    let ?t = "level_of D n"
    have c: "bd_total_size (self_ctx s) = buf_bytes D" "bd_free_lists (self_ctx s) = fl"
      "bd_bitset (self_ctx s) = bs" "bd_buffer (self_ctx s) = B" "bd_min_block_size (self_ctx s) = 32"
      "bd_block_orders (self_ctx s) = bo" using ctx by (simp_all add: buddy_ctx_ok_def)
    have RL: "lists_rep B D fl (mem s) F" using R by (simp add: buddy_rep_def)
    have tg: "bd_max_order (self_ctx s) - block_order (self_ctx s) n = int ?t" using tgt 2(1) by simp
    from find_level_ok [OF RL 2(3)] show thesis
    proof (elim disjE conjE exE)
      assume f: "find_level (mem s) fl (int ?t) = - 1" "\<forall>l\<le>?t. \<forall>i. (l, i) \<notin> F"
      have "buddy_alloc_fn n s = Some (NULL, s)"
        using n tg f(1) c by (simp add: buddy_alloc_fn_def Let_def)
      then show thesis using f(2) by (intro none) simp_all
    next
      fix l i assume l: "l \<le> ?t" and f: "find_level (mem s) fl (int ?t) = int l" and x: "(l, i) \<in> F"
        and h: "load64 (mem s) (free_list fl (int l)) = node_addr B D (l, i)"
      let ?n = "node_addr B D (l, i)"
      have fr: "frag D (F \<union> U)" by (rule tiling_frag [OF T]) simp
      have ok: "node_ok D (l, i)" using frag_node [OF fr] x by blast
      define s1 where "s1 = clear_bit bs (node_index (int l) (word_of_nat i))
        (list_remove fl (int l) ?n (ALLOC_UNPOISON ?n 16 s))"
      have R0: "buddy_rep B D fl bs (mem (ALLOC_UNPOISON ?n 16 s)) F" using R by simp
      note rm = rep_remove [OF R0 fr x dj, folded s1_def]
      have T1: "tiling D (insert (l, i) ((F - {(l, i)}) \<union> U))"
        using T x by (simp add: insert_absorb insert_Diff Un_insert_left [symmetric])
      have n1: "(l, i) \<notin> (F - {(l, i)}) \<union> U" using x dj by blast
      have d1: "(F - {(l, i)}) \<inter> U = {}" using dj by blast
      have m1: "merged (F - {(l, i)})" by (rule merged_mono [OF mg]) blast
      define s2 where "s2 = split_loop (self_ctx s) ?n (int ?t) (int l) (word_of_nat i) s1"
      obtain F' where F': "buddy_rep B D fl bs (mem s2) F'" "tiling D (insert (?t, i * 2 ^ (?t - l)) (F' \<union> U))"
        "(?t, i * 2 ^ (?t - l)) \<notin> F' \<union> U" "F' \<inter> U = {}" "merged F'"
        "node_frame B D fl bs bo U (mem s1) (mem s2)" "env s2 = env s1"
        using split_loop_ok [OF ctx l 2(3) rm(1) T1 n1 d1 m1] unfolding s2_def Let_def by blast
      define s3 where "s3 = s2\<lparr>mem := (mem s2)(bo + (?n - B) div 32 := word_of_int (int ?t))\<rparr>"
      define s4 where "s4 = ALLOC_UNPOISON ?n (drop_bit ?t (buf_bytes D)) s3"
      have run: "buddy_alloc_fn n s = Some (?n, s4)"
        unfolding buddy_alloc_fn_def Let_def tg c f rd64_def h index_addr(2) [OF ok] nat_int
        using n by (simp add: s4_def s3_def s2_def s1_def c)
      have w3: "mem s3 a = mem s2 a" if "a \<notin> region bo (bo_bytes D)" for a
        using order_byte [OF ok] that by (auto simp: s3_def)
      have frU: "frag D U" "frag D F'" using tiling_frag [OF F'(2)] by blast+
      have "buddy_rep B D fl bs (mem s4) F'"
        using rep_orders [OF F'(1) frU(2) w3] by (simp add: s4_def)
      moreover have "node_frame B D fl bs bo U (mem s) (mem s4)"
        using node_frame_trans [OF rm(2) node_frame_trans [OF F'(6) order_frame_node [OF w3 frU(1)]]]
        by (simp add: s4_def)
      moreover have "env s4 = env s" using F'(7) rm(3) by (simp add: s4_def s3_def)
      moreover have "?n = node_addr B D (?t, i * 2 ^ (?t - l))"
        using descend_addr(1) [OF ok l 2(3)] by simp
      ultimately show thesis using some [of "i * 2 ^ (?t - l)" s4 F'] run F'(2-5) 2(2) by simp
    qed
  qed
qed

lemma used_insert:
  assumes us: "buddy_used B D L U" and fr: "frag D (insert (level_of D n, i) U)"
    and new: "(level_of D n, i) \<notin> U" and n: "n \<noteq> 0" "unat n \<le> 2 ^ (D + 5)"
  shows "node_addr B D (level_of D n, i) \<notin> dom L"
    "buddy_used B D (L(node_addr B D (level_of D n, i) \<mapsto> n)) (insert (level_of D n, i) U)"
proof -
  let ?x = "(level_of D n, i)"
  have ne: "node_addr B D y \<noteq> node_addr B D ?x" if "y \<in> U" for y
    using node_addr_eq_iff [OF fr, of y ?x] that new by auto
  show fresh: "node_addr B D ?x \<notin> dom L"
  proof
    assume "node_addr B D ?x \<in> dom L"
    then obtain k where "L (node_addr B D ?x) = Some k" by blast
    then obtain j where "(level_of D k, j) \<in> U" "node_addr B D ?x = node_addr B D (level_of D k, j)"
      using us unfolding buddy_used_def by blast
    with ne show False by metis
  qed
  show "buddy_used B D (L(node_addr B D ?x \<mapsto> n)) (insert ?x U)"
    unfolding buddy_used_def
  proof (intro conjI allI impI ballI)
    fix p k assume p: "(L(node_addr B D ?x \<mapsto> n)) p = Some k"
    show "k \<noteq> 0" "unat k \<le> 2 ^ (D + 5)"
      "\<exists>j. (level_of D k, j) \<in> insert ?x U \<and> p = node_addr B D (level_of D k, j)"
      using p us n unfolding buddy_used_def by (auto split: if_splits)
  next
    fix y assume y: "y \<in> insert ?x U"
    show "\<exists>k. (L(node_addr B D ?x \<mapsto> n)) (node_addr B D y) = Some k \<and> level_of D k = fst y"
    proof (cases "y = ?x")
      case False
      then have "y \<in> U" using y by blast
      with ne us show ?thesis unfolding buddy_used_def by simp
    qed simp
  qed
qed

lemma used_remove:
  assumes us: "buddy_used B D L U" and fr: "frag D U" and x: "x \<in> U"
  shows "buddy_used B D (L(node_addr B D x := None)) (U - {x})"
  unfolding buddy_used_def
proof (intro conjI allI impI ballI)
  fix p k assume "(L(node_addr B D x := None)) p = Some k"
  then have p: "L p = Some k" "p \<noteq> node_addr B D x" by (auto split: if_splits)
  then obtain j where j: "k \<noteq> 0" "unat k \<le> 2 ^ (D + 5)" "(level_of D k, j) \<in> U"
    "p = node_addr B D (level_of D k, j)" using us unfolding buddy_used_def by blast
  then show "k \<noteq> 0" "unat k \<le> 2 ^ (D + 5)" by blast+
  have "(level_of D k, j) \<noteq> x" using p(2) j(4) by blast
  with j show "\<exists>j. (level_of D k, j) \<in> U - {x} \<and> p = node_addr B D (level_of D k, j)" by blast
next
  fix y assume y: "y \<in> U - {x}"
  then have "node_addr B D y \<noteq> node_addr B D x" using node_addr_eq_iff [OF fr _ x, of y] by blast
  then show "\<exists>k. (L(node_addr B D x := None)) (node_addr B D y) = Some k \<and> level_of D k = fst y"
    using us y unfolding buddy_used_def by simp
qed

section \<open>The operations keep the invariant\<close>

lemma contains_eq:
  assumes "buddy_ctx_ok B D fl bs bo (self_ctx s)"
  shows "buddy_contains_fn p s =
    Some (if p \<in> region B (buf_bytes D) then ALLO_CONTAINS_YES else ALLO_CONTAINS_NO, s)"
proof -
  have "unat (B + buf_bytes D) = unat B + 2 ^ (D + 5)"
    using buffer(3) by (subst unat_add64) (simp_all add: unat_bytes)
  then show ?thesis
    using assms by (simp add: buddy_contains_fn_def buddy_ctx_ok_def mem_region unat_bytes
      word_le_nat_alt word_less_nat_alt)
qed

lemma buddy_live_in:
  assumes "buddy_inv B D fl bs bo s L" "p \<in> dom L"
  shows "p \<in> region B (buf_bytes D)" "p \<noteq> 0"
proof -
  obtain F U where T: "tiling D (F \<union> U)" and us: "buddy_used B D L U"
    by (rule buddy_invE [OF assms(1)])
  have fr: "frag D U" by (rule tiling_frag [OF T]) simp
  obtain n where n: "L p = Some n" using assms(2) by blast
  obtain i where i: "n \<noteq> 0" "region p n \<subseteq> node_mem B D (level_of D n, i)" "node_ok D (level_of D n, i)"
    "p = node_addr B D (level_of D n, i)" by (rule used_block [OF us fr n])
  show "p \<in> region B (buf_bytes D)" using region_self [OF i(1), of p] i(2) node_mem_sub [OF i(3)] by blast
  show "p \<noteq> 0" using node_addr_props(1) [OF i(3)] i(4) by simp
qed

lemma buddy_alloc_law:
  assumes J: "buddy_inv B D fl bs bo s L"
  shows "\<exists>p s'. buddy_alloc_fn n s = Some (p, s') \<and> env s' = env s \<and>
    alloc_post (buddy_inv B D fl bs bo) (buddy_heap B D fl bs bo) L n s p s'"
proof (cases "n = 0")
  case True
  with J show ?thesis by (simp add: buddy_alloc_fn_def alloc_post_def)
next
  case False
  obtain F U where g: "buddy_mem B D fl bs bo" and ctx: "buddy_ctx_ok B D fl bs bo (self_ctx s)"
    and R: "buddy_rep B D fl bs (mem s) F" and T: "tiling D (F \<union> U)" and dj: "F \<inter> U = {}"
    and mg: "merged F" and us: "buddy_used B D L U" by (rule buddy_invE [OF J])
  show ?thesis
  proof (cases rule: buddy_alloc_rep [OF ctx R T dj mg False])
    case 1
    with J show ?thesis by (simp add: alloc_post_def)
  next
    case (2 i F' s')
    let ?x = "(level_of D n, i)"
    have frU: "frag D (insert ?x U)" "frag D U" using tiling_frag [OF 2(3)] by blast+
    have x: "node_ok D ?x" using frag_node [OF frU(1)] by blast
    have nU: "?x \<notin> U" using 2(4) by blast
    note ui = used_insert [OF us frU(1) nU False 2(9)]
    have e: "self_ctx s' = self_ctx s" using 2(8) by (simp add: self_ctx_def)
    have T': "tiling D (F' \<union> insert ?x U)" using 2(3) by simp
    have d': "F' \<inter> insert ?x U = {}" using 2(4,5) by blast
    have "buddy_inv B D fl bs bo s' (L(node_addr B D ?x \<mapsto> n))"
      unfolding buddy_inv_def e using g ctx 2(2,6) T' d' ui(2) by blast
    then have "alloc_post (buddy_inv B D fl bs bo) (buddy_heap B D fl bs bo) L n s (node_addr B D ?x) s'"
      using node_frame_kept [OF 2(7) us frU(2)] ui(1) node_addr_props(1) [OF x]
      by (simp add: alloc_post_def)
    with 2(1,8) show ?thesis by blast
  qed
qed

lemma buddy_free_law:
  assumes J: "buddy_inv B D fl bs bo s L" and p: "L p = Some n"
  shows "\<exists>s'. buddy_free_fn p n s = Some ((), s') \<and> env s' = env s \<and>
    free_post (buddy_inv B D fl bs bo) (buddy_heap B D fl bs bo) L p s s'"
proof -
  obtain F U where g: "buddy_mem B D fl bs bo" and ctx: "buddy_ctx_ok B D fl bs bo (self_ctx s)"
    and R: "buddy_rep B D fl bs (mem s) F" and T: "tiling D (F \<union> U)" and dj: "F \<inter> U = {}"
    and mg: "merged F" and us: "buddy_used B D L U" by (rule buddy_invE [OF J])
  have fr: "frag D U" by (rule tiling_frag [OF T]) simp
  obtain i where i: "(level_of D n, i) \<in> U" "p = node_addr B D (level_of D n, i)" "n \<noteq> 0"
    "unat n \<le> 2 ^ (D + 5)" "level_of D n \<le> D" "node_ok D (level_of D n, i)" by (rule used_block [OF us fr p])
  let ?x = "(level_of D n, i)" and ?l = "level_of D n"
  have pin: "p \<in> region B (buf_bytes D)" "p \<noteq> 0" using buddy_live_in [OF J, of p] p by blast+
  have lev: "bd_max_order (self_ctx s) - block_order (self_ctx s) n = int ?l"
    by (cases rule: level_cases [OF i(3), of D]) (use i(4) block_order_eq [OF ctx, of n] in simp_all)
  have c: "bd_total_size (self_ctx s) = buf_bytes D" "bd_buffer (self_ctx s) = B"
    using ctx by (simp_all add: buddy_ctx_ok_def)
  define s1 where "s1 = ALLOC_POISON p (drop_bit ?l (buf_bytes D)) s"
  define s' where "s' = merge_loop (self_ctx s) (int ?l) (word_of_nat i) s1"
  have run: "buddy_free_fn p n s = Some ((), s')"
    unfolding buddy_free_fn_def contains_eq [OF ctx]
    using pin lev c index_addr(2) [OF i(6)] by (simp add: Let_def s'_def s1_def i(2))
  let ?U = "U - {?x}"
  have T1: "tiling D (insert ?x (F \<union> ?U))" using T i(1) by (simp add: insert_absorb insert_Diff Un_insert_right [symmetric])
  have n1: "?x \<notin> F \<union> ?U" using i(1) dj by blast
  have d1: "F \<inter> ?U = {}" using dj by blast
  have R1: "buddy_rep B D fl bs (mem s1) F" using R by (simp add: s1_def)
  obtain F' where F': "buddy_rep B D fl bs (mem s') F'" "tiling D (F' \<union> ?U)" "F' \<inter> ?U = {}" "merged F'"
    "node_frame B D fl bs bo ?U (mem s1) (mem s')" "env s' = env s1"
    using merge_loop_ok [OF ctx R1 T1 n1 d1 mg] unfolding s'_def Let_def by blast
  have us': "buddy_used B D (L(p := None)) ?U" unfolding i(2) by (rule used_remove [OF us fr i(1)])
  have fr': "frag D ?U" by (rule frag_mono [OF fr]) blast
  have e: "env s' = env s" using F'(6) by (simp add: s1_def)
  then have sc: "self_ctx s' = self_ctx s" by (simp add: self_ctx_def)
  have "buddy_inv B D fl bs bo s' (L(p := None))"
    unfolding buddy_inv_def sc using g ctx F'(1-4) us' by blast
  moreover have "kept (buddy_heap B D fl bs bo) (L(p := None)) (mem s) (mem s')"
    using node_frame_kept [OF F'(5) us' fr'] by (simp add: s1_def)
  ultimately show ?thesis using run e by (auto simp: free_post_def)
qed

lemma buddy_inv_cong:
  assumes J: "buddy_inv B D fl bs bo s L" and sc: "self_ctx s' = self_ctx s"
    and w: "\<And>a. a \<in> buddy_heap B D fl bs bo \<Longrightarrow> a \<notin> live L \<Longrightarrow> mem s' a = mem s a"
  shows "buddy_inv B D fl bs bo s' L"
proof -
  obtain F U where g: "buddy_mem B D fl bs bo" and ctx: "buddy_ctx_ok B D fl bs bo (self_ctx s)"
    and R: "buddy_rep B D fl bs (mem s) F" and T: "tiling D (F \<union> U)" and dj: "F \<inter> U = {}"
    and mg: "merged F" and us: "buddy_used B D L U" by (rule buddy_invE [OF J])
  have "buddy_rep B D fl bs (mem s') F" by (rule buddy_client_write [OF R T dj us w])
  then show ?thesis unfolding buddy_inv_def sc using g ctx T dj mg us by blast
qed

lemma buddy_inv_write:
  assumes "buddy_inv B D fl bs bo s L" "env s' = env s"
    "\<And>a. a \<in> buddy_heap B D fl bs bo \<Longrightarrow> a \<notin> live L \<Longrightarrow> mem s' a = mem s a"
  shows "buddy_inv B D fl bs bo s' L"
  by (rule buddy_inv_cong [OF assms(1) _ assms(3)]) (simp_all add: self_ctx_def assms(2))

lemma buddy_live_ok: "buddy_inv B D fl bs bo s L \<Longrightarrow> live_ok (buddy_heap B D fl bs bo) L"
proof -
  assume J: "buddy_inv B D fl bs bo s L"
  obtain F U where T: "tiling D (F \<union> U)" and us: "buddy_used B D L U" by (rule buddy_invE [OF J])
  show ?thesis by (rule used_live_ok [OF us tiling_frag [OF T]]) simp
qed

lemma buddy_realloc_law:
  assumes J: "buddy_inv B D fl bs bo s L" and p: "L p = Some n" and m: "m \<noteq> 0"
  shows "\<exists>q s'. buddy_realloc_fn p n m s = Some (q, s') \<and> env s' = env s \<and>
    realloc_post (buddy_inv B D fl bs bo) (buddy_heap B D fl bs bo) L p n m s q s'"
proof -
  have ctx: "buddy_ctx_ok B D fl bs bo (self_ctx s)" by (rule buddy_invE [OF J])
  have pin: "p \<in> region B (buf_bytes D)" "p \<noteq> 0" using buddy_live_in [OF J, of p] p by blast+
  have cs: "(if n < m then n else m) = min n m" by (auto simp: min_def)
  have run: "buddy_realloc_fn p n m s = do {
       (new_ptr, s) \<leftarrow> buddy_alloc_fn m s;
       if new_ptr = NULL then Some (NULL, s)
       else do {
         (_, s) \<leftarrow> allo_memcpy new_ptr p (min n m) s;
         (_, s) \<leftarrow> buddy_free_fn p n s;
         Some (new_ptr, s)
       } }"
    unfolding buddy_realloc_fn_def contains_eq [OF ctx] cs Let_def using pin m by simp
  obtain q t where q: "buddy_alloc_fn m s = Some (q, t)" "env t = env s"
    and post: "alloc_post (buddy_inv B D fl bs bo) (buddy_heap B D fl bs bo) L m s q t"
    using buddy_alloc_law [OF J] by blast
  show ?thesis
  proof (cases "q = 0")
    case True
    with run q post show ?thesis by (auto simp: alloc_post_def realloc_post_def)
  next
    case False
    with post have It: "buddy_inv B D fl bs bo t (L(q \<mapsto> m))" by (simp add: alloc_post_def)
    have k: "unat (min n m) \<le> unat n" "unat (min n m) \<le> unat m" by (simp_all add: min_def word_le_nat_alt)
    obtain t' where t': "allo_memcpy q p (min n m) t = Some (q, t')"
      "buddy_inv B D fl bs bo t' (L(q \<mapsto> m))" "env t' = env t"
      "kept (buddy_heap B D fl bs bo) L (mem s) (mem t')" "same_bytes (mem s) p (mem t') q (min n m)" "q \<notin> dom L"
      by (rule copy_fresh [OF p buddy_live_ok [OF J] post False buddy_live_ok [OF It]
            buddy_inv_write [OF It] k])
    have ne: "q \<noteq> p" using t'(6) p by auto
    then have pq: "(L(q \<mapsto> m)) p = Some n" using p by simp
    obtain u where u: "buddy_free_fn p n t' = Some ((), u)" "env u = env t'"
      "free_post (buddy_inv B D fl bs bo) (buddy_heap B D fl bs bo) (L(q \<mapsto> m)) p t' u"
      using buddy_free_law [OF t'(2) pq] by blast
    have "realloc_post (buddy_inv B D fl bs bo) (buddy_heap B D fl bs bo) L p n m s q u"
      by (rule realloc_moved_free [OF p t'(6,4,5) False ne live_okD(1) [OF buddy_live_ok [OF It], of q m] u(3)]) simp
    then show ?thesis using run q t'(1,3) u(1,2) False by auto
  qed
qed

end

end
