(* ===== verification/BuddyContract.thy ===== *)
theory BuddyContract
  imports BuddyProof
begin

text \<open>
  The buddy allocator meets the contract; when every block has been given back the buffer is one
  free block again; the factory sets up a valid allocator or gives everything back to the child,
  and the destroy function returns what the factory took.
\<close>

section \<open>The contract\<close>

lemma buddy_geometry: "buddy_inv B D fl bs bo s L \<Longrightarrow> buddy_mem B D fl bs bo"
  by (simp add: buddy_inv_def)

interpretation buddy: exact_allocator buddy_allo "buddy_inv B D fl bs bo" "buddy_heap B D fl bs bo" "2 ^ 63"
  for B D fl bs bo
proof unfold_locales
  show "(2 :: nat) ^ 63 \<le> 2 ^ 63" by simp
next
  fix s :: "'a buddy_machine" and L :: live_map and n m :: size_t and p :: ptr
  assume J: "buddy_inv B D fl bs bo s L"
  note g = buddy_geometry [OF J]
  have ctx: "buddy_ctx_ok B D fl bs bo (self_ctx s)" by (rule buddy_invE [OF J])
  show "live_ok (buddy_heap B D fl bs bo) L" by (rule buddy_mem.buddy_live_ok [OF g J])
  show "buddy_inv B D fl bs bo s' L" if "env s' = env s"
    "\<And>x. x \<in> buddy_heap B D fl bs bo \<Longrightarrow> x \<notin> live L \<Longrightarrow> mem s' x = mem s x" for s'
    using buddy_mem.buddy_inv_write [OF g J that] .
  show "\<exists>p s'. vt_alloc buddy_allo n s = Some (p, s') \<and>
      alloc_post (buddy_inv B D fl bs bo) (buddy_heap B D fl bs bo) L n s p s'"
    using buddy_mem.buddy_alloc_law [OF g J, of n] by (auto simp: buddy_allo_def)
  show "\<exists>q s'. vt_realloc buddy_allo p n m s = Some (q, s') \<and>
      realloc_post (buddy_inv B D fl bs bo) (buddy_heap B D fl bs bo) L p n m s q s'"
    if "L p = Some n" "m \<noteq> 0"
    using buddy_mem.buddy_realloc_law [OF g J that] by (auto simp: buddy_allo_def)
  show "\<exists>s'. vt_free_mem buddy_allo p n s = Some ((), s') \<and>
      free_post (buddy_inv B D fl bs bo) (buddy_heap B D fl bs bo) L p s s'" if "L p = Some n"
    using buddy_mem.buddy_free_law [OF g J that] by (auto simp: buddy_allo_def)
  show "\<exists>s'. vt_free_mem buddy_allo NULL n s = Some ((), s') \<and> buddy_inv B D fl bs bo s' L \<and>
      kept (buddy_heap B D fl bs bo) L (mem s) (mem s')"
    using J by (simp add: buddy_allo_def buddy_free_fn_def)
  have "p \<in> dom L \<Longrightarrow> p \<in> region B (buf_bytes D)" by (rule buddy_mem.buddy_live_in(1) [OF g J])
  then show "\<exists>r. allo_contains buddy_allo p s = Some (r, s) \<and> (p \<in> dom L \<longrightarrow> r \<noteq> ALLO_CONTAINS_NO) \<and>
      (r = ALLO_CONTAINS_YES \<longrightarrow> p \<in> buddy_heap B D fl bs bo)"
    by (auto simp: allo_contains_def buddy_allo_def buddy_mem.contains_eq [OF g ctx] buddy_heap_def)
  show "allo_contains buddy_allo p s \<noteq> Some (ALLO_CONTAINS_UNKNOWN, s)"
    by (simp add: allo_contains_def buddy_allo_def buddy_mem.contains_eq [OF g ctx])
qed

section \<open>Nothing in use: one free block\<close>

lemma buddy_all_free:
  assumes J: "buddy_inv B D fl bs bo s Map.empty"
  shows "buddy_rep B D fl bs (mem s) {(0, 0)}"
proof -
  obtain F U where R: "buddy_rep B D fl bs (mem s) F" and T: "tiling D (F \<union> U)"
    and mg: "merged F" and us: "buddy_used B D Map.empty U" by (rule buddy_invE [OF J])
  have "U = {}" using us by (auto simp: buddy_used_def)
  then have "F = {(0, 0)}" using merged_tiling_root [of D F] T mg by simp
  with R show ?thesis by simp
qed

lemma buddy_empty_alloc:
  assumes J: "buddy_inv B D fl bs bo s Map.empty" and n: "n \<noteq> 0" "unat n \<le> 2 ^ (D + 5)"
  shows "\<exists>i s'. buddy_alloc_fn n s = Some (node_addr B D (level_of D n, i), s') \<and>
    node_addr B D (level_of D n, i) \<noteq> 0 \<and> i < 2 ^ level_of D n"
proof -
  note g = buddy_geometry [OF J]
  have ctx: "buddy_ctx_ok B D fl bs bo (self_ctx s)" by (rule buddy_invE [OF J])
  have T: "tiling D ({(0, 0)} \<union> {})" using tiling_root by simp
  have mg: "merged {(0, 0)}" by (simp add: merged_def)
  show ?thesis
  proof (cases rule: buddy_mem.buddy_alloc_rep [OF g ctx buddy_all_free [OF J] T Int_empty_right mg n(1)])
    case 1
    then show ?thesis using n(2) by (auto dest: spec [of _ 0])
  next
    case (2 i F' s')
    have "node_ok D (level_of D n, i)" using tiling_node [OF 2(3)] by simp
    with 2(1) buddy_mem.node_addr_props(1) [OF g] show ?thesis by (auto simp: node_ok_def)
  qed
qed

lemma buddy_whole_buffer:
  assumes J: "buddy_inv B D fl bs bo s Map.empty"
  shows "\<exists>s'. buddy_alloc_fn (buf_bytes D) s = Some (B, s')"
proof -
  note g = buddy_geometry [OF J]
  have u: "unat (buf_bytes D) = 2 ^ (D + 5)" by (rule buddy_mem.unat_bytes(1) [OF g])
  have n: "buf_bytes D \<noteq> 0" using u by (metis power_not_zero unat_0 zero_neq_numeral)
  have "\<not> get_order (buf_bytes D) \<le> int (D + 4)" using get_order_le_iff [OF n, of "D + 4"] u by simp
  then have l: "level_of D (buf_bytes D) = 0" by (simp add: level_of_def)
  show ?thesis
    using buddy_empty_alloc [OF J n] u l by (auto simp: node_addr_def)
qed

text \<open>The blocks of a list given back one after the other.\<close>

primrec buddy_free_all :: "(ptr \<times> size_t) list \<Rightarrow> 'e buddy_machine \<Rightarrow> (unit \<times> 'e buddy_machine) option" where
  "buddy_free_all [] s = Some ((), s)"
| "buddy_free_all (b # blks) s = do {
     (_, s) \<leftarrow> buddy_free_fn (fst b) (snd b) s;
     buddy_free_all blks s
   }"

lemma buddy_free_all_ok:
  "buddy_inv B D fl bs bo s (map_of blks) \<Longrightarrow> distinct (map fst blks) \<Longrightarrow>
    \<exists>s'. buddy_free_all blks s = Some ((), s') \<and> buddy_inv B D fl bs bo s' Map.empty"
proof (induction blks arbitrary: s)
  case Nil
  then show ?case by simp
next
  case (Cons b blks)
  have rest: "(map_of (b # blks))(fst b := None) = map_of blks"
    using Cons.prems(2) map_of_eq_None_iff [of blks "fst b"] by (cases b) (simp add: fun_upd_idem)
  have at: "map_of (b # blks) (fst b) = Some (snd b)" by simp
  from buddy_mem.buddy_free_law [OF buddy_geometry [OF Cons.prems(1)] Cons.prems(1) at]
  obtain s1 where s1: "buddy_free_fn (fst b) (snd b) s = Some ((), s1)" "buddy_inv B D fl bs bo s1 (map_of blks)"
    unfolding free_post_def rest by blast
  with Cons.IH [OF s1(2)] Cons.prems(2) show ?case by simp
qed

section \<open>When a request fails\<close>

text \<open>A leaf two nodes share is memory they share.\<close>

lemma node_mem_meet:
  assumes g: "buddy_mem B D fl bs bo" and x: "node_ok D x" and j: "j \<in> leaves D x" "j \<in> leaves D y"
  shows "node_mem B D x \<inter> node_mem B D y \<noteq> {}"
proof -
  have D: "D \<le> 57" and B: "unat B + 2 ^ (D + 5) < 2 ^ 64" using g by (simp_all add: buddy_mem_def)
  have "j < (snd x + 1) * 2 ^ (D - fst x)" using j(1) leaves_bounds [of j D "fst x" "snd x"] by simp
  also have "\<dots> \<le> 2 ^ D" using buddy_mem.node_end(1) [OF g, of "fst x" "snd x"] x by simp
  finally have j32: "32 * j < 2 ^ (D + 5)" by (simp add: power_add)
  then have u: "unat (word_of_nat (32 * j) :: size_t) = 32 * j"
    using B by (intro unat_of_nat64) linarith
  have "unat (B + word_of_nat (32 * j)) = unat B + 32 * j"
    using j32 B u by (subst unat_add64) simp_all
  then have "B + word_of_nat (32 * j) \<in> node_mem B D x \<inter> node_mem B D y"
    using j by (simp add: node_mem_def)
  then show ?thesis by blast
qed

lemma buddy_alloc_fail:
  assumes J: "buddy_inv B D fl bs bo s L" and n: "n \<noteq> 0" "unat n \<le> 2 ^ (D + 5)"
    and null: "buddy_alloc_fn n s = Some (NULL, s')" and i: "i < 2 ^ level_of D n"
  shows "\<exists>p m x. L p = Some m \<and> p = node_addr B D x \<and> fst x = level_of D m \<and>
    node_mem B D x \<inter> node_mem B D (level_of D n, i) \<noteq> {}"
proof (rule ccontr)
  assume none: "\<not> ?thesis"
  note g = buddy_geometry [OF J]
  obtain F U where ctx: "buddy_ctx_ok B D fl bs bo (self_ctx s)" and R: "buddy_rep B D fl bs (mem s) F"
    and T: "tiling D (F \<union> U)" and dj: "F \<inter> U = {}" and mg: "merged F" and us: "buddy_used B D L U"
    by (rule buddy_invE [OF J])
  have ok: "node_ok D (level_of D n, i)" using i by (simp add: node_ok_def level_of_def)
  have free: "leaves D x \<inter> leaves D (level_of D n, i) = {}" if x: "x \<in> U" for x
  proof -
    obtain m where m: "L (node_addr B D x) = Some m" "level_of D m = fst x"
      using us x unfolding buddy_used_def by blast
    have "node_ok D x" using tiling_node [OF T, of x] x by simp
    then show ?thesis using node_mem_meet [OF g, of x _ "(level_of D n, i)"] m none by fastforce
  qed
  obtain l' where l': "l' \<le> level_of D n" "(l', i div 2 ^ (level_of D n - l')) \<in> F"
    using merged_free_node [OF T mg ok free] by blast
  show False
  proof (cases rule: buddy_mem.buddy_alloc_rep [OF g ctx R T dj mg n(1)])
    case 1
    then show False using l' n(2) by auto
  next
    case (2 j F' s'')
    have "node_ok D (level_of D n, j)" using tiling_node [OF 2(3)] by simp
    then have "node_addr B D (level_of D n, j) \<noteq> 0" by (rule buddy_mem.node_addr_props(1) [OF g])
    with 2(1) null show False by simp
  qed
qed

text \<open>While all live blocks are of one size, a request of that size fails only when all are in use.\<close>

lemma node_addr_inj:
  assumes g: "buddy_mem B D fl bs bo" and l: "l \<le> D"
  shows "inj_on (\<lambda>i. node_addr B D (l, i)) {..<2 ^ l}"
proof (rule inj_onI)
  fix i j assume ij: "i \<in> {..<2 ^ l}" "j \<in> {..<2 ^ l}" and eq: "node_addr B D (l, i) = node_addr B D (l, j)"
  have ok: "node_ok D (l, i)" "node_ok D (l, j)" using ij l by (simp_all add: node_ok_def)
  have "unat B + 32 * (i * 2 ^ (D - l)) = unat B + 32 * (j * 2 ^ (D - l))"
    unfolding buddy_mem.unat_node_addr [OF g ok(1), symmetric] buddy_mem.unat_node_addr [OF g ok(2), symmetric] eq
    by (rule refl)
  then show "i = j" by simp
qed

lemma buddy_uniform_alloc:
  assumes J: "buddy_inv B D fl bs bo s L" and n: "n \<noteq> 0" "unat n \<le> 2 ^ (D + 5)"
    and same: "\<And>p m. L p = Some m \<Longrightarrow> level_of D m = level_of D n" and card: "card (dom L) < 2 ^ level_of D n"
  shows "\<exists>p s'. buddy_alloc_fn n s = Some (p, s') \<and> p \<noteq> NULL"
proof -
  note g = buddy_geometry [OF J]
  let ?l = "level_of D n"
  have lD: "?l \<le> D" by (simp add: level_of_def)
  obtain p s' where r: "buddy_alloc_fn n s = Some (p, s')"
    using buddy_mem.buddy_alloc_law [OF g J, of n] by blast
  have "p \<noteq> NULL"
  proof
    assume null: "p = NULL"
    have "node_addr B D (?l, i) \<in> dom L" if i: "i < 2 ^ ?l" for i
    proof -
      obtain q m x where q: "L q = Some m" "q = node_addr B D x" "fst x = level_of D m"
        "node_mem B D x \<inter> node_mem B D (?l, i) \<noteq> {}"
        using buddy_alloc_fail [OF J n r [unfolded null] i] by blast
      have "fst x = ?l" using q(1,3) same by simp
      moreover from this have "snd x = i" using q(4) by (auto simp: node_mem_def leaves_def)
      ultimately have "x = (?l, i)" by (simp add: prod_eq_iff)
      then show ?thesis using q(1,2) by blast
    qed
    then have "(\<lambda>i. node_addr B D (?l, i)) ` {..<2 ^ ?l} \<subseteq> dom L" by blast
    moreover have "finite (dom L)" by simp
    ultimately have "card ((\<lambda>i. node_addr B D (?l, i)) ` {..<2 ^ ?l}) \<le> card (dom L)" by (intro card_mono)
    then show False using card card_image [OF node_addr_inj [OF g lD]] by simp
  qed
  with r show ?thesis by blast
qed

text \<open>With the whole buffer in use every request fails.\<close>

lemma buddy_full_fails:
  assumes J: "buddy_inv B D fl bs bo s [B \<mapsto> buf_bytes D]"
  shows "\<exists>s'. buddy_alloc_fn n s = Some (NULL, s')"
proof -
  note g = buddy_geometry [OF J]
  obtain p s' where r: "buddy_alloc_fn n s = Some (p, s')"
    and post: "alloc_post (buddy_inv B D fl bs bo) (buddy_heap B D fl bs bo) [B \<mapsto> buf_bytes D] n s p s'"
    using buddy_mem.buddy_alloc_law [OF g J, of n] by blast
  have "p = NULL"
  proof (rule ccontr)
    assume "p \<noteq> NULL"
    with post have p: "p \<notin> dom [B \<mapsto> buf_bytes D]"
      and I: "buddy_inv B D fl bs bo s' [B \<mapsto> buf_bytes D, p \<mapsto> n]"
      by (simp_all add: alloc_post_def)
    note l = buddy_mem.buddy_live_ok [OF g I]
    have "p \<in> region B (buf_bytes D)" by (rule buddy_mem.buddy_live_in(1) [OF g I]) simp
    then have "p \<in> live [B \<mapsto> buf_bytes D]" by (simp add: live_def)
    moreover have "p \<in> region p n"
      using live_okD(1) [OF l, of p n] by (intro region_self) (simp add: block_ok_def)
    ultimately show False using live_ok_fresh [OF l p] by blast
  qed
  with r show ?thesis by blast
qed

section \<open>Rounding the size up\<close>

lemma round_up_power:
  assumes n: "n \<noteq> 0" "unat n \<le> 2 ^ 63" and j: "j \<le> bit_len (unat n - 1)"
  shows "round_up_loop (2 ^ j) n = Some (2 ^ bit_len (unat n - 1))"
  using j
proof (induction "bit_len (unat n - 1) - j" arbitrary: j)
  case 0
  let ?k = "bit_len (unat n - 1)"
  have "unat n - 1 < 2 ^ 63" using n(2) unat_pos64 [OF n(1)] by linarith
  then have k: "?k \<le> 63" by (simp only: bit_len_le_iff)
  have "unat n - 1 < 2 ^ ?k" by (rule bit_len_bound)
  then have "\<not> (2 ^ ?k :: size_t) < n" using k by (simp add: word_less_nat_alt unat_pow64)
  with 0 show ?case by (simp add: round_up_loop.simps)
next
  case (Suc d)
  let ?k = "bit_len (unat n - 1)"
  have jk: "j < ?k" using Suc.hyps(2) by simp
  have "unat n - 1 < 2 ^ 63" using n(2) unat_pos64 [OF n(1)] by linarith
  then have k: "?k \<le> 63" by (simp only: bit_len_le_iff)
  have "\<not> unat n - 1 < 2 ^ j" using jk bit_len_le_iff [of "unat n - 1" j] by simp
  then have "2 ^ j < unat n" using unat_pos64 [OF n(1)] by linarith
  then have lt: "(2 ^ j :: size_t) < n" using jk k by (simp add: word_less_nat_alt unat_pow64)
  have "round_up_loop (2 ^ j) n = round_up_loop (2 ^ Suc j) n"
    using lt by (subst round_up_loop.simps) (simp add: push_bit_eq_mult mult.commute)
  also have "\<dots> = Some (2 ^ ?k)" by (rule Suc.hyps(1)) (use Suc.hyps(2) jk in simp_all)
  finally show ?case .
qed

lemma round_up_ok:
  assumes "n \<noteq> 0" "unat n \<le> 2 ^ 63"
  shows "round_up_loop 1 n = Some (2 ^ nat (get_order n))"
  using round_up_power [OF assms, of 0] by (simp add: get_order_bit_len [OF assms(1)])

text \<open>For larger sizes the shifted value becomes zero and the loop does not end.\<close>

lemma round_up_result:
  assumes ret: "round_up_loop a n = Some r"
  shows "(\<exists>j. a = push_bit j 1) \<longrightarrow> (\<exists>j. r = push_bit j 1) \<and> \<not> r < n"
proof (rule round_up_loop.raw_induct
    [where P = "\<lambda>a n r. (\<exists>j. a = push_bit j 1) \<longrightarrow> (\<exists>j. r = push_bit j 1) \<and> \<not> r < n", OF _ ret])
  fix f :: "size_t \<Rightarrow> size_t \<Rightarrow> size_t option" and a n r :: size_t
  assume IH: "\<And>a n r. f a n = Some r \<Longrightarrow>
      (\<exists>j. a = push_bit j 1) \<longrightarrow> (\<exists>j. r = push_bit j 1) \<and> \<not> r < n"
    and eq: "(if a < n then f (push_bit 1 a) n else Some a) = Some r"
  show "(\<exists>j. a = push_bit j 1) \<longrightarrow> (\<exists>j. r = push_bit j 1) \<and> \<not> r < n"
  proof
    assume "\<exists>j. a = push_bit j 1"
    then obtain j where j: "a = push_bit j 1" by blast
    have "push_bit 1 a = push_bit (Suc j) 1" unfolding j by (simp add: push_bit_push_bit)
    then have step: "\<exists>j. push_bit 1 a = push_bit j 1" by blast
    show "(\<exists>j. r = push_bit j 1) \<and> \<not> r < n"
    proof (cases "a < n")
      case True
      then have "f (push_bit 1 a) n = Some r" using eq by argo
      then show ?thesis using IH step by blast
    next
      case False
      then have "r = a" using eq by simp
      then show ?thesis using False j by blast
    qed
  qed
qed

lemma round_up_diverges:
  assumes "2 ^ 63 < unat n"
  shows "round_up_loop 1 n = None"
proof (rule ccontr)
  assume "round_up_loop 1 n \<noteq> None"
  then obtain r where r: "round_up_loop 1 n = Some r" by blast
  have "(1 :: size_t) = push_bit 0 1" by simp
  then obtain j where j: "r = push_bit j 1" "\<not> r < n" using round_up_result [OF r] by blast
  have "unat r \<le> 2 ^ 63"
  proof (cases "j < 64")
    case True
    then have "unat r = 2 ^ j" using j(1) by (simp add: push_bit_eq_mult unat_pow64)
    moreover have "(2 :: nat) ^ j \<le> 2 ^ 63" using True by (intro power_increasing) simp_all
    ultimately show ?thesis by simp
  next
    case False
    then have "r = 0" unfolding j(1) by (intro bit_word_eqI) (simp add: bit_simps)
    then show ?thesis by simp
  qed
  with assms j(2) show False by (simp add: word_less_nat_alt)
qed

end
