(* ===== verification/BuddyFactory.thy ===== *)
theory BuddyFactory
  imports BuddyContract
begin

text \<open>
  Making and destroying a buddy allocator over any child that meets the contract: the factory
  returns an allocator whose whole buffer is one free block, or gives the child back everything it
  took; the destroy function returns exactly what the factory got.
\<close>

section \<open>Sizes\<close>

lemma get_order_pow: "k < 64 \<Longrightarrow> get_order (2 ^ k) = int k"
proof -
  assume k: "k < 64"
  have n: "(2 ^ k :: size_t) \<noteq> 0" using unat_pow64 [OF k] by (metis power_not_zero unat_0 zero_neq_numeral)
  have "get_order (2 ^ k) \<le> int j \<longleftrightarrow> k \<le> j" for j
    using get_order_le_iff [OF n, of j] unat_pow64 [OF k] by simp
  from this [of k] this [of "nat (get_order (2 ^ k))"] show ?thesis using get_order_nonneg [of "2 ^ k"] by simp
qed

lemma buf_bytes_pow: "buf_bytes D = 2 ^ (D + 5)"
  by (simp add: buf_bytes_def)

lemma metadata_sizes:
  assumes D: "D \<le> 57"
  defines "max_order \<equiv> get_order (buf_bytes D)"
  shows "max_order = int (D + 5)"
    "(word_of_int (max_order - get_order 32 + 1) + 1 :: size_t) = word_of_nat (D + 2)"
    "(word_of_nat (D + 2) :: size_t) * 8 = fl_bytes D" "free_lists_bytes max_order 32 = fl_bytes D"
    "bitset_bytes (buf_bytes D) 32 = bs_bytes D" "buf_bytes D div 32 = bo_bytes D"
proof -
  show mo: "max_order = int (D + 5)" unfolding max_order_def buf_bytes_pow using D by (intro get_order_pow) simp
  have g32: "get_order 32 = 5" using get_order_pow [of 5] by simp
  show cnt: "(word_of_int (max_order - get_order 32 + 1) + 1 :: size_t) = word_of_nat (D + 2)"
    by (simp add: mo g32 algebra_simps)
  show fl: "(word_of_nat (D + 2) :: size_t) * 8 = fl_bytes D" by (simp add: fl_bytes_def algebra_simps)
  show "free_lists_bytes max_order 32 = fl_bytes D"
    unfolding free_lists_bytes_def Let_def cnt fl ..
  have b: "unat (buf_bytes D) = 2 ^ (D + 5)" unfolding buf_bytes_pow using D by (intro unat_pow64) simp
  have le: "(2 :: nat) ^ D \<le> 2 ^ 57" using D by (intro power_increasing) simp_all
  show bo: "buf_bytes D div 32 = bo_bytes D"
    using D by (simp add: word_eq_iff_unat unat_div b bo_bytes_def unat_pow64 power_add)
  have "unat (bo_bytes D) = 2 ^ D" unfolding bo_bytes_def using le by (intro unat_of_nat64) simp
  then have "unat (bo_bytes D * 2 + 7) = 2 ^ (D + 1) + 7"
    using le by (simp add: unat_add64 unat_mult64)
  moreover have "(2 ^ (D + 1) + 7) div 8 < (2 :: nat) ^ 64" using le by (simp add: div_less_iff_less_mult)
  ultimately show "bitset_bytes (buf_bytes D) 32 = bs_bytes D"
    by (simp add: bitset_bytes_def bo word_eq_iff_unat unat_div bs_bytes_def unat_of_nat64)
qed

lemma metadata_small:
  assumes "D \<le> 57" "2 ^ (D + 5) < lim"
  shows "8 * (D + 2) < lim" "(2 ^ (D + 1) + 7) div 8 < lim" "2 ^ D < lim"
proof -
  define k :: nat where "k = 2 ^ D"
  have "D < k" "1 \<le> k" by (simp_all add: k_def)
  then have "8 * (D + 2) \<le> 32 * k" by simp
  then have "8 * (D + 2) \<le> 2 ^ (D + 5)" by (simp add: k_def power_add)
  then show "8 * (D + 2) < lim" using assms(2) by simp
  show "(2 ^ (D + 1) + 7) div 8 < lim" "2 ^ D < lim" using assms(2) by (simp_all add: power_add)
qed

section \<open>Empty metadata\<close>

lemma load64_zero:
  assumes "unat p + 8 \<le> 2 ^ 64" "\<And>x. x \<in> region p 8 \<Longrightarrow> m x = 0"
  shows "load64 m p = 0"
proof -
  have "load64 m p = load64 (\<lambda>_. 0) p" using assms by (intro load64_cong) simp_all
  then show ?thesis by (simp add: load64_def)
qed

context buddy_mem
begin

lemma empty_rep:
  assumes fl: "\<And>x. x \<in> region fl (fl_bytes D) \<Longrightarrow> m x = 0"
    and bs: "\<And>x. x \<in> region bs (bs_bytes D) \<Longrightarrow> m x = 0"
  shows "buddy_rep B D fl bs m {}"
proof -
  have "load64 m (free_list fl (int l)) = 0" if "l \<le> D" for l
    using slot_props(3,4) [OF that] fl by (intro load64_zero) auto
  then have "lists_rep B D fl m {}" by (auto simp: lists_rep_def intro: exI [of _ "[]"])
  moreover have "bits_rep D bs m {}"
    using bit_byte bs by (auto simp: bits_rep_def get_bit_iff)
  ultimately show ?thesis by (simp add: buddy_rep_def)
qed

lemma first_block:
  assumes R: "buddy_rep B D fl bs (mem s) {}" and ctx: "buddy_ctx_ok B D fl bs bo c"
  defines "t \<equiv> set_bit bs (node_index 0 0) (list_push fl 0 B s)"
  shows "buddy_inv B D fl bs bo (with_child c (ALLOC_UNPOISON B 16 (ALLOC_POISON B n t))) Map.empty"
    "node_frame B D fl bs bo {} (mem s) (mem t)" "env t = env s"
proof -
  have root: "node_addr B D (0, 0) = B" by (simp add: node_addr_def)
  have fr: "frag D (insert (0, 0) ({} \<union> {}))" by (rule tiling_frag [OF tiling_root]) simp
  note ins = rep_insert [OF R fr, unfolded root, simplified]
  have "buddy_rep B D fl bs (mem t) {(0, 0)}" using ins(1) by (simp add: t_def)
  moreover have "merged {(0, 0)}" by (simp add: merged_def)
  moreover have "tiling D ({(0, 0)} \<union> {})" using tiling_root by simp
  moreover have "buddy_used B D Map.empty {}" by (simp add: buddy_used_def)
  ultimately show "buddy_inv B D fl bs bo (with_child c (ALLOC_UNPOISON B 16 (ALLOC_POISON B n t))) Map.empty"
    using ctx buddy_mem_axioms unfolding buddy_inv_def
    by (intro conjI exI [of _ "{(0, 0)}"] exI [of _ "{}"]) simp_all
  show "node_frame B D fl bs bo {} (mem s) (mem t)" "env t = env s"
    using ins(3,5) by (simp_all add: t_def)
qed

end

section \<open>Over a child\<close>

text \<open>What the allocator holds at its child: the three metadata blocks, and the buffer if it owns it.\<close>

definition buddy_grants :: "bool \<Rightarrow> ptr \<Rightarrow> nat \<Rightarrow> ptr \<Rightarrow> ptr \<Rightarrow> ptr \<Rightarrow> live_map \<Rightarrow> live_map" where
  "buddy_grants own B D fl bs bo F =
     (if own then F(B \<mapsto> buf_bytes D) else F)(fl \<mapsto> fl_bytes D, bs \<mapsto> bs_bytes D, bo \<mapsto> bo_bytes D)"

definition buddy_backed ::
  "'e allo \<Rightarrow> ('e machine \<Rightarrow> live_map \<Rightarrow> bool) \<Rightarrow> live_map \<Rightarrow> ptr \<Rightarrow> nat \<Rightarrow> ptr \<Rightarrow> ptr \<Rightarrow> ptr \<Rightarrow>
     'e buddy_machine \<Rightarrow> bool" where
  "buddy_backed c cinv F B D fl bs bo s \<longleftrightarrow>
     cinv (child_state s) (buddy_grants (bd_own_buffer (self_ctx s)) B D fl bs bo F) \<and>
     bd_child (self_ctx s) = c \<and> buddy_ctx_ok B D fl bs bo (self_ctx s) \<and> D \<le> 57 \<and>
     B \<noteq> 0 \<and> fl \<noteq> 0 \<and> bs \<noteq> 0 \<and> bo \<noteq> 0 \<and> fl \<notin> dom F \<and> bs \<notin> dom F \<and> bo \<notin> dom F \<and>
     distinct [fl, bs, bo] \<and> (bd_own_buffer (self_ctx s) \<longrightarrow> B \<notin> dom F \<and> B \<notin> {fl, bs, bo})"

context allocator
begin

lemma free_granted:
  assumes "Inv s G" "G p = Some n"
  obtains s' where "allo_free a p n s = Some ((), s')" "Inv s' (G(p := None))"
  using free_ok [OF assms] that by blast

lemma free_fresh:
  assumes "Inv s (G(p \<mapsto> n))" "p \<notin> dom G"
  obtains s' where "allo_free a p n s = Some ((), s')" "Inv s' G"
proof (rule free_granted [OF assms(1) fun_upd_same])
  fix s' assume "allo_free a p n s = Some ((), s')" "Inv s' ((G(p \<mapsto> n))(p := None))"
  moreover have "(G(p \<mapsto> n))(p := None) = G" using assms(2) by (auto simp: fun_eq_iff)
  ultimately show thesis using that by simp
qed

text \<open>Destroying gives back buffer, lists, bits and orders, in this order.\<close>

lemma buddy_destroy_ok:
  assumes b: "buddy_backed a Inv F B D fl bs bo s"
  obtains s' where "buddy_destroy_fn s = Some ((), s')" "Inv (child_state s') F"
proof -
  let ?ctx = "self_ctx s" and ?own = "bd_own_buffer (self_ctx s)"
  let ?G = "buddy_grants ?own B D fl bs bo F"
  have I: "Inv (child_state s) ?G" and ctx: "buddy_ctx_ok B D fl bs bo ?ctx" "bd_child ?ctx = a"
    and nz: "B \<noteq> 0" "fl \<noteq> 0" "bs \<noteq> 0" "bo \<noteq> 0" and D: "D \<le> 57"
    and fr: "fl \<notin> dom F" "bs \<notin> dom F" "bo \<notin> dom F" "fl \<noteq> bs" "fl \<noteq> bo" "bs \<noteq> bo"
    and own: "?own \<Longrightarrow> B \<notin> dom F \<and> B \<notin> {fl, bs, bo}"
    using b by (auto simp: buddy_backed_def)
  define G1 where "G1 = F(fl \<mapsto> fl_bytes D, bs \<mapsto> bs_bytes D, bo \<mapsto> bo_bytes D)"
  obtain t1 where t1: "(if ?own then allo_free a B (buf_bytes D) (child_state s) else Some ((), child_state s)) = Some ((), t1)"
    "Inv t1 G1"
  proof (cases ?own)
    case True
    note B = own [OF True]
    have "?G B = Some (buf_bytes D)" using B True by (simp add: buddy_grants_def)
    then obtain t1 where t1: "allo_free a B (buf_bytes D) (child_state s) = Some ((), t1)" "Inv t1 (?G(B := None))"
      by (rule free_granted [OF I])
    have "(?G(B := None)) x = G1 x" for x
      using B True by (cases "x = B") (auto simp: buddy_grants_def G1_def)
    then have "?G(B := None) = G1" by (rule ext)
    with t1 True show thesis by (intro that [of t1]) simp_all
  next
    case False
    then show thesis using I by (intro that [of "child_state s"]) (simp_all add: buddy_grants_def G1_def)
  qed
  have h: "G1 fl = Some (fl_bytes D)" "(G1(fl := None)) bs = Some (bs_bytes D)"
    "(G1(fl := None, bs := None)) bo = Some (bo_bytes D)"
    using fr(4-6) by (simp_all add: G1_def)
  obtain t2 where t2: "allo_free a fl (fl_bytes D) t1 = Some ((), t2)" "Inv t2 (G1(fl := None))"
    by (rule free_granted [OF t1(2) h(1)])
  obtain t3 where t3: "allo_free a bs (bs_bytes D) t2 = Some ((), t3)" "Inv t3 (G1(fl := None, bs := None))"
    by (rule free_granted [OF t2(2) h(2)])
  obtain t4 where t4: "allo_free a bo (bo_bytes D) t3 = Some ((), t4)"
    "Inv t4 (G1(fl := None, bs := None, bo := None))"
    by (rule free_granted [OF t3(2) h(3)])
  have "(G1(fl := None, bs := None, bo := None)) x = F x" for x
    using fr by (auto simp: G1_def)
  then have "G1(fl := None, bs := None, bo := None) = F" by (rule ext)
  with t4 have I4: "Inv t4 F" by simp
  note sz = metadata_sizes [OF D]
  have c: "bd_buffer ?ctx = B" "bd_total_size ?ctx = buf_bytes D" "bd_min_block_size ?ctx = 32"
    "bd_max_order ?ctx = get_order (buf_bytes D)" "bd_free_lists ?ctx = fl" "bd_bitset ?ctx = bs"
    "bd_block_orders ?ctx = bo"
    using ctx sz(1) by (simp_all add: buddy_ctx_ok_def)
  have "buddy_destroy_fn s = Some ((), with_child ?ctx t4)"
    using t1(1) t2(1) t3(1) t4(1)
    by (cases ?own) (simp_all add: buddy_destroy_fn_def c ctx(2) nz sz(4-6) call_child_def)
  with I4 show thesis by (intro that [of "with_child ?ctx t4"]) simp_all
qed

section \<open>The factory\<close>

text \<open>The buffer is given back when the metadata cannot be had.\<close>

lemma drop_buffer:
  assumes "Inv s (if own then F(B \<mapsto> n) else F)" "own \<Longrightarrow> B \<notin> dom F"
  obtains s' where "(if own then allo_free a B n s else Some ((), s)) = Some ((), s')" "Inv s' F"
proof (cases own)
  case True
  then obtain s' where "allo_free a B n s = Some ((), s')" "Inv s' F"
    using assms free_fresh [of s F B n] by auto
  with True show thesis by (intro that [of s']) simp_all
next
  case False
  with assms(1) show thesis by (intro that [of s]) simp_all
qed

text \<open>Three zeroed blocks, apart from the buffer and from each other.\<close>

lemma metadata_mem:
  assumes B: "B \<noteq> 0" "8 dvd unat B" "unat B + 2 ^ (D + 5) < 2 ^ 64" "region B (buf_bytes D) \<inter> heap \<subseteq> live G"
    and D: "D \<le> 57"
    and L: "live_ok heap (G(fl \<mapsto> fl_bytes D, bs \<mapsto> bs_bytes D, bo \<mapsto> bo_bytes D))"
    and fr: "fl \<notin> dom G" "bs \<notin> dom (G(fl \<mapsto> fl_bytes D))" "bo \<notin> dom (G(fl \<mapsto> fl_bytes D, bs \<mapsto> bs_bytes D))"
  shows "buddy_mem B D fl bs bo"
proof -
  let ?L = "G(fl \<mapsto> fl_bytes D, bs \<mapsto> bs_bytes D, bo \<mapsto> bo_bytes D)"
  have ne: "fl \<noteq> bs" "fl \<noteq> bo" "bs \<noteq> bo" using fr by auto
  have at: "?L fl = Some (fl_bytes D)" "?L bs = Some (bs_bytes D)" "?L bo = Some (bo_bytes D)"
    using ne by simp_all
  note ok = at [THEN live_okD(1) [OF L]] and sub = at [THEN live_okD(2) [OF L]]
  have ap: "region q k \<inter> live G = {}" if "?L q = Some k" "q \<notin> dom G" for q k
  proof -
    have "region q k \<inter> region r n = {}" if r: "G r = Some n" for r n
    proof (rule live_ok_disjoint [OF L \<open>?L q = Some k\<close>])
      show "?L r = Some n" using r fr by auto
      show "q \<noteq> r" using r \<open>q \<notin> dom G\<close> by auto
    qed
    then show ?thesis by (auto simp: live_def)
  qed
  have buf: "region B (buf_bytes D) \<inter> region q k = {}" if "?L q = Some k" "q \<notin> dom G" for q k
    using B(4) ap [OF that] live_okD(2) [OF L that(1)] by blast
  have w: "unat (fl_bytes D) = 8 * (D + 2)" "unat (bs_bytes D) = (2 ^ (D + 1) + 7) div 8" "unat (bo_bytes D) = 2 ^ D"
  proof -
    have le: "(2 :: nat) ^ D \<le> 2 ^ 57" using D by (intro power_increasing) simp_all
    show "unat (fl_bytes D) = 8 * (D + 2)" unfolding fl_bytes_def using D by (intro unat_of_nat64) simp
    show "unat (bs_bytes D) = (2 ^ (D + 1) + 7) div 8"
      unfolding bs_bytes_def using le by (intro unat_of_nat64) (simp add: div_less_iff_less_mult)
    show "unat (bo_bytes D) = 2 ^ D" unfolding bo_bytes_def using le by (intro unat_of_nat64) simp
  qed
  show ?thesis
  proof unfold_locales
    show "D \<le> 57" "B \<noteq> 0" "8 dvd unat B" "unat B + 2 ^ (D + 5) < 2 ^ 64" by fact+
    show "8 dvd unat fl" "unat fl + 8 * (D + 2) < 2 ^ 64" using ok(1) by (simp_all add: block_ok_def w)
    show "unat bs + (2 ^ (D + 1) + 7) div 8 < 2 ^ 64" using ok(2) by (simp only: block_ok_def w)
    show "unat bo + 2 ^ D < 2 ^ 64" using ok(3) by (simp only: block_ok_def w)
    show "region B (buf_bytes D) \<inter> region fl (fl_bytes D) = {}" by (rule buf [OF at(1) fr(1)])
    show "region B (buf_bytes D) \<inter> region bs (bs_bytes D) = {}" using fr(2) by (intro buf [OF at(2)]) auto
    show "region B (buf_bytes D) \<inter> region bo (bo_bytes D) = {}" using fr(3) by (intro buf [OF at(3)]) auto
    show "region fl (fl_bytes D) \<inter> region bs (bs_bytes D) = {}" by (rule live_ok_disjoint [OF L at(1,2) ne(1)])
    show "region fl (fl_bytes D) \<inter> region bo (bo_bytes D) = {}" by (rule live_ok_disjoint [OF L at(1,3) ne(2)])
    show "region bs (bs_bytes D) \<inter> region bo (bo_bytes D) = {}" by (rule live_ok_disjoint [OF L at(2,3) ne(3)])
  qed
qed

lemma buddy_metadata_ok:
  fixes own :: bool
  assumes I: "Inv s (if own then F(B \<mapsto> buf_bytes D) else F)" and own: "own \<Longrightarrow> B \<notin> dom F"
    and B: "B \<noteq> 0" "8 dvd unat B" "unat B + 2 ^ (D + 5) < 2 ^ 64"
      "region B (buf_bytes D) \<inter> heap \<subseteq> live (if own then F(B \<mapsto> buf_bytes D) else F)"
    and D: "D \<le> 57" "2 ^ (D + 5) < lim"
  obtains (nomem) s' where "buddy_metadata a own B (buf_bytes D) s = Some (Inl (ALLO_ERR_NOMEM, s'))" "Inv s' F"
    | (ok) s' fl bs bo where "buddy_metadata a own B (buf_bytes D) s = Some (Inr s')"
      "buddy_inv B D fl bs bo s' Map.empty" "buddy_backed a Inv F B D fl bs bo s'"
      "bd_own_buffer (self_ctx s') = own"
proof -
  let ?G = "if own then F(B \<mapsto> buf_bytes D) else F"
  note sz = metadata_sizes [OF D(1)] and sm = metadata_small [OF D]
  have le: "(2 :: nat) ^ D \<le> 2 ^ 57" using D(1) by (intro power_increasing) simp_all
  have "unat (word_of_nat (D + 2) :: size_t) * unat (8 :: size_t) = 8 * (D + 2)"
    using D(1) by (subst unat_of_nat64) simp_all
  then have u: "unat (word_of_nat (D + 2) :: size_t) * unat (8 :: size_t) < lim" using sm(1) by (simp only:)
  have "unat (bs_bytes D) * unat (1 :: size_t) = (2 ^ (D + 1) + 7) div 8"
    unfolding bs_bytes_def using le by (subst unat_of_nat64) (simp_all add: div_less_iff_less_mult)
  then have u1: "unat (bs_bytes D) * unat (1 :: size_t) < lim" using sm(2) by (simp only:)
  have "unat (bo_bytes D) * unat (1 :: size_t) = 2 ^ D"
    unfolding bo_bytes_def using le by (subst unat_of_nat64) simp_all
  then have u2: "unat (bo_bytes D) * unat (1 :: size_t) < lim" using sm(3) by (simp only:)
  note md = buddy_metadata_def [of a own B "buf_bytes D" s, unfolded Let_def, unfolded sz(2,5,6), unfolded sz(1,3)]
  show thesis
  proof (cases rule: calloc_ok [OF I u])
    case (1 s1)
    obtain s' where "(if own then allo_free a B (buf_bytes D) s1 else Some ((), s1)) = Some ((), s')" "Inv s' F"
      by (rule drop_buffer [OF 1(2) own])
    with 1(1) show ?thesis by (intro nomem [of s']) (simp_all add: md)
  next
    case (2 fl s1)
    note c1 = 2 [unfolded sz(3)]
    let ?G1 = "?G(fl \<mapsto> fl_bytes D)"
    have drop1: thesis if run: "buddy_metadata a own B (buf_bytes D) s = (do {
        (_, s) \<leftarrow> allo_free a fl (fl_bytes D) t;
        (_, s) \<leftarrow> (if own then allo_free a B (buf_bytes D) s else Some ((), s));
        Some (Inl (ALLO_ERR_NOMEM, s)) })" and It: "Inv t ?G1" for t
    proof -
      obtain t1 where t1: "allo_free a fl (fl_bytes D) t = Some ((), t1)" "Inv t1 ?G"
        by (rule free_fresh [OF It c1(3)])
      obtain t2 where "(if own then allo_free a B (buf_bytes D) t1 else Some ((), t1)) = Some ((), t2)" "Inv t2 F"
        by (rule drop_buffer [OF t1(2) own])
      with t1(1) run show thesis by (intro nomem [of t2]) simp_all
    qed
    show ?thesis
    proof (cases rule: calloc_ok [OF c1(4) u1])
      case (1 s2)
      show ?thesis by (rule drop1 [OF _ 1(2)]) (use c1(1,2) 1(1) in \<open>simp add: md\<close>)
    next
      case (2 bs s2)
      note c2 = 2 [unfolded mult_1_right]
      let ?G2 = "?G1(bs \<mapsto> bs_bytes D)"
      show ?thesis
      proof (cases rule: calloc_ok [OF c2(4) u2])
        case (1 s3)
        obtain t where t: "allo_free a bs (bs_bytes D) s3 = Some ((), t)" "Inv t ?G1"
          by (rule free_fresh [OF 1(2) c2(3)])
        show ?thesis by (rule drop1 [OF _ t(2)]) (use c1(1,2) c2(1,2) 1(1) t(1) in \<open>simp add: md\<close>)
      next
        case (2 bo s3)
        note c3 = 2 [unfolded mult_1_right]
        define c where "c = \<lparr>bd_buffer = B, bd_total_size = buf_bytes D, bd_min_block_size = 32,
          bd_max_order = int (D + 5), bd_free_lists = fl, bd_bitset = bs, bd_block_orders = bo,
          bd_own_buffer = own, bd_child = a\<rparr>"
        have ctx: "buddy_ctx_ok B D fl bs bo c" by (simp add: c_def buddy_ctx_ok_def)
        let ?G3 = "?G2(bo \<mapsto> bo_bytes D)"
        have gm: "buddy_mem B D fl bs bo"
          by (rule metadata_mem [OF B D(1) live_inv [OF c3(4)] c1(3) c2(3) c3(3)])
        have z1: "mem s3 x = 0" if "x \<in> region fl (fl_bytes D)" for x
        proof -
          have "x \<in> live ?G1" using that by (intro liveI [of _ fl]) simp_all
          moreover have "x \<in> live ?G2" using that c2(3) by (intro liveI [of _ fl]) auto
          ultimately show ?thesis using c1(7) c2(5) c3(5) that by (simp add: kept_def)
        qed
        have z2: "mem s3 x = 0" if "x \<in> region bs (bs_bytes D)" for x
        proof -
          have "x \<in> live ?G2" using that by (intro liveI [of _ bs]) simp_all
          then show ?thesis using c2(7) c3(5) that by (simp add: kept_def)
        qed
        note R = buddy_mem.empty_rep [OF gm z1 z2]
        define t where "t = Buddy.set_bit bs (node_index 0 0) (list_push fl 0 B s3)"
        note first = buddy_mem.first_block [OF gm R ctx, folded t_def]
        define s' where "s' = with_child c (ALLOC_UNPOISON B 16 (ALLOC_POISON B (buf_bytes D) t))"
        have "Inv (child_state s') ?G3"
        proof (rule client_write [OF c3(4)])
          show "env (child_state s') = env s3" by (simp add: s'_def first(3))
          fix x assume x: "x \<in> heap" "x \<notin> live ?G3"
          have "?G \<subseteq>\<^sub>m ?G3" using c1(3) c2(3) c3(3) by (auto simp: map_le_def)
          then have "live ?G \<subseteq> live ?G3" by (rule live_mono)
          then have "x \<notin> region B (buf_bytes D)" using x B(4) by blast
          moreover have "x \<notin> region fl (fl_bytes D)" "x \<notin> region bs (bs_bytes D)" "x \<notin> region bo (bo_bytes D)"
            using x(2) c2(3) c3(3) liveI [of ?G3 fl] liveI [of ?G3 bs] liveI [of ?G3 bo] by auto
          ultimately have "x \<notin> buddy_heap B D fl bs bo" by (simp add: buddy_heap_def)
          then show "mem (child_state s') x = mem s3 x" using first(2) by (simp add: s'_def node_frame_def)
        qed
        moreover have "buddy_grants own B D fl bs bo F = ?G3" by (simp add: buddy_grants_def)
        moreover have "fl \<notin> dom F" "bs \<notin> dom F" "bo \<notin> dom F" "distinct [fl, bs, bo]"
          "own \<longrightarrow> B \<notin> {fl, bs, bo}"
          using c1(3) c2(3) c3(3) by (auto split: if_splits)
        ultimately have "buddy_backed a Inv F B D fl bs bo s'"
          using ctx own B(1) c1(2) c2(2) c3(2) D(1)
          unfolding buddy_backed_def s'_def by (simp add: c_def)
        moreover have "buddy_metadata a own B (buf_bytes D) s = Some (Inr s')"
          using c1(1,2) c2(1,2) c3(1,2) by (simp add: md s'_def t_def c_def)
        moreover have "buddy_inv B D fl bs bo s' Map.empty" unfolding s'_def by (rule first(1))
        ultimately show ?thesis by (intro ok [of s' fl bs bo]) (simp_all add: s'_def c_def)
      qed
    qed
  qed
qed

text \<open>
  \<open>size\<close> above 16 and at most \<open>2 ^ 62\<close>: the buffer has \<open>2 ^ D\<close> blocks of 32 bytes. A caller's
  buffer must have room for all of them, and must be out of the child's reach.
\<close>

lemma buddy_size:
  assumes "16 < unat n" "unat n \<le> 2 ^ 62"
  obtains D where "round_up_loop 1 n = Some (buf_bytes D)" "D \<le> 57" "unat n \<le> 2 ^ (D + 5)"
    "2 ^ (D + 5) < 2 * unat n" "nat (get_order n) = D + 5"
proof -
  have n: "n \<noteq> 0" using assms(1) by auto
  have lo: "\<not> get_order n \<le> int 4" and hi: "get_order n \<le> int 62"
    using get_order_le_iff [OF n, of 4] get_order_le_iff [OF n, of 62] assms by simp_all
  define D where "D = nat (get_order n) - 5"
  have k: "get_order n = int (D + 5)" "nat (get_order n) = D + 5" "D \<le> 57" using lo hi by (simp_all add: D_def)
  have up: "unat n \<le> 2 ^ (D + 5)" using get_order_le_iff [OF n, of "D + 5"] k by simp
  have "\<not> unat n \<le> 2 ^ (D + 4)" using get_order_le_iff [OF n, of "D + 4"] k by simp
  then have "2 ^ (D + 5) < 2 * unat n" by (simp add: power_add)
  moreover have "round_up_loop 1 n = Some (buf_bytes D)"
    using round_up_ok [OF n] assms(2) by (simp add: k(2) buf_bytes_pow)
  ultimately show thesis using up k by (intro that [of D])
qed

lemma make_buddy_owned:
  assumes I: "Inv s F" and args: "out \<noteq> 0" "16 < unat n" "unat n \<le> 2 ^ 62"
    and lim: "2 ^ nat (get_order n) < lim"
  obtains (nomem) s' where "make_buddy_allocator out (Some a) NULL n s = Some (Inl (ALLO_ERR_NOMEM, s'))" "Inv s' F"
    | (ok) s' B D fl bs bo where "make_buddy_allocator out (Some a) NULL n s = Some (Inr s')"
      "unat n \<le> 2 ^ (D + 5)" "2 ^ (D + 5) < 2 * unat n" "bd_own_buffer (self_ctx s')"
      "buddy_inv B D fl bs bo s' Map.empty" "buddy_backed a Inv F B D fl bs bo s'"
proof -
  have n: "n \<noteq> 0" using args(2) by auto
  obtain D where r: "round_up_loop 1 n = Some (buf_bytes D)" and D: "D \<le> 57" "unat n \<le> 2 ^ (D + 5)"
    "2 ^ (D + 5) < 2 * unat n" "nat (get_order n) = D + 5"
    by (rule buddy_size [OF args(2,3)])
  have L: "2 ^ (D + 5) < lim" using lim D(4) by simp
  have u: "unat (buf_bytes D) = 2 ^ (D + 5)" unfolding buf_bytes_pow using D(1) by (intro unat_pow64) simp
  have small: "unat (buf_bytes D) < lim" using L u by simp
  show thesis
  proof (cases rule: alloc_cases [OF I small])
    case (1 s')
    then show thesis using args(1) n r by (intro nomem [of s']) (simp_all add: make_buddy_allocator_def)
  next
    case (2 B t)
    have It: "Inv t (if True then F(B \<mapsto> buf_bytes D) else F)" using 2(4) by simp
    have B: "8 dvd unat B" "unat B + 2 ^ (D + 5) < 2 ^ 64" using 2(6) u by (simp_all add: block_ok_def)
    have make: "make_buddy_allocator out (Some a) NULL n s = buddy_metadata a True B (buf_bytes D) t"
      using args(1) n r 2(1,2) by (simp add: make_buddy_allocator_def)
    have sub: "region B (buf_bytes D) \<inter> heap \<subseteq> live (if True then F(B \<mapsto> buf_bytes D) else F)"
      using 2(3) by (auto simp: live_upd)
    show thesis
    proof (cases rule: buddy_metadata_ok [OF It _ 2(2) B sub D(1) L])
      case 1
      then show ?case using 2(3) by simp
    next
      case (2 s')
      then show thesis by (intro nomem [of s']) (simp_all add: make)
    next
      case (3 s' fl bs bo)
      then show thesis using D by (intro ok [of s' D B fl bs bo]) (simp_all add: make)
    qed
  qed
qed

lemma make_buddy_buffer:
  assumes I: "Inv s F" and args: "out \<noteq> 0" "16 < unat n" "unat n \<le> 2 ^ 62"
    and lim: "2 ^ nat (get_order n) < lim"
    and B: "B \<noteq> 0" "8 dvd unat B" "unat B + 2 ^ nat (get_order n) < 2 ^ 64"
      "region B (2 ^ nat (get_order n)) \<inter> heap \<subseteq> live F"
  obtains (nomem) s' where "make_buddy_allocator out (Some a) B n s = Some (Inl (ALLO_ERR_NOMEM, s'))" "Inv s' F"
    | (ok) s' D fl bs bo where "make_buddy_allocator out (Some a) B n s = Some (Inr s')"
      "unat n \<le> 2 ^ (D + 5)" "2 ^ (D + 5) < 2 * unat n" "\<not> bd_own_buffer (self_ctx s')"
      "buddy_inv B D fl bs bo s' Map.empty" "buddy_backed a Inv F B D fl bs bo s'"
proof -
  have n: "n \<noteq> 0" using args(2) by auto
  obtain D where r: "round_up_loop 1 n = Some (buf_bytes D)" and D: "D \<le> 57" "unat n \<le> 2 ^ (D + 5)"
    "2 ^ (D + 5) < 2 * unat n" "nat (get_order n) = D + 5"
    by (rule buddy_size [OF args(2,3)])
  have L: "2 ^ (D + 5) < lim" using lim D(4) by simp
  have make: "make_buddy_allocator out (Some a) B n s = buddy_metadata a False B (buf_bytes D) s"
    using args(1) n r B(1) by (simp add: make_buddy_allocator_def)
  have Is: "Inv s (if False then F(B \<mapsto> buf_bytes D) else F)" using I by simp
  have nw: "unat B + 2 ^ (D + 5) < 2 ^ 64" using B(3) D(4) by simp
  have sub: "region B (buf_bytes D) \<inter> heap \<subseteq> live (if False then F(B \<mapsto> buf_bytes D) else F)"
    using B(4) D(4) by (simp add: buf_bytes_pow)
  show thesis
  proof (cases rule: buddy_metadata_ok [OF Is _ B(1,2) nw sub D(1) L])
    case 1
    then show ?case by simp
  next
    case (2 s')
    then show thesis by (intro nomem [of s']) (simp_all add: make)
  next
    case (3 s' fl bs bo)
    then show thesis using D by (intro ok [of s' D fl bs bo]) (simp_all add: make)
  qed
qed

text \<open>
  Sizes up to 16 are always refused, with the error for lack of memory: there is no list, or the
  bit set is empty and the child answers the empty request with null.
\<close>

lemma calloc_empty: "Inv s G \<Longrightarrow> 0 < lim \<Longrightarrow> \<exists>s'. allo_calloc a 0 n s = Some (NULL, s') \<and> Inv s' G"
  using alloc_zero [of s G] by (auto simp: allo_calloc_def)

lemma metadata_tiny:
  assumes I: "Inv s (F(B \<mapsto> 2 ^ k))" and B: "B \<notin> dom F" and k: "k \<le> 4" and lim: "16 < lim"
  obtains s' where "buddy_metadata a True B (2 ^ k) s = Some (Inl (ALLO_ERR_NOMEM, s'))" "Inv s' F"
proof -
  have g: "get_order (2 ^ k) = int k" "get_order 32 = 5"
    using get_order_pow [of k] get_order_pow [of 5] k by simp_all
  have "unat (2 ^ k :: size_t) = 2 ^ k" using k by (intro unat_pow64) simp
  moreover have "(2 :: nat) ^ k \<le> 2 ^ 4" using k by (intro power_increasing) simp_all
  ultimately have "(2 ^ k :: size_t) div 32 = 0" by (simp add: word_eq_iff_unat unat_div)
  then have bb: "bitset_bytes (2 ^ k) 32 = 0" by (simp add: bitset_bytes_def)
  let ?G = "F(B \<mapsto> 2 ^ k)" and ?count = "word_of_int (int k - 5 + 1) + 1 :: size_t"
  note md = buddy_metadata_def [of a True B "2 ^ k" s, unfolded Let_def, unfolded g bb]
  note finish = that
  have null: thesis if z: "allo_calloc a ?count 8 s = Some (NULL, t)" "Inv t ?G" for t
  proof -
    obtain t' where "allo_free a B (2 ^ k) t = Some ((), t')" "Inv t' F" by (rule free_fresh [OF z(2) B])
    then show thesis using z(1) by (intro finish [of t']) (simp_all add: md)
  qed
  show thesis
  proof (cases "k = 4")
    case True
    then have cnt: "?count = 1" by simp
    have h: "unat (1 :: size_t) * unat (8 :: size_t) < lim" using lim by simp
    show thesis
    proof (cases rule: calloc_ok [OF I h])
      case (1 t)
      then show thesis using null [of t] cnt by simp
    next
      case (2 fl t)
      obtain t1 where t1: "allo_calloc a 0 1 t = Some (NULL, t1)" "Inv t1 (?G(fl \<mapsto> 1 * 8))"
        using calloc_empty [OF 2(4)] lim by auto
      obtain t2 where t2: "allo_free a fl (1 * 8) t1 = Some ((), t2)" "Inv t2 ?G"
        by (rule free_fresh [OF t1(2) 2(3)])
      obtain t3 where "allo_free a B (2 ^ k) t2 = Some ((), t3)" "Inv t3 F"
        by (rule free_fresh [OF t2(2) B])
      then show thesis using 2(1,2) t1(1) t2(1) by (intro finish [of t3]) (simp_all add: md [unfolded cnt])
    qed
  next
    case False
    show thesis
    proof (cases "k = 3")
      case True
      then have "?count = 0" by simp
      then show thesis using calloc_empty [OF I, of 8] lim null by auto
    next
      case k3: False
      then have "k = 0 \<or> k = 1 \<or> k = 2" using k False by linarith
      then have "(- 1) div 8 < ?count"
        by (elim disjE) (simp_all add: word_less_nat_alt unat_div)
      then have "allo_calloc a ?count 8 s = Some (NULL, s)" by (simp add: allo_calloc_def)
      then show thesis using null I by blast
    qed
  qed
qed

lemma make_buddy_tiny:
  assumes I: "Inv s F" and args: "out \<noteq> 0" "n \<noteq> 0" "unat n \<le> 16" and lim: "16 < lim"
  obtains s' where "make_buddy_allocator out (Some a) NULL n s = Some (Inl (ALLO_ERR_NOMEM, s'))" "Inv s' F"
proof -
  define k where "k = nat (get_order n)"
  have k: "k \<le> 4" using get_order_le_iff [OF args(2), of 4] args(3) by (simp add: k_def)
  have r: "round_up_loop 1 n = Some (2 ^ k)" unfolding k_def using args(2,3) by (intro round_up_ok) simp_all
  have "(2 :: nat) ^ k \<le> 2 ^ 4" using k by (intro power_increasing) simp_all
  then have small: "unat (2 ^ k :: size_t) < lim" using k lim by (simp add: unat_pow64)
  show thesis
  proof (cases rule: alloc_cases [OF I small])
    case (1 s')
    then show thesis using args r by (intro that [of s']) (simp_all add: make_buddy_allocator_def)
  next
    case (2 B t)
    obtain s' where "buddy_metadata a True B (2 ^ k) t = Some (Inl (ALLO_ERR_NOMEM, s'))" "Inv s' F"
      by (rule metadata_tiny [OF 2(4,3) k lim])
    then show thesis using args r 2(1,2) by (intro that [of s']) (simp_all add: make_buddy_allocator_def)
  qed
qed

end

text \<open>The geometry of a buffer of 256 bytes at 4096, its metadata behind it.\<close>

interpretation small_buddy: buddy_mem 4096 3 8192 12288 16384
  by unfold_locales (simp_all add: buf_bytes_def fl_bytes_def bs_bytes_def bo_bytes_def region_disjoint)

end
