(* ===== verification/Pool.thy ===== *)
theory Pool
  imports Buffer HeapLists
begin

text \<open>
  The pool allocator, \<open>src/allo_pool.c\<close>: equal blocks in one buffer, the free ones linked
  through their first eight bytes. Shown: the contract, with every block of the buffer either
  on the free list or live; the factory's initial list; that destroying gives the buffer back.
\<close>

section \<open>Code\<close>

record 'e pool_context_t =
  pool_buffer :: ptr
  pool_block_size :: size_t
  pool_total_blocks :: size_t
  pool_free_list :: ptr
  pool_own_buffer :: bool
  pool_child :: "'e allo option"

type_synonym 'e pool_machine = "('e pool_context_t \<times> 'e) machine"

definition pool_contains_fn :: "ptr \<Rightarrow> 'e pool_machine \<Rightarrow> (allo_contains_t \<times> 'e pool_machine) option" where
  "pool_contains_fn p s =
     (let ctx = self_ctx s;
          total_size = pool_block_size ctx * pool_total_blocks ctx
      in Some (if p \<ge> pool_buffer ctx \<and> p < pool_buffer ctx + total_size
               then ALLO_CONTAINS_YES else ALLO_CONTAINS_NO, s))"

definition pool_alloc_fn :: "size_t \<Rightarrow> 'e pool_machine \<Rightarrow> (ptr \<times> 'e pool_machine) option" where
  "pool_alloc_fn n s =
     (let ctx = self_ctx s in
      if n = 0 then Some (NULL, s)
      else if n > pool_block_size ctx then Some (NULL, s)
      else if pool_free_list ctx = NULL then Some (NULL, s)
      else
        (let node = pool_free_list ctx;
             s = ALLOC_UNPOISON node 8 s;
             s = set_ctx (ctx\<lparr>pool_free_list := rd64 s node\<rparr>) s;
             s = ALLOC_UNPOISON node (pool_block_size ctx) s
         in Some (node, s)))"

definition pool_realloc_fn ::
  "ptr \<Rightarrow> size_t \<Rightarrow> size_t \<Rightarrow> 'e pool_machine \<Rightarrow> (ptr \<times> 'e pool_machine) option" where
  "pool_realloc_fn p old_size new_size s = do {
     (r, s) \<leftarrow> pool_contains_fn p s;
     ALLO_ASSERT (p = NULL \<or> r = ALLO_CONTAINS_YES);
     if new_size \<le> pool_block_size (self_ctx s) then Some (p, s) else Some (NULL, s)
   }"

definition pool_free_fn :: "ptr \<Rightarrow> size_t \<Rightarrow> 'e pool_machine \<Rightarrow> (unit \<times> 'e pool_machine) option" where
  "pool_free_fn p n s =
     (if p = NULL then Some ((), s)
      else do {
        (r, s) \<leftarrow> pool_contains_fn p s;
        ALLO_ASSERT (r = ALLO_CONTAINS_YES);
        let ctx = self_ctx s;
        let s = ALLOC_POISON p (pool_block_size ctx) s;
        let s = ALLOC_UNPOISON p 8 s;
        let s = wr64 p (pool_free_list ctx) s;
        Some ((), set_ctx (ctx\<lparr>pool_free_list := p\<rparr>) s)
      })"

text \<open>A call through a null child pointer does not return.\<close>

definition pool_destroy_fn :: "'e pool_machine \<Rightarrow> (unit \<times> 'e pool_machine) option" where
  "pool_destroy_fn s =
     (let ctx = self_ctx s in
      if pool_own_buffer ctx then
        (case pool_child ctx of
           None \<Rightarrow> None
         | Some child \<Rightarrow>
             call_child (allo_free child (pool_buffer ctx)
               (pool_block_size ctx * pool_total_blocks ctx)) s)
      else Some ((), s))"

definition pool_allo :: "('e pool_context_t \<times> 'e) allo" where
  "pool_allo = \<lparr>vt_alloc = pool_alloc_fn, vt_realloc = pool_realloc_fn, vt_free_mem = pool_free_fn,
     vt_destroy = Some pool_destroy_fn, vt_contains = Some pool_contains_fn\<rparr>"

text \<open>The loop of the factory that links the blocks; \<open>cur\<close> walks along the buffer.\<close>

function pool_link_loop ::
  "size_t \<Rightarrow> size_t \<Rightarrow> size_t \<Rightarrow> ptr \<Rightarrow> 'e machine \<Rightarrow> 'e machine" where
  "pool_link_loop i total_blocks block_size cur s =
     (if i < total_blocks then
        (let s = ALLOC_UNPOISON cur 8 s in
         if i < total_blocks - 1
         then pool_link_loop (i + 1) total_blocks block_size (cur + block_size)
                (wr64 cur (cur + block_size) s)
         else pool_link_loop (i + 1) total_blocks block_size cur (wr64 cur NULL s))
      else s)"
  by pat_completeness auto
termination
  by (relation "measure (\<lambda>(i, n, b, c, s). unat n - unat i)")
    (auto simp: unat_Suc64 word_less_nat_alt)

declare pool_link_loop.simps [simp del]

text \<open>The block size the factory chooses: at least a pointer, rounded up to eight.\<close>

definition pool_block_round :: "size_t \<Rightarrow> size_t" where
  "pool_block_round block_size =
     (let min_size = 8;
          actual_block_size = (if block_size < min_size then min_size else block_size)
      in allo_align_up actual_block_size 8)"

definition make_pool_allocator ::
  "ptr \<Rightarrow> 'e allo option \<Rightarrow> ptr \<Rightarrow> size_t \<Rightarrow> size_t \<Rightarrow> 'e machine \<Rightarrow>
     ((allo_error_t \<times> 'e machine) + 'e pool_machine) option" where
  "make_pool_allocator out child buffer block_size total_blocks s =
     (if out = NULL \<or> (buffer = NULL \<and> child = None) \<or> block_size = 0 \<or> total_blocks = 0
      then Some (Inl (ALLO_ERR_INVAL, s))
      else do {
        let bs = pool_block_round block_size;
        let own_buffer = (buffer = NULL);
        (buf, s) \<leftarrow> (if own_buffer
                     then (case child of None \<Rightarrow> None | Some c \<Rightarrow> allo_alloc c (bs * total_blocks) s)
                     else Some (buffer, s));
        if own_buffer \<and> buf = NULL then Some (Inl (ALLO_ERR_NOMEM, s))
        else do {
          let s = ALLOC_POISON buf (bs * total_blocks) s;
          let s = pool_link_loop 0 total_blocks bs buf s;
          Some (Inr (with_child \<lparr>pool_buffer = buf, pool_block_size = bs,
            pool_total_blocks = total_blocks, pool_free_list = buf,
            pool_own_buffer = own_buffer, pool_child = child\<rparr> s))
        }
      })"

section \<open>Slots\<close>

definition pool_slots :: "ptr \<Rightarrow> size_t \<Rightarrow> size_t \<Rightarrow> ptr set" where
  "pool_slots B bs N = {p. \<exists>i < unat N. unat p = unat B + i * unat bs}"

definition pool_geometry :: "ptr \<Rightarrow> size_t \<Rightarrow> size_t \<Rightarrow> bool" where
  "pool_geometry B bs N \<longleftrightarrow> B \<noteq> 0 \<and> 8 dvd unat B \<and> 8 dvd unat bs \<and> bs \<noteq> 0 \<and> N \<noteq> 0 \<and>
     unat B + unat bs * unat N < 2 ^ 64 \<and> unat bs * unat N < 2 ^ 63"

lemma pool_geometryD:
  assumes "pool_geometry B bs N"
  shows "B \<noteq> 0" "8 dvd unat B" "8 dvd unat bs" "8 \<le> unat bs" "0 < unat N"
    "unat B + unat bs * unat N < 2 ^ 64" "unat bs * unat N < 2 ^ 63"
    "unat (bs * N) = unat bs * unat N" "unat (B + bs * N) = unat B + unat bs * unat N"
proof -
  from assms show A: "B \<noteq> 0" "8 dvd unat B" "8 dvd unat bs" "0 < unat N"
    "unat B + unat bs * unat N < 2 ^ 64" "unat bs * unat N < 2 ^ 63"
    by (auto simp: pool_geometry_def unat_gt_0)
  from assms have "0 < unat bs" by (simp add: pool_geometry_def unat_gt_0)
  with A(3) show "8 \<le> unat bs" by (auto dest: dvd_imp_le)
  show "unat (bs * N) = unat bs * unat N" using A(6) by (simp add: unat_mult64)
  with A(5) show "unat (B + bs * N) = unat B + unat bs * unat N" by (simp add: unat_add64)
qed

lemma pool_slot_bounds:
  assumes g: "pool_geometry B bs N" and p: "p \<in> pool_slots B bs N"
  shows "unat B \<le> unat p" "unat p + unat bs \<le> unat B + unat bs * unat N" "8 dvd unat p" "p \<noteq> 0"
proof -
  note G = pool_geometryD [OF g]
  obtain i where i: "i < unat N" "unat p = unat B + i * unat bs"
    using p by (auto simp: pool_slots_def)
  show "unat B \<le> unat p" using i by simp
  then show "p \<noteq> 0" using G(1) by (metis le_zero_eq unat_0 unat_eq_0)
  show "8 dvd unat p" using i(2) G(2,3) by simp
  have "(i + 1) * unat bs \<le> unat N * unat bs" using i(1) by (intro mult_le_mono1) simp
  then show "unat p + unat bs \<le> unat B + unat bs * unat N" using i(2) by (simp add: algebra_simps)
qed

lemma pool_slots_apart:
  assumes "p \<in> pool_slots B bs N" "q \<in> pool_slots B bs N" "p \<noteq> q"
  shows "unat p + unat bs \<le> unat q \<or> unat q + unat bs \<le> unat p"
proof -
  obtain i j where i: "unat p = unat B + i * unat bs" and j: "unat q = unat B + j * unat bs"
    using assms by (auto simp: pool_slots_def)
  then have "i \<noteq> j" using assms(3) by (auto simp: word_eq_iff_unat)
  then consider "i + 1 \<le> j" | "j + 1 \<le> i" by linarith
  then show ?thesis
  proof cases
    case 1
    then have "(i + 1) * unat bs \<le> j * unat bs" by (rule mult_le_mono1)
    with i j show ?thesis by simp
  next
    case 2
    then have "(j + 1) * unat bs \<le> i * unat bs" by (rule mult_le_mono1)
    with i j show ?thesis by simp
  qed
qed

lemma pool_slot_region:
  assumes "pool_geometry B bs N" "p \<in> pool_slots B bs N" "unat k \<le> unat bs"
  shows "region p k \<subseteq> region B (bs * N)"
  using pool_slot_bounds [OF assms(1,2)] assms(3) pool_geometryD(8) [OF assms(1)]
  by (intro region_subset) simp_all

lemma pool_slots_disjoint:
  assumes "p \<in> pool_slots B bs N" "q \<in> pool_slots B bs N" "p \<noteq> q"
    "unat k \<le> unat bs" "unat l \<le> unat bs"
  shows "region p k \<inter> region q l = {}"
  using pool_slots_apart [OF assms(1-3)] assms(4,5) by (intro region_disjoint) linarith

section \<open>Invariant\<close>

text \<open>Every block is on the free list or live, never both.\<close>

definition pool_ctx_ok :: "ptr \<Rightarrow> size_t \<Rightarrow> size_t \<Rightarrow> 'e pool_context_t \<Rightarrow> bool" where
  "pool_ctx_ok B bs N c \<longleftrightarrow> pool_buffer c = B \<and> pool_block_size c = bs \<and> pool_total_blocks c = N"

definition pool_lists :: "ptr \<Rightarrow> size_t \<Rightarrow> size_t \<Rightarrow> memory \<Rightarrow> ptr \<Rightarrow> ptr list \<Rightarrow> live_map \<Rightarrow> bool" where
  "pool_lists B bs N m h fs L \<longleftrightarrow> sll m h fs \<and> distinct fs \<and> set fs \<inter> dom L = {} \<and>
     set fs \<union> dom L = pool_slots B bs N \<and> (\<forall>p n. L p = Some n \<longrightarrow> n \<noteq> 0 \<and> unat n \<le> unat bs)"

definition pool_inv :: "ptr \<Rightarrow> size_t \<Rightarrow> size_t \<Rightarrow> 'e pool_machine \<Rightarrow> live_map \<Rightarrow> bool" where
  "pool_inv B bs N s L \<longleftrightarrow> pool_geometry B bs N \<and> pool_ctx_ok B bs N (self_ctx s) \<and>
     (\<exists>fs. pool_lists B bs N (mem s) (pool_free_list (self_ctx s)) fs L)"

lemma pool_lists_live:
  assumes g: "pool_geometry B bs N" and l: "pool_lists B bs N m h fs L"
  shows "live_ok (region B (bs * N)) L"
  unfolding live_ok_def
proof (intro conjI allI impI)
  fix p n assume p: "L p = Some n"
  then have slot: "p \<in> pool_slots B bs N" and n: "n \<noteq> 0" "unat n \<le> unat bs"
    using l by (auto simp: pool_lists_def)
  note b = pool_slot_bounds [OF g slot] and G = pool_geometryD [OF g]
  have "unat bs \<le> unat bs * unat N" using G(5) by simp
  then have "unat p + unat n < 2 ^ 64" "unat n < 2 ^ 63" using b(2) n(2) G(6,7) by linarith+
  then show "block_ok p n" using b n by (simp add: block_ok_def size_ok_def)
  show "region p n \<subseteq> region B (bs * N)" by (rule pool_slot_region [OF g slot n(2)])
  fix q k assume q: "L q = Some k" "p \<noteq> q"
  then have "q \<in> pool_slots B bs N" "unat k \<le> unat bs" using l by (auto simp: pool_lists_def)
  with pool_slots_disjoint [OF slot _ q(2) n(2)] show "region p n \<inter> region q k = {}" by blast
qed

text \<open>The links of the free blocks do not lie in live blocks.\<close>

lemma pool_lists_cong:
  assumes g: "pool_geometry B bs N" and l: "pool_lists B bs N m h fs L"
    and eq: "\<And>x. x \<in> region B (bs * N) \<Longrightarrow> x \<notin> live L \<Longrightarrow> m' x = m x"
  shows "pool_lists B bs N m' h fs L"
proof -
  note G = pool_geometryD [OF g]
  have bs8: "unat (8 :: size_t) \<le> unat bs" using G(4) by simp
  have "load64 m' x = load64 m x" if x: "x \<in> set fs" for x
  proof (rule load64_cong)
    have slot: "x \<in> pool_slots B bs N" using x l by (auto simp: pool_lists_def)
    then show "unat x + 8 \<le> 2 ^ 64" using pool_slot_bounds(2) [OF g slot] G(4,6) by linarith
    fix y assume y: "y \<in> region x 8"
    have "y \<in> region B (bs * N)" using pool_slot_region [OF g slot bs8] y by blast
    moreover have "y \<notin> live L"
    proof
      assume "y \<in> live L"
      then obtain q k where q: "L q = Some k" "y \<in> region q k" by (auto simp: live_def)
      then have "q \<in> pool_slots B bs N" "unat k \<le> unat bs" "q \<noteq> x"
        using l x by (auto simp: pool_lists_def)
      then show False using pool_slots_disjoint [OF slot, of q 8 k] bs8 q(2) y by blast
    qed
    ultimately show "m' y = m y" by (rule eq)
  qed
  then have "sll m' h fs = sll m h fs" by (rule sll_cong)
  with l show ?thesis by (simp add: pool_lists_def)
qed

lemma pool_inv_cong:
  assumes "pool_inv B bs N s L" "self_ctx s' = self_ctx s"
    "\<And>x. x \<in> region B (bs * N) \<Longrightarrow> x \<notin> live L \<Longrightarrow> mem s' x = mem s x"
  shows "pool_inv B bs N s' L"
proof -
  obtain fs where g: "pool_geometry B bs N" and
    l: "pool_lists B bs N (mem s) (pool_free_list (self_ctx s)) fs L"
    using assms(1) by (auto simp: pool_inv_def)
  from pool_lists_cong [OF g l assms(3)] assms(1,2) show ?thesis
    by (auto simp: pool_inv_def)
qed

lemma pool_invE:
  assumes "pool_inv B bs N s L"
  obtains fs where "pool_geometry B bs N" "pool_lists B bs N (mem s) (pool_free_list (self_ctx s)) fs L"
    "pool_buffer (self_ctx s) = B" "pool_block_size (self_ctx s) = bs" "pool_total_blocks (self_ctx s) = N"
  using assms by (auto simp: pool_inv_def pool_ctx_ok_def)

section \<open>The operations\<close>

lemma pool_contains_eq:
  assumes "pool_inv B bs N s L"
  shows "pool_contains_fn p s =
    Some (if p \<in> region B (bs * N) then ALLO_CONTAINS_YES else ALLO_CONTAINS_NO, s)"
  using assms pool_geometryD [of B bs N]
  by (auto simp: pool_contains_fn_def pool_inv_def pool_ctx_ok_def mem_region word_le_nat_alt
      word_less_nat_alt)

lemma pool_live_slot: "pool_inv B bs N s L \<Longrightarrow> L p = Some n \<Longrightarrow> p \<in> pool_slots B bs N"
  by (auto simp: pool_inv_def pool_lists_def)

lemma pool_slot_in_region:
  assumes "pool_geometry B bs N" "p \<in> pool_slots B bs N"
  shows "p \<in> region B (bs * N)"
proof -
  have "p \<in> region p bs" using pool_geometryD(4) [OF assms(1)] by (simp add: mem_region)
  then show ?thesis using pool_slot_region [OF assms, of bs] by blast
qed

text \<open>An allocation takes the head of the free list; nothing in memory changes.\<close>

lemma pool_alloc_cases:
  assumes I: "pool_inv B bs N s L"
  obtains (fail) "pool_alloc_fn n s = Some (NULL, s)"
      "n = 0 \<or> unat bs < unat n \<or> dom L = pool_slots B bs N"
  | (ok) p s' where "pool_alloc_fn n s = Some (p, s')" "p \<noteq> 0" "mem s' = mem s" "p \<notin> dom L"
      "n \<noteq> 0" "unat n \<le> unat bs" "p \<in> pool_slots B bs N" "pool_inv B bs N s' (L(p \<mapsto> n))"
      "snd (env s') = snd (env s)"
proof -
  obtain fs where g: "pool_geometry B bs N"
    and l: "pool_lists B bs N (mem s) (pool_free_list (self_ctx s)) fs L"
    and c: "pool_buffer (self_ctx s) = B" "pool_block_size (self_ctx s) = bs"
      "pool_total_blocks (self_ctx s) = N" by (rule pool_invE [OF I])
  show thesis
  proof (cases "n = 0 \<or> n > bs \<or> pool_free_list (self_ctx s) = 0")
    case True
    then have "pool_alloc_fn n s = Some (NULL, s)"
      using c by (auto simp: pool_alloc_fn_def Let_def)
    moreover have "n = 0 \<or> unat bs < unat n \<or> dom L = pool_slots B bs N"
      using True l by (auto simp: pool_lists_def word_less_nat_alt)
    ultimately show thesis by (rule fail)
  next
    case False
    define p where "p = pool_free_list (self_ctx s)"
    obtain ys where fs: "fs = p # ys" and ys: "sll (mem s) (load64 (mem s) p) ys"
      using False l by (auto simp: pool_lists_def p_def sll_node)
    define s' where "s' = ALLOC_UNPOISON p bs
      (set_ctx ((self_ctx s)\<lparr>pool_free_list := rd64 (ALLOC_UNPOISON p 8 s) p\<rparr>) (ALLOC_UNPOISON p 8 s))"
    have n: "n \<noteq> 0" "unat n \<le> unat bs" using False by (auto simp: word_less_nat_alt)
    have slot: "p \<in> pool_slots B bs N" "p \<notin> dom L" using l fs by (auto simp: pool_lists_def)
    have "pool_lists B bs N (mem s') (pool_free_list (self_ctx s')) ys (L(p \<mapsto> n))"
      using l fs ys n by (auto simp: pool_lists_def s'_def rd64_def)
    then have "pool_inv B bs N s' (L(p \<mapsto> n))"
      using g c by (auto simp: pool_inv_def pool_ctx_ok_def s'_def)
    moreover have "pool_alloc_fn n s = Some (p, s')"
      using False c by (simp add: pool_alloc_fn_def Let_def p_def s'_def)
    ultimately show thesis
      using False n slot by (intro ok [of p s']) (simp_all add: p_def s'_def)
  qed
qed

lemma pool_free_ok:
  assumes I: "pool_inv B bs N s L" and p: "L p = Some n"
  obtains s' where "pool_free_fn p k s = Some ((), s')" "pool_inv B bs N s' (L(p := None))"
    "kept (region B (bs * N)) (L(p := None)) (mem s) (mem s')" "snd (env s') = snd (env s)"
proof -
  obtain fs where g: "pool_geometry B bs N"
    and l: "pool_lists B bs N (mem s) (pool_free_list (self_ctx s)) fs L"
    and c: "pool_buffer (self_ctx s) = B" "pool_block_size (self_ctx s) = bs"
      "pool_total_blocks (self_ctx s) = N" by (rule pool_invE [OF I])
  note G = pool_geometryD [OF g]
  have slot: "p \<in> pool_slots B bs N" by (rule pool_live_slot [OF I p])
  have p0: "p \<noteq> 0" by (rule pool_slot_bounds(4) [OF g slot])
  define h where "h = pool_free_list (self_ctx s)"
  define s' where "s' = set_ctx ((self_ctx s)\<lparr>pool_free_list := p\<rparr>)
    (wr64 p h (ALLOC_UNPOISON p 8 (ALLOC_POISON p bs s)))"
  have run: "pool_free_fn p k s = Some ((), s')"
    using p0 c pool_contains_eq [OF I, of p] pool_slot_in_region [OF g slot]
    by (simp add: pool_free_fn_def s'_def h_def Let_def)
  have m': "mem s' = store64 p h (mem s)" by (simp add: s'_def)
  have nw: "unat p + 8 \<le> 2 ^ 64" using pool_slot_bounds(2) [OF g slot] G(4,6) by linarith
  have "load64 (mem s') x = load64 (mem s) x" if "x \<in> set fs" for x
  proof -
    have xs: "x \<in> pool_slots B bs N" "x \<noteq> p" using that l p by (auto simp: pool_lists_def)
    then show ?thesis
      using pool_slots_apart [OF slot xs(1) xs(2) [symmetric]] pool_slot_bounds(2) [OF g xs(1)]
        G(4,6) nw
      unfolding m' by (intro load64_store64_other) auto
  qed
  then have "sll (mem s') h fs = sll (mem s) h fs" by (rule sll_cong)
  then have "pool_lists B bs N (mem s') p (p # fs) (L(p := None))"
    using l p p0 by (auto simp: pool_lists_def h_def m')
  then have "pool_inv B bs N s' (L(p := None))"
    using g c by (auto simp: pool_inv_def pool_ctx_ok_def s'_def)
  moreover have "kept (region B (bs * N)) (L(p := None)) (mem s) (mem s')"
  proof (rule kept_write [where R = "region p 8"])
    show "mem s' x = mem s x" if "x \<notin> region p 8" for x
      using store64_other [OF nw that] by (simp add: m')
    show "region p 8 \<subseteq> region B (bs * N)" using G(4) by (intro pool_slot_region [OF g slot]) simp
    have "region p 8 \<inter> region q j = {}" if q: "L q = Some j" "q \<noteq> p" for q j
      using pool_slots_disjoint [OF slot pool_live_slot [OF I q(1)] q(2) [symmetric], of 8 j] G(4) q l
      by (auto simp: pool_lists_def)
    then show "region p 8 \<inter> live (L(p := None)) = {}"
      by (fastforce simp: live_def split: if_splits)
  qed
  ultimately show thesis using run by (intro that [of s']) (simp_all add: s'_def)
qed

lemma pool_resize:
  assumes I: "pool_inv B bs N s L" and p: "L p = Some n" and m: "m \<noteq> 0" "unat m \<le> unat bs"
  shows "pool_inv B bs N s (L(p \<mapsto> m))"
proof -
  have "insert p (dom L) = dom L" using p by auto
  with I m show ?thesis by (auto simp: pool_inv_def pool_lists_def)
qed

text \<open>A block is never moved: either it stays where it is or the request is refused.\<close>

lemma pool_realloc_run:
  assumes I: "pool_inv B bs N s L" and p: "L p = Some n"
  shows "pool_realloc_fn p n m s = Some (if m \<le> bs then p else NULL, s)" "p \<noteq> 0"
proof -
  obtain fs where g: "pool_geometry B bs N" and c: "pool_block_size (self_ctx s) = bs"
    by (rule pool_invE [OF I])
  have slot: "p \<in> pool_slots B bs N" by (rule pool_live_slot [OF I p])
  show "p \<noteq> 0" by (rule pool_slot_bounds(4) [OF g slot])
  show "pool_realloc_fn p n m s = Some (if m \<le> bs then p else NULL, s)"
    using c pool_contains_eq [OF I, of p] pool_slot_in_region [OF g slot]
    by (simp add: pool_realloc_fn_def)
qed

lemma pool_realloc_law:
  assumes I: "pool_inv B bs N s L" and p: "L p = Some n" and m: "m \<noteq> 0"
  shows "\<exists>q s'. pool_realloc_fn p n m s = Some (q, s') \<and>
    realloc_post (pool_inv B bs N) (region B (bs * N)) L p n m s q s'"
proof -
  note run = pool_realloc_run [OF I p] and p0 = pool_realloc_run(2) [OF I p]
  show ?thesis
  proof (cases "m \<le> bs")
    case True
    then have "pool_inv B bs N s (L(p \<mapsto> m))"
      by (intro pool_resize [OF I p m]) (simp add: word_le_nat_alt)
    with True run p0 show ?thesis by (auto simp: realloc_post_def)
  next
    case False
    with run I show ?thesis by (simp add: realloc_post_def)
  qed
qed

section \<open>The contract\<close>

interpretation pool: exact_allocator pool_allo "pool_inv B bs N" "region B (bs * N)" "2 ^ 63"
proof unfold_locales
  show "(2 :: nat) ^ 63 \<le> 2 ^ 63" by simp
next
  fix s :: "'a pool_machine" and L :: live_map and n m :: size_t and p :: ptr
  assume I: "pool_inv B bs N s L"
  then obtain fs where g: "pool_geometry B bs N"
    and l: "pool_lists B bs N (mem s) (pool_free_list (self_ctx s)) fs L" by (rule pool_invE)
  show "live_ok (region B (bs * N)) L" by (rule pool_lists_live [OF g l])
  show "\<exists>p s'. vt_alloc pool_allo n s = Some (p, s') \<and>
      alloc_post (pool_inv B bs N) (region B (bs * N)) L n s p s'"
    by (cases rule: pool_alloc_cases [OF I, of n]) (use I in \<open>auto simp: alloc_post_def pool_allo_def\<close>)
  show "\<exists>s'. vt_free_mem pool_allo NULL n s = Some ((), s') \<and> pool_inv B bs N s' L \<and>
      kept (region B (bs * N)) L (mem s) (mem s')"
    using I by (simp add: pool_allo_def pool_free_fn_def)
  show "\<exists>r. allo_contains pool_allo p s = Some (r, s) \<and> (p \<in> dom L \<longrightarrow> r \<noteq> ALLO_CONTAINS_NO) \<and>
      (r = ALLO_CONTAINS_YES \<longrightarrow> p \<in> region B (bs * N))"
    using pool_live_slot [OF I, of p] pool_slot_in_region [OF g, of p]
    by (auto simp: allo_contains_def pool_allo_def pool_contains_eq [OF I])
  show "allo_contains pool_allo p s \<noteq> Some (ALLO_CONTAINS_UNKNOWN, s)"
    by (simp add: allo_contains_def pool_allo_def pool_contains_eq [OF I])
  show "pool_inv B bs N s' L" if "env s' = env s"
    "\<And>x. x \<in> region B (bs * N) \<Longrightarrow> x \<notin> live L \<Longrightarrow> mem s' x = mem s x" for s'
    using that by (intro pool_inv_cong [OF I]) (simp_all add: self_ctx_def)
  show "\<exists>s'. vt_free_mem pool_allo p n s = Some ((), s') \<and>
      free_post (pool_inv B bs N) (region B (bs * N)) L p s s'" if "L p = Some n"
    by (rule pool_free_ok [OF I that, of n]) (simp add: pool_allo_def free_post_def)
  show "\<exists>q s'. vt_realloc pool_allo p n m s = Some (q, s') \<and>
      realloc_post (pool_inv B bs N) (region B (bs * N)) L p n m s q s'"
    if "L p = Some n" "m \<noteq> 0"
    using pool_realloc_law [OF I that] by (simp add: pool_allo_def)
qed

text \<open>Only the free list of the context changes, and the child is not called.\<close>

lemma pool_alloc_frame:
  assumes "pool_alloc_fn n s = Some (p, s')"
  shows "pool_own_buffer (self_ctx s') = pool_own_buffer (self_ctx s)" "pool_child (self_ctx s') = pool_child (self_ctx s)"
    "snd (env s') = snd (env s)"
  using assms by (auto simp: pool_alloc_fn_def Let_def split: if_splits)

lemma pool_realloc_frame:
  assumes "pool_realloc_fn p n m s = Some (q, s')"
  shows "s' = s"
  using assms by (auto simp: pool_realloc_fn_def pool_contains_fn_def Let_def option_bind_Some_iff split: if_splits)

lemma pool_free_frame:
  assumes "pool_free_fn p n s = Some (u, s')"
  shows "pool_own_buffer (self_ctx s') = pool_own_buffer (self_ctx s)" "pool_child (self_ctx s') = pool_child (self_ctx s)"
    "snd (env s') = snd (env s)"
  using assms
  by (auto simp: pool_free_fn_def pool_contains_fn_def Let_def option_bind_Some_iff split: if_splits)

section \<open>The factory\<close>

definition pool_slot :: "ptr \<Rightarrow> size_t \<Rightarrow> nat \<Rightarrow> ptr" where
  "pool_slot B bs i = B + word_of_nat i * bs"

lemma unat_pool_slot:
  assumes g: "pool_geometry B bs N" and i: "i < unat N"
  shows "unat (pool_slot B bs i) = unat B + i * unat bs"
    "unat (pool_slot B bs i) + unat bs \<le> unat B + unat bs * unat N"
proof -
  note G = pool_geometryD [OF g]
  have "(i + 1) * unat bs \<le> unat N * unat bs" using i by (intro mult_le_mono1) simp
  then have le: "i * unat bs + unat bs \<le> unat bs * unat N" by (simp add: algebra_simps)
  have "unat (word_of_nat i :: 64 word) = i"
    using i unat64_less [of N] by (intro unat_of_nat64) (simp del: unat64_less)
  moreover from this have "unat (word_of_nat i * bs) = i * unat bs"
    using le G(7) by (subst unat_mult64) simp_all
  ultimately show u: "unat (pool_slot B bs i) = unat B + i * unat bs"
    using le G(4,6) by (simp add: pool_slot_def unat_add64)
  then show "unat (pool_slot B bs i) + unat bs \<le> unat B + unat bs * unat N" using le by simp
qed

lemma pool_slot_Suc: "pool_slot B bs (Suc i) = pool_slot B bs i + bs"
  by (simp add: pool_slot_def algebra_simps)

lemma pool_slots_list:
  assumes g: "pool_geometry B bs N"
  shows "set (map (pool_slot B bs) [0..<unat N]) = pool_slots B bs N"
    "distinct (map (pool_slot B bs) [0..<unat N])"
proof -
  note u = unat_pool_slot(1) [OF g] and G = pool_geometryD [OF g]
  have "p \<in> pool_slot B bs ` {0..<unat N}" if p: "p \<in> pool_slots B bs N" for p
  proof -
    obtain i where i: "i < unat N" "unat p = unat B + i * unat bs"
      using p by (auto simp: pool_slots_def)
    with u have "p = pool_slot B bs i" by (simp add: word_eq_iff_unat)
    with i show ?thesis by auto
  qed
  moreover have "pool_slot B bs i \<in> pool_slots B bs N" if "i < unat N" for i
    using u that by (auto simp: pool_slots_def)
  ultimately show "set (map (pool_slot B bs) [0..<unat N]) = pool_slots B bs N" by auto
  show "distinct (map (pool_slot B bs) [0..<unat N])"
    using u G(4) by (auto simp: distinct_map inj_on_def word_eq_iff_unat)
qed

text \<open>From block \<open>i\<close> on the loop links all later blocks and writes nothing before block \<open>i\<close>.\<close>

lemma pool_link_loop_ok:
  assumes g: "pool_geometry B bs N"
  shows "i < N \<Longrightarrow> cur = pool_slot B bs (unat i) \<Longrightarrow>
    sll (mem (pool_link_loop i N bs cur s)) cur (map (pool_slot B bs) [unat i..<unat N]) \<and>
    env (pool_link_loop i N bs cur s) = env s \<and>
    (\<forall>x. unat x < unat cur \<or> x \<notin> region B (bs * N) \<longrightarrow> mem (pool_link_loop i N bs cur s) x = mem s x)"
proof (induction "unat N - unat i" arbitrary: i cur s rule: less_induct)
  case (less i cur s)
  let ?t = "ALLOC_UNPOISON cur 8 s"
  have iN: "unat i < unat N" using less.prems by (simp add: word_less_nat_alt)
  note G = pool_geometryD [OF g]
  note slot = unat_pool_slot [OF g iN, folded less.prems(2)]
  have cur0: "cur \<noteq> 0" using slot(1) G(1) by (metis add_is_0 unat_0 unat_eq_0)
  have nw: "unat cur + 8 \<le> 2 ^ 64" using slot(2) G(4,6) by linarith
  have sub: "region cur 8 \<subseteq> region B (bs * N)"
    using slot G(4,8) by (intro region_subset) simp_all
  have here: "store64 cur v m x = m x" if "unat x < unat cur \<or> x \<notin> region B (bs * N)" for v m x
    using that sub by (intro store64_other [OF nw]) (auto simp: mem_region)
  have upt: "[unat i..<unat N] = unat i # [Suc (unat i)..<unat N]" using iN by (rule upt_conv_Cons)
  have N1: "i < N - 1 \<longleftrightarrow> Suc (unat i) < unat N"
    using G(5) by (auto simp: word_less_nat_alt unat_pred64 unat_gt_0)
  have i1: "unat (i + 1) = Suc (unat i)" by (rule unat_Suc64 [OF less.prems(1)])
  show ?case
  proof (cases "Suc (unat i) < unat N")
    case False
    then have "unat N = Suc (unat i)" using iN by simp
    moreover have "pool_link_loop i N bs cur s = pool_link_loop (i + 1) N bs cur (wr64 cur NULL ?t)"
      using less.prems(1) False N1 by (simp add: pool_link_loop.simps [of i] Let_def)
    moreover have "pool_link_loop (i + 1) N bs cur (wr64 cur NULL ?t) = wr64 cur NULL ?t"
      using False i1 by (simp add: pool_link_loop.simps [of "i + 1"] word_less_nat_alt)
    ultimately show ?thesis
      using cur0 here less.prems(2) by (simp add: upt)
  next
    case True
    let ?s = "wr64 cur (cur + bs) ?t"
    have step: "pool_link_loop i N bs cur s = pool_link_loop (i + 1) N bs (cur + bs) ?s"
      using less.prems(1) True N1 by (simp add: pool_link_loop.simps [of i] Let_def)
    have next_cur: "cur + bs = pool_slot B bs (unat (i + 1))"
      using less.prems(2) by (simp add: i1 pool_slot_Suc)
    have unext: "unat (cur + bs) = unat cur + unat bs"
      using slot(2) G(6) by (simp add: unat_add64)
    define r where "r = pool_link_loop (i + 1) N bs (cur + bs) ?s"
    have IH: "sll (mem r) (cur + bs) (map (pool_slot B bs) [unat (i + 1)..<unat N])"
      "env r = env ?s"
      "\<And>x. unat x < unat (cur + bs) \<or> x \<notin> region B (bs * N) \<Longrightarrow> mem r x = mem ?s x"
      using less.hyps [of "i + 1" "cur + bs" ?s] next_cur True i1 iN
      by (auto simp: word_less_nat_alt r_def)
    have "load64 (mem r) cur = load64 (mem ?s) cur"
      using unext G(4) by (intro load64_cong [OF nw] IH(3)) (auto simp: mem_region)
    then have "load64 (mem r) cur = cur + bs" by simp
    moreover have "mem r x = mem s x" if x: "unat x < unat cur \<or> x \<notin> region B (bs * N)" for x
      using IH(3) [of x] x unext here [of x] by auto
    moreover have res: "pool_link_loop i N bs cur s = r" by (simp add: step r_def)
    ultimately show ?thesis
      unfolding res upt using IH(1,2) cur0 by (simp add: i1 less.prems(2) [symmetric])
  qed
qed

lemma pool_link_lists:
  assumes g: "pool_geometry B bs N"
  shows "pool_lists B bs N (mem (pool_link_loop 0 N bs B s)) B
    (map (pool_slot B bs) [0..<unat N]) Map.empty"
proof -
  have "0 < N" using pool_geometryD(5) [OF g] by (simp add: word_less_nat_alt)
  moreover have "B = pool_slot B bs (unat (0 :: size_t))" by (simp add: pool_slot_def)
  ultimately show ?thesis
    using pool_link_loop_ok [OF g, of 0 B s] pool_slots_list [OF g]
    by (simp add: pool_lists_def)
qed

lemma pool_link_frame:
  assumes g: "pool_geometry B bs N"
  shows "env (pool_link_loop 0 N bs B s) = env s"
    "x \<notin> region B (bs * N) \<Longrightarrow> mem (pool_link_loop 0 N bs B s) x = mem s x"
proof -
  have "0 < N" "B = pool_slot B bs (unat (0 :: size_t))"
    using pool_geometryD(5) [OF g] by (simp_all add: word_less_nat_alt pool_slot_def)
  then show "env (pool_link_loop 0 N bs B s) = env s"
    "x \<notin> region B (bs * N) \<Longrightarrow> mem (pool_link_loop 0 N bs B s) x = mem s x"
    using pool_link_loop_ok [OF g, of 0 B s] by blast+
qed

lemma pool_block_round:
  assumes "unat b < 2 ^ 63"
  shows "8 dvd unat (pool_block_round b)" "unat b \<le> unat (pool_block_round b)"
    "8 \<le> unat (pool_block_round b)" "unat (pool_block_round b) < max 8 (unat b) + 8"
  using allo_align_up_8 [of "if b < 8 then 8 else b"] assms
  by (auto simp: pool_block_round_def word_less_nat_alt split: if_splits)

text \<open>Over a caller's buffer: no child call, and the pool starts with every block free.\<close>

lemma make_pool_buffer_ok:
  assumes "out \<noteq> 0" "buffer \<noteq> 0" "block_size \<noteq> 0" "tot \<noteq> 0"
    and g: "pool_geometry buffer (pool_block_round block_size) tot"
  obtains s' where "make_pool_allocator out child buffer block_size tot s = Some (Inr s')"
    "pool_inv buffer (pool_block_round block_size) tot s' Map.empty"
    "snd (env s') = env s" "\<not> pool_own_buffer (self_ctx s')"
    "\<And>x. x \<notin> region buffer (pool_block_round block_size * tot) \<Longrightarrow> mem s' x = mem s x"
proof -
  let ?bs = "pool_block_round block_size"
  define t where "t = pool_link_loop 0 tot ?bs buffer (ALLOC_POISON buffer (?bs * tot) s)"
  define s' where "s' = with_child \<lparr>pool_buffer = buffer, pool_block_size = ?bs,
    pool_total_blocks = tot, pool_free_list = buffer, pool_own_buffer = False,
    pool_child = child\<rparr> t"
  have run: "make_pool_allocator out child buffer block_size tot s = Some (Inr s')"
    using assms(1-4) by (simp add: make_pool_allocator_def s'_def t_def Let_def)
  moreover have "pool_inv buffer ?bs tot s' Map.empty"
    using g pool_link_lists [OF g] by (auto simp: pool_inv_def pool_ctx_ok_def s'_def t_def)
  moreover have "snd (env s') = env s" "\<not> pool_own_buffer (self_ctx s')"
    by (simp_all add: s'_def t_def pool_link_frame(1) [OF g])
  moreover have "mem s' x = mem s x" if "x \<notin> region buffer (?bs * tot)" for x
    by (simp add: s'_def t_def pool_link_frame(2) [OF g that])
  ultimately show thesis by (rule that)
qed

lemma pool_alloc_post:
  assumes "pool_inv B bs N s L"
  shows "\<exists>p s'. pool_alloc_fn n s = Some (p, s') \<and> alloc_post (pool_inv B bs N) (region B (bs * N)) L n s p s'"
  using assms by (cases rule: pool_alloc_cases [OF assms, of n]) (auto simp: alloc_post_def)

section \<open>Counting blocks\<close>

lemma pool_slots_image:
  assumes g: "pool_geometry B bs N"
  shows "pool_slots B bs N = (\<lambda>i. B + word_of_nat (i * unat bs)) ` {..<unat N}"
    "inj_on (\<lambda>i. B + word_of_nat (i * unat bs)) {..<unat N}"
proof -
  note G = pool_geometryD [OF g]
  have u: "unat (B + word_of_nat (i * unat bs)) = unat B + i * unat bs" if "i < unat N" for i
  proof -
    have "i * unat bs \<le> unat bs * unat N" using that by (simp add: mult.commute)
    then have lt: "unat B + i * unat bs < 2 ^ 64" using G(6) by linarith
    then have "unat (word_of_nat (i * unat bs) :: size_t) = i * unat bs" by (intro unat_of_nat64) linarith
    with lt show ?thesis by (subst unat_add64) simp_all
  qed
  show "pool_slots B bs N = (\<lambda>i. B + word_of_nat (i * unat bs)) ` {..<unat N}"
    using u by (auto simp: pool_slots_def image_iff word_eq_iff_unat)
  show "inj_on (\<lambda>i. B + word_of_nat (i * unat bs)) {..<unat N}"
  proof (rule inj_onI)
    fix i j assume "i \<in> {..<unat N}" "j \<in> {..<unat N}"
      and "B + word_of_nat (i * unat bs) = B + word_of_nat (j * unat bs)"
    then have "unat B + i * unat bs = unat B + j * unat bs" using u by (metis lessThan_iff)
    then show "i = j" using G(4) by simp
  qed
qed

lemma pool_slots_card: "pool_geometry B bs N \<Longrightarrow> finite (pool_slots B bs N) \<and> card (pool_slots B bs N) = unat N"
  using card_image [OF pool_slots_image(2)] pool_slots_image(1) by (metis card_lessThan finite_imageI finite_lessThan)

text \<open>No block is lost: the free list and the blocks in use make up the buffer.\<close>

lemma pool_conservation:
  assumes J: "pool_inv B bs N s L"
  obtains fs where "sll (mem s) (pool_free_list (self_ctx s)) fs" "distinct fs"
    "set fs \<inter> dom L = {}" "length fs + card (dom L) = unat N"
proof -
  have g: "pool_geometry B bs N" using J by (simp add: pool_inv_def)
  obtain fs where l: "pool_lists B bs N (mem s) (pool_free_list (self_ctx s)) fs L"
    using J by (auto simp: pool_inv_def)
  then have eq: "set fs \<union> dom L = pool_slots B bs N" and "set fs \<inter> dom L = {}" "distinct fs"
    by (simp_all add: pool_lists_def)
  moreover have "finite (dom L)" using eq pool_slots_card [OF g] by (metis finite_Un)
  ultimately have "length fs + card (dom L) = unat N"
    using pool_slots_card [OF g] by (metis List.finite_set card_Un_disjoint distinct_card)
  with l show thesis by (intro that [of fs]) (simp_all add: pool_lists_def)
qed

text \<open>A pool gives out every block before it fails.\<close>

lemma pool_alloc_success:
  assumes J: "pool_inv B bs N s L" and room: "card (dom L) < unat N" and n: "n \<noteq> 0" "unat n \<le> unat bs"
  obtains p s' where "pool_alloc_fn n s = Some (p, s')" "p \<noteq> NULL"
proof -
  obtain fs where fs: "sll (mem s) (pool_free_list (self_ctx s)) fs" "length fs + card (dom L) = unat N"
    by (rule pool_conservation [OF J])
  have h: "pool_free_list (self_ctx s) \<noteq> NULL" using fs room by (cases fs) auto
  have "\<not> n > pool_block_size (self_ctx s)"
    using J n(2) by (simp add: pool_inv_def pool_ctx_ok_def word_less_nat_alt)
  with h n(1) show thesis by (intro that) (simp_all add: pool_alloc_fn_def Let_def)
qed

text \<open>\<open>k\<close> requests of \<open>n\<close> bytes, one after the other, with all their results.\<close>

primrec pool_alloc_many :: "nat \<Rightarrow> size_t \<Rightarrow> 'e pool_machine \<Rightarrow> (ptr list \<times> 'e pool_machine) option" where
  "pool_alloc_many 0 n s = Some ([], s)"
| "pool_alloc_many (Suc k) n s = do {
     (p, s) \<leftarrow> pool_alloc_fn n s;
     (ps, s) \<leftarrow> pool_alloc_many k n s;
     Some (p # ps, s)
   }"

lemma pool_dom:
  assumes J: "pool_inv B bs N s L"
  shows "dom L \<subseteq> pool_slots B bs N" "finite (dom L)" "card (dom L) \<le> unat N"
    "card (dom L) = unat N \<longleftrightarrow> dom L = pool_slots B bs N"
proof -
  note c = pool_slots_card [of B bs N]
  have g: "pool_geometry B bs N" using J by (simp add: pool_inv_def)
  show sub: "dom L \<subseteq> pool_slots B bs N" using J by (auto simp: pool_inv_def pool_lists_def)
  then show "finite (dom L)" using c [OF g] finite_subset by blast
  show "card (dom L) \<le> unat N" using card_mono [OF _ sub] c [OF g] by simp
  show "card (dom L) = unat N \<longleftrightarrow> dom L = pool_slots B bs N"
    using card_subset_eq [OF _ sub] c [OF g] by auto
qed

text \<open>Requests until the pool is full give out exactly the blocks that are not in use, each once.\<close>

lemma pool_drain:
  assumes n: "n \<noteq> 0" "unat n \<le> unat bs"
  shows "pool_inv B bs N s L \<Longrightarrow> card (dom L) + k = unat N \<Longrightarrow>
    \<exists>ps s'. pool_alloc_many k n s = Some (ps, s') \<and> distinct ps \<and> length ps = k \<and> NULL \<notin> set ps \<and>
      set ps \<inter> dom L = {} \<and> set ps \<union> dom L = pool_slots B bs N \<and> pool_alloc_fn n s' = Some (NULL, s')"
proof (induction k arbitrary: s L)
  case 0
  then have "dom L = pool_slots B bs N" using pool_dom(4) by fastforce
  moreover from this have "pool_alloc_fn n s = Some (NULL, s)"
    by (cases rule: pool_alloc_cases [OF 0(1), of n]) auto
  ultimately show ?case by simp
next
  case (Suc k)
  show ?case
  proof (cases rule: pool_alloc_cases [OF Suc.prems(1), of n])
    case 1
    then show ?thesis using n pool_dom(4) [OF Suc.prems(1)] Suc.prems(2) by simp
  next
    case (2 p s1)
    have c: "card (dom (L(p \<mapsto> n))) + k = unat N"
      using 2(4) pool_dom(2) [OF Suc.prems(1)] Suc.prems(2) by simp
    obtain ps s' where ps: "pool_alloc_many k n s1 = Some (ps, s')" "distinct ps" "length ps = k" "NULL \<notin> set ps"
      "set ps \<inter> dom (L(p \<mapsto> n)) = {}" "set ps \<union> dom (L(p \<mapsto> n)) = pool_slots B bs N"
      "pool_alloc_fn n s' = Some (NULL, s')" using Suc.IH [OF 2(8) c] by blast
    show ?thesis
      by (intro exI [of _ "p # ps"] exI [of _ s']) (use 2(1,2,4) ps in auto)
  qed
qed

text \<open>A block that is given back can be had again, and nothing else is gained or lost.\<close>

lemma pool_free_drain:
  assumes J: "pool_inv B bs N s L" and p: "L p = Some k" and n: "n \<noteq> 0" "unat n \<le> unat bs"
  shows "\<exists>s1 ps s2. pool_free_fn p k s = Some ((), s1) \<and>
    pool_alloc_many (unat N - card (dom L) + 1) n s1 = Some (ps, s2) \<and> distinct ps \<and> NULL \<notin> set ps \<and>
    set ps \<inter> dom L = {p} \<and> pool_alloc_fn n s2 = Some (NULL, s2)"
proof -
  obtain s1 where s1: "pool_free_fn p k s = Some ((), s1)" "pool_inv B bs N s1 (L(p := None))"
    by (rule pool_free_ok [OF J p, of k])
  have dom: "dom (L(p := None)) = dom L - {p}" by simp
  have pL: "p \<in> dom L" using p by blast
  note D = pool_dom [OF J]
  have pos: "0 < card (dom L)" using pL D(2) by (auto simp: card_gt_0_iff)
  have "card (dom (L(p := None))) + (unat N - card (dom L) + 1) = unat N"
    unfolding dom using card_Diff_singleton [OF pL] pos D(3) by simp
  from pool_drain [OF n s1(2) this] obtain ps s2 where
    ps: "pool_alloc_many (unat N - card (dom L) + 1) n s1 = Some (ps, s2)" "distinct ps" "NULL \<notin> set ps"
      "set ps \<inter> (dom L - {p}) = {}" "set ps \<union> (dom L - {p}) = pool_slots B bs N"
      "pool_alloc_fn n s2 = Some (NULL, s2)" unfolding dom by blast
  have "p \<in> set ps" using ps(5) D(1) pL by blast
  then have "set ps \<inter> dom L = {p}" using ps(4) pL by blast
  with s1(1) ps show ?thesis by blast
qed

section \<open>A pool whose buffer comes from a child allocator\<close>

text \<open>
  \<open>F\<close> are the other blocks in use at the child. The pool's buffer is one more of its blocks
  from the factory to the destroy function, and the operations in between do not disturb it.
\<close>

definition pool_backed ::
  "'e allo \<Rightarrow> ('e machine \<Rightarrow> live_map \<Rightarrow> bool) \<Rightarrow> live_map \<Rightarrow> ptr \<Rightarrow> size_t \<Rightarrow> size_t \<Rightarrow>
     'e pool_machine \<Rightarrow> bool" where
  "pool_backed c cinv F B bs N s \<longleftrightarrow> cinv (child_state s) (F(B \<mapsto> bs * N)) \<and> B \<notin> dom F \<and>
     pool_own_buffer (self_ctx s) \<and> pool_child (self_ctx s) = Some c \<and> pool_ctx_ok B bs N (self_ctx s)"

context allocator
begin

lemma make_pool_owned:
  assumes I: "Inv s F" and args: "out \<noteq> 0" "block_size \<noteq> 0" "tot \<noteq> 0" "unat block_size < 2 ^ 63"
    and sz: "unat (pool_block_round block_size) * unat tot < lim"
  obtains (nomem) s' where
      "make_pool_allocator out (Some a) NULL block_size tot s = Some (Inl (ALLO_ERR_NOMEM, s'))"
      "Inv s' F" "kept heap F (mem s) (mem s')"
    | (ok) s' B where "make_pool_allocator out (Some a) NULL block_size tot s = Some (Inr s')"
      "pool_inv B (pool_block_round block_size) tot s' Map.empty"
      "pool_backed a Inv F B (pool_block_round block_size) tot s'" "kept heap F (mem s) (mem s')"
proof -
  let ?bs = "pool_block_round block_size"
  note bs = pool_block_round [OF args(4)]
  have prod: "unat (?bs * tot) = unat ?bs * unat tot" using sz lim_le by (simp add: unat_mult64)
  have so: "unat (?bs * tot) < lim" using sz prod by simp
  have make: "make_pool_allocator out (Some a) NULL block_size tot s = do {
      (buf, s) \<leftarrow> allo_alloc a (?bs * tot) s;
      if buf = NULL then Some (Inl (ALLO_ERR_NOMEM, s))
      else do {
        let s = ALLOC_POISON buf (?bs * tot) s;
        let s = pool_link_loop 0 tot ?bs buf s;
        Some (Inr (with_child \<lparr>pool_buffer = buf, pool_block_size = ?bs,
          pool_total_blocks = tot, pool_free_list = buf,
          pool_own_buffer = True, pool_child = Some a\<rparr> s))
      } }"
    using args(1-3) by (simp add: make_pool_allocator_def Let_def)
  show thesis
  proof (cases rule: alloc_cases [OF I so])
    case (1 s')
    then show thesis by (intro nomem [of s']) (simp_all add: make)
  next
    case (2 B t)
    define u where "u = pool_link_loop 0 tot ?bs B (ALLOC_POISON B (?bs * tot) t)"
    define s' where "s' = with_child \<lparr>pool_buffer = B, pool_block_size = ?bs,
        pool_total_blocks = tot, pool_free_list = B, pool_own_buffer = True,
        pool_child = Some a\<rparr> u"
    have bs0: "?bs \<noteq> 0" using bs(3) by (metis not_numeral_le_zero unat_0)
    have g: "pool_geometry B ?bs tot"
      using 2(6) bs(1) bs0 args(3) sz prod lim_le by (simp add: pool_geometry_def block_ok_def)
    have "make_pool_allocator out (Some a) NULL block_size tot s = Some (Inr s')"
      using 2(1,2) by (simp add: make s'_def u_def)
    moreover have "pool_inv B ?bs tot s' Map.empty"
      using g pool_link_lists [OF g] by (auto simp: pool_inv_def pool_ctx_ok_def s'_def u_def)
    moreover have "Inv u (F(B \<mapsto> ?bs * tot))"
    proof (rule client_write [OF 2(4)])
      show "env u = env t" by (simp add: u_def pool_link_frame(1) [OF g])
      fix x assume "x \<notin> live (F(B \<mapsto> ?bs * tot))"
      then have "x \<notin> region B (?bs * tot)" using 2(3) by (simp add: live_upd)
      then show "mem u x = mem t x" by (simp add: u_def pool_link_frame(2) [OF g])
    qed
    moreover have "kept heap F (mem t) (mem u)"
      by (rule kept_write [OF _ 2(7,8)]) (simp add: u_def pool_link_frame(2) [OF g])
    then have "kept heap F (mem s) (mem s')" using kept_trans [OF 2(5)] by (simp add: s'_def)
    ultimately show thesis
      using 2(3) by (intro ok [of s' B]) (simp_all add: pool_backed_def pool_ctx_ok_def s'_def)
  qed
qed

text \<open>What keeps memory outside the buffer and the child's state keeps the backing.\<close>

lemma pool_backed_step:
  assumes b: "pool_backed a Inv F B bs N s" and I: "pool_inv B bs N s' L'"
    and e: "snd (env s') = snd (env s)" and own: "pool_own_buffer (self_ctx s') = pool_own_buffer (self_ctx s)"
      "pool_child (self_ctx s') = pool_child (self_ctx s)"
    and k: "kept (region B (bs * N)) L (mem s) (mem s')"
  shows "pool_backed a Inv F B bs N s'"
proof -
  have "Inv (child_state s') (F(B \<mapsto> bs * N))"
  proof (rule client_write)
    show "Inv (child_state s) (F(B \<mapsto> bs * N))" using b by (simp add: pool_backed_def)
    show "env (child_state s') = env (child_state s)" using e by simp
    fix x assume "x \<notin> live (F(B \<mapsto> bs * N))"
    then have "x \<notin> region B (bs * N)" using b by (simp add: pool_backed_def live_upd)
    with k show "mem (child_state s') x = mem (child_state s) x" by (simp add: kept_def)
  qed
  with b I own show ?thesis by (simp add: pool_backed_def pool_inv_def)
qed

lemma pool_destroy_ok:
  assumes b: "pool_backed a Inv F B bs N s"
  obtains s' where "pool_destroy_fn s = Some ((), s')" "Inv (child_state s') F"
proof -
  have I: "Inv (child_state s) (F(B \<mapsto> bs * N))" using b by (simp add: pool_backed_def)
  obtain t where t: "allo_free a B (bs * N) (child_state s) = Some ((), t)"
    "Inv t ((F(B \<mapsto> bs * N))(B := None))"
    by (rule free_ok [OF I, of B "bs * N"]) simp
  have "(F(B \<mapsto> bs * N))(B := None) = F" using b by (auto simp: pool_backed_def fun_eq_iff)
  with t b show thesis
    by (intro that [of "with_child (self_ctx s) t"])
      (auto simp: pool_destroy_fn_def pool_backed_def pool_ctx_ok_def call_child_def)
qed

end

end
