(* ===== verification/Arena.thy ===== *)
theory Arena
  imports Buffer HeapLists
begin

text \<open>
  The arena allocator, \<open>src/allo_arena.c\<close>: a chain of blocks got from the child, each with a
  24-byte header (next, size, offset) kept in memory, and a bump offset in the current one.
  Shown: over any child that meets the contract the arena meets it too, and destroying the arena
  gives back exactly the blocks it took.
\<close>

section \<open>Code\<close>

record 'e arena_context_t =
  ar_first :: ptr
  ar_current :: ptr
  ar_block_size :: size_t
  ar_child :: "'e allo"

type_synonym 'e arena_machine = "('e arena_context_t \<times> 'e) machine"

text \<open>The header \<open>arena_block_t\<close>: the link at offset 0, then the size and the offset.\<close>

definition blk_size :: "memory \<Rightarrow> ptr \<Rightarrow> size_t" where
  "blk_size m b = load64 m (b + 8)"

definition blk_offset :: "memory \<Rightarrow> ptr \<Rightarrow> size_t" where
  "blk_offset m b = load64 m (b + 16)"

partial_function (option) arena_contains_loop ::
  "memory \<Rightarrow> ptr \<Rightarrow> ptr \<Rightarrow> ptr \<Rightarrow> allo_contains_t option" where
  "arena_contains_loop m current p cur =
     (if cur = NULL then Some ALLO_CONTAINS_NO
      else
        (let block_start = cur + 24; block_end = block_start + blk_size m cur in
         if cur \<noteq> current \<and> p \<ge> block_start \<and> p < block_end then Some ALLO_CONTAINS_YES
         else arena_contains_loop m current p (load64 m cur)))"

definition arena_contains_fn :: "ptr \<Rightarrow> 'e arena_machine \<Rightarrow> (allo_contains_t \<times> 'e arena_machine) option" where
  "arena_contains_fn p s =
     (let ctx = self_ctx s;
          block_start = ar_current ctx + 24;
          block_end = block_start + blk_size (mem s) (ar_current ctx)
      in if p \<ge> block_start \<and> p < block_end then Some (ALLO_CONTAINS_YES, s)
         else do {
           r \<leftarrow> arena_contains_loop (mem s) (ar_current ctx) p (ar_first ctx);
           Some (r, s)
         })"

definition new_arena_block :: "'e allo \<Rightarrow> size_t \<Rightarrow> 'e machine \<Rightarrow> (ptr \<times> 'e machine) option" where
  "new_arena_block child n s = do {
     (block, s) \<leftarrow> allo_alloc child (24 + n) s;
     if block = NULL then Some (NULL, s)
     else do {
       let s = wr64 block NULL s;
       let s = wr64 (block + 8) n s;
       let s = wr64 (block + 16) 0 s;
       Some (block, ALLOC_POISON (block + 24) n s)
     }
   }"

text \<open>The last lines of \<open>arena_alloc_fn\<close>: take \<open>n\<close> bytes of the current block.\<close>

definition arena_bump :: "size_t \<Rightarrow> size_t \<Rightarrow> 'e arena_machine \<Rightarrow> (ptr \<times> 'e arena_machine) option" where
  "arena_bump aligned_offset n s =
     (let current = ar_current (self_ctx s);
          p = current + 24 + aligned_offset;
          s = wr64 (current + 16) (aligned_offset + n) s
      in Some (p, ALLOC_UNPOISON p n s))"

definition arena_alloc_fn :: "size_t \<Rightarrow> 'e arena_machine \<Rightarrow> (ptr \<times> 'e arena_machine) option" where
  "arena_alloc_fn n s =
     (if n = 0 then Some (NULL, s)
      else
        (let ctx = self_ctx s;
             current = ar_current ctx;
             aligned_offset = allo_align_up (blk_offset (mem s) current) 8
         in
           if n > ar_block_size ctx then do {
             (block, s) \<leftarrow> call_child (new_arena_block (ar_child ctx) n) s;
             if block = NULL then Some (NULL, s)
             else do {
               let s = wr64 block (rd64 s current) s;
               let s = wr64 current block s;
               let s = wr64 (block + 16) n s;
               let p = block + 24;
               Some (p, ALLOC_UNPOISON p n s)
             }
           }
           else if aligned_offset + n > blk_size (mem s) current then do {
             (block, s) \<leftarrow> call_child (new_arena_block (ar_child ctx) (ar_block_size ctx)) s;
             if block = NULL then Some (NULL, s)
             else do {
               let s = wr64 block (rd64 s current) s;
               let s = wr64 current block s;
               let s = set_ctx (ctx\<lparr>ar_current := block\<rparr>) s;
               arena_bump 0 n s
             }
           }
           else arena_bump aligned_offset n s))"

definition arena_realloc_fn ::
  "ptr \<Rightarrow> size_t \<Rightarrow> size_t \<Rightarrow> 'e arena_machine \<Rightarrow> (ptr \<times> 'e arena_machine) option" where
  "arena_realloc_fn p old_size new_size s = (
     let ctx = self_ctx s;
         current = ar_current ctx;
         block_start = current + 24;
         last_alloc_end = block_start + blk_offset (mem s) current;
         is_last_alloc = (p + old_size = last_alloc_end);
         belongs_to_current = (p \<ge> block_start);
         offset_without_this = p - block_start;
         fits_in_current = (offset_without_this + new_size \<le> blk_size (mem s) current)
     in
       if is_last_alloc \<and> belongs_to_current \<and> fits_in_current then
         (let s = wr64 (current + 16) (offset_without_this + new_size) s in
          if new_size > old_size
          then Some (p, ALLOC_UNPOISON (p + old_size) (new_size - old_size) s)
          else Some (p, ALLOC_POISON (p + new_size) (old_size - new_size) s))
       else if new_size \<le> old_size then Some (p, s)
       else do {
         (new_ptr, s) \<leftarrow> arena_alloc_fn new_size s;
         if new_ptr = NULL then Some (NULL, s)
         else do {
           (_, s) \<leftarrow> allo_memcpy new_ptr p old_size s;
           Some (new_ptr, s)
         }
       })"

definition arena_free_fn :: "ptr \<Rightarrow> size_t \<Rightarrow> 'e arena_machine \<Rightarrow> (unit \<times> 'e arena_machine) option" where
  "arena_free_fn p n s =
     (if p = NULL \<or> n = 0 then Some ((), s)
      else do {
        (r, s) \<leftarrow> arena_contains_fn p s;
        Some ((), if r = ALLO_CONTAINS_NO then s else ALLOC_POISON p n s)
      })"

partial_function (option) arena_destroy_loop ::
  "'e allo \<Rightarrow> ptr \<Rightarrow> 'e machine \<Rightarrow> (unit \<times> 'e machine) option" where
  "arena_destroy_loop child cur s =
     (if cur = NULL then Some ((), s)
      else do {
        let nxt = rd64 s cur;
        (_, s) \<leftarrow> allo_free child cur (24 + blk_size (mem s) cur) s;
        arena_destroy_loop child nxt s
      })"

definition arena_destroy_fn :: "'e arena_machine \<Rightarrow> (unit \<times> 'e arena_machine) option" where
  "arena_destroy_fn s =
     (let ctx = self_ctx s in call_child (arena_destroy_loop (ar_child ctx) (ar_first ctx)) s)"

definition arena_allo :: "('e arena_context_t \<times> 'e) allo" where
  "arena_allo = \<lparr>vt_alloc = arena_alloc_fn, vt_realloc = arena_realloc_fn,
     vt_free_mem = arena_free_fn, vt_destroy = Some arena_destroy_fn,
     vt_contains = Some arena_contains_fn\<rparr>"

definition make_arena_allocator ::
  "ptr \<Rightarrow> 'e allo option \<Rightarrow> size_t \<Rightarrow> 'e machine \<Rightarrow>
     ((allo_error_t \<times> 'e machine) + 'e arena_machine) option" where
  "make_arena_allocator out child block_size s =
     (case child of
        None \<Rightarrow> Some (Inl (ALLO_ERR_INVAL, s))
      | Some c \<Rightarrow>
          if out = NULL \<or> block_size = 0 then Some (Inl (ALLO_ERR_INVAL, s))
          else do {
            (first, s) \<leftarrow> new_arena_block c block_size s;
            if first = NULL then Some (Inl (ALLO_ERR_NOMEM, s))
            else Some (Inr (with_child \<lparr>ar_first = first, ar_current = first,
                   ar_block_size = block_size, ar_child = c\<rparr> s))
          })"

section \<open>Block headers\<close>

lemma header_unat:
  fixes b :: ptr
  assumes "unat b + 24 < 2 ^ 64"
  shows "unat (b + 8) = unat b + 8" "unat (b + 16) = unat b + 16" "unat (b + 24) = unat b + 24"
  using assms unat_add64 [of b 8] unat_add64 [of b 16] unat_add64 [of b 24] by simp_all

lemma header_cong:
  assumes "unat b + 24 < 2 ^ 64" "\<And>x. x \<in> region b 24 \<Longrightarrow> m' x = m x"
  shows "load64 m' b = load64 m b" "blk_size m' b = blk_size m b" "blk_offset m' b = blk_offset m b"
proof -
  note u = header_unat [OF assms(1)]
  show "load64 m' b = load64 m b"
    using assms by (intro load64_cong) (auto simp: mem_region)
  show "blk_size m' b = blk_size m b"
    unfolding blk_size_def using assms u by (intro load64_cong) (auto simp: mem_region)
  show "blk_offset m' b = blk_offset m b"
    unfolding blk_offset_def using assms u by (intro load64_cong) (auto simp: mem_region)
qed

text \<open>The child's blocks that are arena blocks: room for the header, and apart from each other.\<close>

definition blk_ok :: "live_map \<Rightarrow> ptr \<Rightarrow> size_t \<Rightarrow> bool" where
  "blk_ok C b k \<longleftrightarrow> C b = Some (24 + k) \<and> unat k + 24 < 2 ^ 63"

lemma blk_ok_facts:
  assumes "live_ok cheap C" "blk_ok C b k"
  shows "b \<noteq> 0" "8 dvd unat b" "unat b + 24 + unat k < 2 ^ 64" "unat (24 + k) = 24 + unat k"
    "region b (24 + k) \<subseteq> cheap" "region b (24 + k) \<subseteq> live C"
proof -
  show u: "unat (24 + k) = 24 + unat k"
    using assms(2) by (simp add: blk_ok_def unat_add64)
  have "block_ok b (24 + k)" and "region b (24 + k) \<subseteq> cheap"
    using live_okD [OF assms(1)] assms(2) by (auto simp: blk_ok_def)
  with u show "b \<noteq> 0" "8 dvd unat b" "unat b + 24 + unat k < 2 ^ 64" "region b (24 + k) \<subseteq> cheap"
    by (simp_all add: block_ok_def)
  show "region b (24 + k) \<subseteq> live C" using assms(2) by (auto simp: blk_ok_def live_def)
qed

lemma blk_apart:
  assumes l: "live_ok cheap C" and b: "blk_ok C b k" and b': "blk_ok C b' k'" and ne: "b \<noteq> b'"
  shows "unat b + 24 + unat k \<le> unat b' \<or> unat b' + 24 + unat k' \<le> unat b"
proof -
  note f = blk_ok_facts(4) [OF l b] blk_ok_facts(4) [OF l b']
  have "region b (24 + k) \<inter> region b' (24 + k') = {}"
    using live_ok_disjoint [OF l] b b' ne by (auto simp: blk_ok_def)
  moreover have "24 + k \<noteq> 0" "24 + k' \<noteq> 0" using f by (auto simp: word_eq_iff_unat)
  ultimately show ?thesis using f by (simp add: region_disjoint_iff add.assoc)
qed

section \<open>Invariant\<close>

definition arena_blocks :: "memory \<Rightarrow> ptr \<Rightarrow> ptr \<Rightarrow> ptr list \<Rightarrow> live_map \<Rightarrow> bool" where
  "arena_blocks m f c bs C \<longleftrightarrow> sll m f bs \<and> distinct bs \<and> c \<in> set bs \<and>
     (\<forall>b\<in>set bs. blk_ok C b (blk_size m b) \<and> unat (blk_offset m b) \<le> unat (blk_size m b))"

text \<open>A live block lies in the used part of one arena block's payload.\<close>

definition in_block :: "memory \<Rightarrow> ptr \<Rightarrow> ptr \<Rightarrow> size_t \<Rightarrow> bool" where
  "in_block m b p n \<longleftrightarrow> unat b + 24 \<le> unat p \<and>
     unat p + unat n \<le> unat b + 24 + unat (blk_offset m b)"

text \<open>
  \<open>C\<close>: all blocks in use at the child; \<open>F\<close>: those that are not the arena's; \<open>bs\<close>: the chain.
\<close>

definition arena_core :: "ptr set \<Rightarrow> live_map \<Rightarrow> memory \<Rightarrow> ptr \<Rightarrow> ptr \<Rightarrow> ptr list \<Rightarrow> live_map \<Rightarrow>
    live_map \<Rightarrow> bool" where
  "arena_core cheap F m f c bs C L \<longleftrightarrow> live_ok cheap C \<and> C |` (- set bs) = F \<and>
     arena_blocks m f c bs C \<and> live_ok (cheap - live F) L \<and>
     (\<forall>p n. L p = Some n \<longrightarrow> (\<exists>b\<in>set bs. in_block m b p n))"

definition arena_inv :: "'e allo \<Rightarrow> ('e machine \<Rightarrow> live_map \<Rightarrow> bool) \<Rightarrow> ptr set \<Rightarrow> live_map \<Rightarrow>
    size_t \<Rightarrow> 'e arena_machine \<Rightarrow> live_map \<Rightarrow> bool" where
  "arena_inv c cinv cheap F bsz s L \<longleftrightarrow>
     ar_child (self_ctx s) = c \<and> ar_block_size (self_ctx s) = bsz \<and>
     (\<exists>C bs. cinv (child_state s) C \<and>
       arena_core cheap F (mem s) (ar_first (self_ctx s)) (ar_current (self_ctx s)) bs C L)"

lemma arena_coreD:
  assumes "arena_core cheap F m f c bs C L"
  shows "live_ok cheap C" "C |` (- set bs) = F" "sll m f bs" "distinct bs" "c \<in> set bs"
    "live_ok (cheap - live F) L"
  using assms by (simp_all add: arena_core_def arena_blocks_def)

lemma arena_core_blk:
  assumes "arena_core cheap F m f c bs C L" "b \<in> set bs"
  shows "blk_ok C b (blk_size m b)" "unat (blk_offset m b) \<le> unat (blk_size m b)"
  using assms by (auto simp: arena_core_def arena_blocks_def)

lemma arena_core_in:
  "arena_core cheap F m f c bs C L \<Longrightarrow> L p = Some n \<Longrightarrow> \<exists>b\<in>set bs. in_block m b p n"
  by (auto simp: arena_core_def)

lemma arena_core_facts:
  assumes "arena_core cheap F m f c bs C L" "b \<in> set bs"
  shows "b \<noteq> 0" "8 dvd unat b" "unat b + 24 + unat (blk_size m b) < 2 ^ 64"
    "region b (24 + blk_size m b) \<subseteq> cheap" "region b (24 + blk_size m b) \<subseteq> live C"
    "unat (24 + blk_size m b) = 24 + unat (blk_size m b)" "unat (blk_size m b) + 24 < 2 ^ 63"
  using blk_ok_facts [OF arena_coreD(1) [OF assms(1)] arena_core_blk(1) [OF assms]]
    arena_core_blk(1) [OF assms] by (simp_all add: blk_ok_def)

lemma arena_core_apart:
  assumes "arena_core cheap F m f c bs C L" "b \<in> set bs" "b' \<in> set bs" "b \<noteq> b'"
  shows "unat b + 24 + unat (blk_size m b) \<le> unat b' \<or> unat b' + 24 + unat (blk_size m b') \<le> unat b"
  using blk_apart [OF arena_coreD(1) [OF assms(1)] arena_core_blk(1) [OF assms(1,2)]
      arena_core_blk(1) [OF assms(1,3)] assms(4)] .

text \<open>The blocks of others are apart from every arena block.\<close>

lemma arena_core_F:
  assumes A: "arena_core cheap F m f c bs C L" and b: "b \<in> set bs"
  shows "region b (24 + blk_size m b) \<inter> live F = {}"
proof -
  note D = arena_coreD [OF A]
  have "region b (24 + blk_size m b) \<inter> region q k = {}" if q: "F q = Some k" for q k
  proof -
    have "C q = Some k" "q \<noteq> b"
      using q b unfolding D(2) [symmetric] by (auto simp: restrict_map_def split: if_splits)
    then show ?thesis
      using live_ok_disjoint [OF D(1)] arena_core_blk(1) [OF A b] by (auto simp: blk_ok_def)
  qed
  then show ?thesis by (auto simp: live_def)
qed

lemma arena_core_live_F: "arena_core cheap F m f c bs C L \<Longrightarrow> live F \<subseteq> live C"
  by (drule arena_coreD(2), drule sym) (auto simp: live_def restrict_map_def split: if_splits)

lemma arena_core_live_sub:
  assumes A: "arena_core cheap F m f c bs C L" and p: "L p = Some n"
  obtains b where "b \<in> set bs" "in_block m b p n" "region p n \<subseteq> region b (24 + blk_size m b)"
    "region b 24 \<inter> region p n = {}" "region p n \<subseteq> live C"
proof -
  obtain b where b: "b \<in> set bs" "in_block m b p n" using arena_core_in [OF A p] by blast
  note f = arena_core_facts [OF A b(1)]
  have sub: "region p n \<subseteq> region b (24 + blk_size m b)"
    using b(2) f(6) arena_core_blk(2) [OF A b(1)] by (intro region_subset) (auto simp: in_block_def)
  moreover have "region b 24 \<inter> region p n = {}"
    using b(2) by (intro region_disjoint) (simp add: in_block_def)
  ultimately show thesis using that [OF b] f(5) by blast
qed

lemma arena_core_live_C: "arena_core cheap F m f c bs C L \<Longrightarrow> live L \<subseteq> live C"
  by (auto simp: live_def [of L] elim!: arena_core_live_sub)

text \<open>No header lies in a live block or in a block of others.\<close>

lemma arena_header_free:
  assumes A: "arena_core cheap F m f c bs C L" and b: "b \<in> set bs"
  shows "region b 24 \<inter> live L = {}" "region b 24 \<subseteq> cheap - live F"
proof -
  have h: "region b 24 \<subseteq> region b (24 + blk_size m b)"
    using arena_core_facts(6) [OF A b] by (intro region_mono) simp
  then show "region b 24 \<subseteq> cheap - live F"
    using arena_core_F [OF A b] arena_core_facts(4) [OF A b] by blast
  have "region b 24 \<inter> region p n = {}" if p: "L p = Some n" for p n
  proof -
    obtain b' where b': "b' \<in> set bs" "region p n \<subseteq> region b' (24 + blk_size m b')"
      "region b' 24 \<inter> region p n = {}" by (rule arena_core_live_sub [OF A p])
    show ?thesis
    proof (cases "b' = b")
      case False
      then have "region b (24 + blk_size m b) \<inter> region b' (24 + blk_size m b') = {}"
        using arena_core_apart [OF A b b'(1)] arena_core_facts(6) [OF A b] arena_core_facts(6) [OF A b'(1)]
        by (intro region_disjoint) auto
      with b'(2) h show ?thesis by blast
    qed (use b'(3) in simp)
  qed
  then show "region b 24 \<inter> live L = {}" by (auto simp: live_def)
qed


text \<open>Headers may not change; everything else may.\<close>

lemma arena_core_cong:
  assumes A: "arena_core cheap F m f c bs C L"
    and eq: "\<And>b x. b \<in> set bs \<Longrightarrow> x \<in> region b 24 \<Longrightarrow> m' x = m x"
  shows "arena_core cheap F m' f c bs C L"
proof -
  have h: "load64 m' b = load64 m b \<and> blk_size m' b = blk_size m b \<and> blk_offset m' b = blk_offset m b"
    if "b \<in> set bs" for b
    using arena_core_facts(3) [OF A that] header_cong [of b m' m] eq [OF that] by simp
  then have "sll m' f bs \<longleftrightarrow> sll m f bs" by (intro sll_cong) simp
  with A h show ?thesis by (auto simp: arena_core_def arena_blocks_def in_block_def)
qed

text \<open>Setting the offset of a block.\<close>

lemma store_offset:
  fixes v :: size_t
  assumes A: "arena_core cheap F m f c bs C L" and b: "b \<in> set bs" "b' \<in> set bs"
  shows "load64 (store64 (b + 16) v m) b' = load64 m b'"
    "blk_size (store64 (b + 16) v m) b' = blk_size m b'"
    "blk_offset (store64 (b + 16) v m) b' = (if b' = b then v else blk_offset m b')"
proof -
  have f: "unat b + 24 < 2 ^ 64" "unat b' + 24 < 2 ^ 64"
    using arena_core_facts(3) [OF A b(1)] arena_core_facts(3) [OF A b(2)] by simp_all
  note u = header_unat [OF f(1)] header_unat [OF f(2)]
  have ap: "b' = b \<or> unat b + 24 \<le> unat b' \<or> unat b' + 24 \<le> unat b"
    using arena_core_apart [OF A b] by (cases "b = b'") auto
  show "load64 (store64 (b + 16) v m) b' = load64 m b'"
    using f u ap by (intro load64_store64_other) auto
  show "blk_size (store64 (b + 16) v m) b' = blk_size m b'"
    unfolding blk_size_def using f u ap by (intro load64_store64_other) auto
  show "blk_offset (store64 (b + 16) v m) b' = (if b' = b then v else blk_offset m b')"
  proof (cases "b' = b")
    case False
    have "load64 (store64 (b + 16) v m) (b' + 16) = load64 m (b' + 16)"
      using f u ap False by (intro load64_store64_other) auto
    with False show ?thesis by (simp add: blk_offset_def)
  qed (simp add: blk_offset_def)
qed

lemma arena_core_offset:
  assumes A: "arena_core cheap F m f c bs C L" and b: "b \<in> set bs" and v: "unat v \<le> unat (blk_size m b)"
    and L: "live_ok (cheap - live F) L'"
      "\<And>p n. L' p = Some n \<Longrightarrow> \<exists>b'\<in>set bs. in_block (store64 (b + 16) v m) b' p n"
  shows "arena_core cheap F (store64 (b + 16) v m) f c bs C L'"
proof -
  note st = store_offset [OF A b, where v = v]
  have "sll (store64 (b + 16) v m) f bs \<longleftrightarrow> sll m f bs" using st(1) by (intro sll_cong) simp
  with A L v st show ?thesis by (auto simp: arena_core_def arena_blocks_def)
qed

lemma in_blockI:
  "b' \<in> set bs \<Longrightarrow> in_block m b' q k \<Longrightarrow> unat (blk_offset m b') \<le> unat (blk_offset m' b') \<Longrightarrow>
   \<exists>b\<in>set bs. in_block m' b q k"
  by (rule bexI [of _ b']) (simp_all add: in_block_def)

lemma payload_block_ok:
  assumes "unat p = unat b + 24 + unat u" "8 dvd unat p" "unat u + unat n \<le> unat k"
    "unat b + 24 + unat k < 2 ^ 64" "unat k + 24 < 2 ^ 63" "n \<noteq> 0"
  shows "block_ok p n"
proof -
  have "unat p \<noteq> 0" using assms(1) by simp
  then have "p \<noteq> 0" by auto
  with assms show ?thesis by (simp add: block_ok_def size_ok_def)
qed

text \<open>The bump: a block from the first aligned offset at or above the used part.\<close>

lemma arena_core_take:
  assumes A: "arena_core cheap F m f c bs C L" and b: "b \<in> set bs" and n: "n \<noteq> 0"
    and o: "unat (blk_offset m b) \<le> unat u" "unat u + unat n \<le> unat (blk_size m b)" "8 dvd unat u"
  defines "p \<equiv> b + 24 + u"
  shows "arena_core cheap F (store64 (b + 16) (u + n) m) f c bs C (L(p \<mapsto> n))"
    "p \<notin> dom L" "p \<noteq> 0"
proof -
  note f = arena_core_facts [OF A b] and D = arena_coreD [OF A]
  have un: "unat (u + n) = unat u + unat n" using o f(3) by (intro unat_add64) linarith
  have up: "unat p = unat b + 24 + unat u"
    unfolding p_def using o f(3) header_unat(3) [of b] by (subst unat_add64) auto
  have blk: "block_ok p n"
    using payload_block_ok [OF up _ o(2) f(3,7) n] f(2) o(3) by (simp add: up)
  have sub: "region p n \<subseteq> region b (24 + blk_size m b)"
    using up o f(6) by (intro region_subset) auto
  then have heap: "region p n \<subseteq> cheap - live F" using f(4) arena_core_F [OF A b] by blast
  have sep: "region p n \<inter> region q k = {}" if q: "L q = Some k" for q k
  proof -
    obtain b' where b': "b' \<in> set bs" "in_block m b' q k" using arena_core_in [OF A q] by blast
    show ?thesis
    proof (cases "b' = b")
      case True
      then show ?thesis using b'(2) up o by (intro region_disjoint) (auto simp: in_block_def)
    next
      case False
      then show ?thesis
        using b'(2) up o arena_core_apart [OF A b b'(1)] arena_core_blk(2) [OF A b'(1)]
        by (intro region_disjoint) (auto simp: in_block_def)
    qed
  qed
  then have sepL: "region p n \<inter> live L = {}" by (auto simp: live_def)
  show fresh: "p \<notin> dom L"
  proof
    assume "p \<in> dom L"
    then obtain k where k: "L p = Some k" by blast
    then have "p \<in> region p k" using live_okD(1) [OF D(6)] by (intro region_self) (auto simp: block_ok_def)
    with sep [OF k] region_self [OF n, of p] show False by blast
  qed
  show "p \<noteq> 0" using blk by (simp add: block_ok_def)
  show "arena_core cheap F (store64 (b + 16) (u + n) m) f c bs C (L(p \<mapsto> n))"
  proof (rule arena_core_offset [OF A b])
    show "unat (u + n) \<le> unat (blk_size m b)" using un o by simp
    show "live_ok (cheap - live F) (L(p \<mapsto> n))" by (rule live_ok_upd [OF D(6) blk heap sepL])
    fix q k assume "(L(p \<mapsto> n)) q = Some k"
    then consider "q = p" "k = n" | "L q = Some k" by (cases "q = p") auto
    then show "\<exists>b'\<in>set bs. in_block (store64 (b + 16) (u + n) m) b' q k"
    proof cases
      case 1
      have "in_block (store64 (b + 16) (u + n) m) b p n"
        using up un unfolding in_block_def store_offset(3) [OF A b b] by simp
      with b 1 show ?thesis by blast
    next
      case 2
      then obtain b' where b': "b' \<in> set bs" "in_block m b' q k" using arena_core_in [OF A 2] by blast
      show ?thesis
        by (rule in_blockI [OF b']) (use o un in \<open>simp add: store_offset(3) [OF A b b'(1)]\<close>)
    qed
  qed
qed

text \<open>Growing or shrinking the last block of the used part.\<close>

lemma arena_core_last:
  assumes A: "arena_core cheap F m f c bs C L" and b: "b \<in> set bs" and p: "L p = Some n"
    and k: "k \<noteq> 0" and last: "unat p + unat n = unat b + 24 + unat (blk_offset m b)"
    and lo: "unat b + 24 \<le> unat p" and fit: "unat (p - (b + 24)) + unat k \<le> unat (blk_size m b)"
  shows "arena_core cheap F (store64 (b + 16) (p - (b + 24) + k) m) f c bs C (L(p \<mapsto> k))"
proof -
  define u where "u = p - (b + 24)"
  note f = arena_core_facts [OF A b] and D = arena_coreD [OF A]
  note bp = block_okD [OF live_okD(1) [OF D(6) p]]
  have uu: "unat u = unat p - (unat b + 24)"
    unfolding u_def using lo f(3) header_unat(3) [of b] by (subst unat_diff64) auto
  have un: "unat (u + k) = unat u + unat k" using fit f(3) by (intro unat_add64) (simp add: u_def)
  have up: "unat p = unat b + 24 + unat u" using uu lo by simp
  have fit': "unat u + unat k \<le> unat (blk_size m b)" using fit by (simp add: u_def)
  have blk: "block_ok p k"
    by (rule payload_block_ok [OF up bp(3) fit' f(3,7) k])
  have sub: "region p k \<subseteq> region b (24 + blk_size m b)"
    using up fit' f(6) by (intro region_subset) auto
  then have heap: "region p k \<subseteq> cheap - live F" using f(4) arena_core_F [OF A b] by blast
  have below: "unat q + unat j \<le> unat p" if q: "L q = Some j" "q \<noteq> p" "in_block m b q j" for q j
  proof -
    have j: "j \<noteq> 0" using live_okD(1) [OF D(6) q(1)] by (simp add: block_ok_def)
    have "region q j \<inter> region p n = {}" using live_ok_disjoint [OF D(6) q(1) p q(2)] .
    with j bp(2) have "unat q + unat j \<le> unat p \<or> unat p + unat n \<le> unat q"
      by (simp add: region_disjoint_iff)
    with q(3) last unat_pos64 [OF j] show ?thesis by (auto simp: in_block_def)
  qed
  have sep: "region p k \<inter> region q j = {}" if q: "L q = Some j" "q \<noteq> p" for q j
  proof -
    obtain b' where b': "b' \<in> set bs" "in_block m b' q j" using arena_core_in [OF A q(1)] by blast
    show ?thesis
    proof (cases "b' = b")
      case True
      then show ?thesis using b'(2) below [OF q] by (intro region_disjoint) simp
    next
      case False
      then show ?thesis
        using b'(2) up fit' arena_core_apart [OF A b b'(1)] arena_core_blk(2) [OF A b'(1)]
        by (intro region_disjoint) (auto simp: in_block_def)
    qed
  qed
  then have sepL: "region p k \<inter> live (L(p := None)) = {}" by (auto simp: live_def split: if_splits)
  show ?thesis
    unfolding u_def [symmetric]
  proof (rule arena_core_offset [OF A b])
    show "unat (u + k) \<le> unat (blk_size m b)" using un fit' by simp
    show "live_ok (cheap - live F) (L(p \<mapsto> k))" by (rule live_ok_resize [OF D(6) blk heap sepL])
    fix q j assume "(L(p \<mapsto> k)) q = Some j"
    then consider "q = p" "j = k" | "L q = Some j" "q \<noteq> p" by (cases "q = p") auto
    then show "\<exists>b'\<in>set bs. in_block (store64 (b + 16) (u + k) m) b' q j"
    proof cases
      case 1
      have "in_block (store64 (b + 16) (u + k) m) b p k"
        using up un unfolding in_block_def store_offset(3) [OF A b b] by simp
      with b 1 show ?thesis by blast
    next
      case 2
      then obtain b' where b': "b' \<in> set bs" "in_block m b' q j" using arena_core_in [OF A 2(1)] by blast
      show ?thesis
      proof (cases "b' = b")
        case True
        have "in_block (store64 (b + 16) (u + k) m) b q j"
          using b'(2) below [OF 2] up un True unfolding in_block_def store_offset(3) [OF A b b] by simp
        with b show ?thesis by blast
      next
        case False
        show ?thesis by (rule in_blockI [OF b']) (simp add: store_offset(3) [OF A b b'(1)] False)
      qed
    qed
  qed
qed

lemma arena_core_forget: "arena_core cheap F m f c bs C L \<Longrightarrow> arena_core cheap F m f c bs C (L(p := None))"
  by (auto simp: arena_core_def live_ok_del)

lemma arena_core_shrink:
  assumes A: "arena_core cheap F m f c bs C L" and p: "L p = Some n" and k: "k \<noteq> 0" "k \<le> n"
  shows "arena_core cheap F m f c bs C (L(p \<mapsto> k))"
proof -
  note D = arena_coreD [OF A]
  have kn: "unat k \<le> unat n" using k(2) by (simp add: word_le_nat_alt)
  have sub: "region p k \<subseteq> region p n" using kn by (rule region_mono)
  have "live_ok (cheap - live F) (L(p \<mapsto> k))"
  proof (rule live_ok_resize [OF D(6)])
    show "block_ok p k" using live_okD(1) [OF D(6) p] k(1) kn by (auto simp: block_ok_def size_ok_def)
    show "region p k \<subseteq> cheap - live F" using sub live_okD(2) [OF D(6) p] by blast
    show "region p k \<inter> live (L(p := None)) = {}" using sub live_del_disjoint [OF D(6) p] by blast
  qed
  moreover have "\<exists>b\<in>set bs. in_block m b p k"
    using arena_core_in [OF A p] kn by (auto simp: in_block_def)
  ultimately show ?thesis using A by (auto simp: arena_core_def)
qed

text \<open>
  Linking a fresh block in behind the current one; afterwards it or the old one is current.
\<close>

lemma arena_core_insert:
  assumes A: "arena_core cheap F m f c bs C L" and lC: "live_ok cheap (C(b \<mapsto> 24 + k))"
    and b: "b \<notin> dom C" "unat k + 24 < 2 ^ 63"
    and m1: "\<And>x. x \<in> live C \<Longrightarrow> m1 x = m x" "blk_size m1 b = k" "blk_offset m1 b = 0"
  defines "m2 \<equiv> store64 c b (store64 b (load64 m1 c) m1)"
  obtains bs' where "set bs' = insert b (set bs)"
    "\<And>c'. c' \<in> {b, c} \<Longrightarrow> arena_core cheap F m2 f c' bs' (C(b \<mapsto> 24 + k)) L"
    "blk_size m2 b = k" "blk_offset m2 b = 0"
    "\<And>x. x \<notin> region b 8 \<Longrightarrow> x \<notin> region c 8 \<Longrightarrow> m2 x = m1 x"
proof -
  let ?C = "C(b \<mapsto> 24 + k)"
  note D = arena_coreD [OF A]
  have kb: "blk_ok ?C b k" using b(2) by (simp add: blk_ok_def)
  note fb = blk_ok_facts [OF lC kb]
  have new: "b \<notin> set bs" using b(1) arena_core_blk(1) [OF A] by (auto simp: blk_ok_def)
  have old: "blk_ok ?C b' (blk_size m b')" if "b' \<in> set bs" for b'
    using arena_core_blk(1) [OF A that] new that by (auto simp: blk_ok_def)
  have nw: "unat b' + 24 < 2 ^ 64" if "b' \<in> set bs" for b'
    using arena_core_facts(3) [OF A that] by simp
  have ub: "unat b + 24 < 2 ^ 64" using fb(3) by simp
  have ap: "unat b + 24 \<le> unat b' \<or> unat b' + 24 \<le> unat b" if "b' \<in> set bs" for b'
    using blk_apart [OF lC kb old [OF that]] new that by fastforce
  have apc: "b' = c \<or> unat c + 24 \<le> unat b' \<or> unat b' + 24 \<le> unat c" if "b' \<in> set bs" for b'
    using arena_core_apart [OF A that D(5)] by fastforce
  have h1: "load64 m1 b' = load64 m b'" "blk_size m1 b' = blk_size m b'"
    "blk_offset m1 b' = blk_offset m b'" if "b' \<in> set bs" for b'
  proof -
    have "region b' 24 \<subseteq> live C"
      using arena_core_facts(5,6) [OF A that] region_mono [of 24 "24 + blk_size m b'" b'] by simp
    then show "load64 m1 b' = load64 m b'" "blk_size m1 b' = blk_size m b'"
      "blk_offset m1 b' = blk_offset m b'"
      using header_cong [OF nw [OF that], of m1 m] m1(1) by auto
  qed
  have st: "load64 m2 q = load64 m1 q"
    if "unat q + 8 \<le> unat b \<or> unat b + 8 \<le> unat q" "unat q + 8 \<le> unat c \<or> unat c + 8 \<le> unat q"
      "unat q + 8 \<le> 2 ^ 64" for q
    unfolding m2_def using that nw [OF D(5)] ub by (simp add: load64_store64_other disj_commute)
  have other: "load64 m2 b' = load64 m b'" if "b' \<in> set bs" "b' \<noteq> c" for b'
    using st [of b'] ap [OF that(1)] apc [OF that(1)] nw [OF that(1)] that(2) h1(1) [OF that(1)] by auto
  have fields: "blk_size m2 b' = blk_size m1 b'" "blk_offset m2 b' = blk_offset m1 b'"
    if "b' \<in> insert b (set bs)" for b'
  proof -
    have w: "unat b' + 24 < 2 ^ 64" using that nw ub by blast
    have "unat b' + 8 \<le> 2 ^ 64" using w by simp
    have apb: "b' = b \<or> unat b + 24 \<le> unat b' \<or> unat b' + 24 \<le> unat b" using that ap by blast
    have apc': "b' = c \<or> unat c + 24 \<le> unat b' \<or> unat b' + 24 \<le> unat c"
      using that ap [OF D(5)] apc by blast
    note u = header_unat [OF w]
    show "blk_size m2 b' = blk_size m1 b'"
      unfolding blk_size_def using apb apc' w by (intro st) (auto simp: u)
    show "blk_offset m2 b' = blk_offset m1 b'"
      unfolding blk_offset_def using apb apc' w by (intro st) (auto simp: u)
  qed
  obtain xs ys where bs: "bs = xs @ c # ys" using D(5) by (meson split_list)
  define bs' where "bs' = xs @ c # b # ys"
  have set': "set bs' = insert b (set bs)" by (auto simp: bs bs'_def)
  have dist: "distinct bs'" using D(4) new by (auto simp: bs bs'_def)
  have link: "sll m2 f bs'"
    unfolding bs'_def
  proof (rule sll_insert)
    show "sll m f (xs @ c # ys)" using D(3) bs by simp
    show "load64 m2 x = load64 m x" if "x \<in> set xs \<union> set ys" for x
      using other [of x] that D(4) bs by auto
    show "load64 m2 c = b" by (simp add: m2_def)
    have "load64 m2 b = load64 (store64 b (load64 m1 c) m1) b"
      unfolding m2_def using ap [OF D(5)] nw [OF D(5)] ub by (intro load64_store64_other) auto
    then show "load64 m2 b = load64 m c" using h1(1) [OF D(5)] by simp
    show "b \<noteq> 0" by (rule fb(1))
  qed
  have blks: "blk_ok ?C b' (blk_size m2 b') \<and> unat (blk_offset m2 b') \<le> unat (blk_size m2 b')"
    if "b' \<in> set bs'" for b'
  proof (cases "b' = b")
    case True
    then show ?thesis using fields [of b] m1(2,3) kb by simp
  next
    case False
    then have b': "b' \<in> set bs" using that set' by simp
    show ?thesis using fields [of b'] h1 [OF b'] b' old [OF b'] arena_core_blk(2) [OF A b'] by simp
  qed
  have restr: "?C |` (- set bs') = F"
    unfolding D(2) [symmetric] using new b(1) by (auto simp: set' restrict_map_def fun_eq_iff domIff)
  have blocks: "\<exists>b'\<in>set bs'. in_block m2 b' p n" if "L p = Some n" for p n
  proof -
    obtain b' where b': "b' \<in> set bs" "in_block m b' p n" using arena_core_in [OF A \<open>L p = Some n\<close>] by blast
    then show ?thesis
      using set' fields(2) [of b'] h1(3) [OF b'(1)] by (intro in_blockI [of b' bs' m]) simp_all
  qed
  show thesis
  proof (rule that [OF set'])
    fix c' assume "c' \<in> {b, c}"
    then have "c' \<in> set bs'" using set' D(5) by auto
    with link dist blks have "arena_blocks m2 f c' bs' ?C" by (simp add: arena_blocks_def)
    with lC restr D(6) blocks show "arena_core cheap F m2 f c' bs' ?C L" by (simp add: arena_core_def)
  next
    show "blk_size m2 b = k" "blk_offset m2 b = 0" using fields [of b] m1(2,3) by simp_all
    show "m2 x = m1 x" if "x \<notin> region b 8" "x \<notin> region c 8" for x
      unfolding m2_def using that nw [OF D(5)] ub by (simp add: store64_other)
  qed
qed


section \<open>The operations over a child that meets the contract\<close>

lemma arena_invE:
  assumes "arena_inv c cinv cheap F bsz s L"
  obtains C bs where "cinv (child_state s) C" "ar_child (self_ctx s) = c" "ar_block_size (self_ctx s) = bsz"
    "arena_core cheap F (mem s) (ar_first (self_ctx s)) (ar_current (self_ctx s)) bs C L"
  using assms by (auto simp: arena_inv_def)

text \<open>Only the current block's offset has changed.\<close>

lemma arena_bump_eq:
  "arena_bump u n s = Some (ar_current (self_ctx s) + 24 + u,
     ALLOC_UNPOISON (ar_current (self_ctx s) + 24 + u) n
       (wr64 (ar_current (self_ctx s) + 16) (u + n) s))"
  by (simp add: arena_bump_def Let_def)

lemma header_write_out:
  assumes "unat b + 24 < 2 ^ 64" "x \<notin> region b 24"
  shows "store64 (b + 16) v m x = m x"
proof (rule store64_other)
  note u = header_unat [OF assms(1)]
  show "unat (b + 16) + 8 \<le> 2 ^ 64" using assms(1) u by simp
  show "x \<notin> region (b + 16) 8" using assms u by (auto simp: mem_region)
qed

lemma arena_contains_loop_eq:
  "sll m q bs \<Longrightarrow> arena_contains_loop m c p q =
     Some (if \<exists>b\<in>set bs. b \<noteq> c \<and> p \<ge> b + 24 \<and> p < b + 24 + blk_size m b
           then ALLO_CONTAINS_YES else ALLO_CONTAINS_NO)"
proof (induction bs arbitrary: q)
  case Nil
  then show ?case by (simp add: arena_contains_loop.simps)
next
  case (Cons b bs)
  then show ?case by (subst arena_contains_loop.simps) (auto simp: Let_def)
qed

lemma payload_iff:
  assumes A: "arena_core cheap F m f c bs C L" and b: "b \<in> set bs"
  shows "p \<ge> b + 24 \<and> p < b + 24 + blk_size m b \<longleftrightarrow> p \<in> region (b + 24) (blk_size m b)"
proof -
  have "unat (b + 24) = unat b + 24" using arena_core_facts(3) [OF A b] by (intro header_unat) simp
  moreover from this have "unat (b + 24 + blk_size m b) = unat b + 24 + unat (blk_size m b)"
    using arena_core_facts(3) [OF A b] by (subst unat_add64) simp_all
  ultimately show ?thesis by (simp add: mem_region word_le_nat_alt word_less_nat_alt)
qed

lemma arena_contains_eq:
  assumes A: "arena_core cheap F (mem s) (ar_first (self_ctx s)) (ar_current (self_ctx s)) bs C L"
  shows "arena_contains_fn p s =
    Some (if \<exists>b\<in>set bs. p \<in> region (b + 24) (blk_size (mem s) b)
          then ALLO_CONTAINS_YES else ALLO_CONTAINS_NO, s)"
  using arena_contains_loop_eq [OF arena_coreD(3) [OF A]] arena_coreD(5) [OF A]
  by (auto simp: arena_contains_fn_def Let_def payload_iff [OF A])

lemma arena_contains_law:
  assumes I: "arena_inv c cinv cheap F bsz s L"
  obtains r where "arena_contains_fn p s = Some (r, s)" "p \<in> dom L \<Longrightarrow> r = ALLO_CONTAINS_YES"
    "r = ALLO_CONTAINS_YES \<Longrightarrow> p \<in> cheap - live F" "r \<noteq> ALLO_CONTAINS_UNKNOWN"
proof -
  obtain C bs where A: "arena_core cheap F (mem s) (ar_first (self_ctx s)) (ar_current (self_ctx s)) bs C L"
    by (rule arena_invE [OF I])
  have hp: "region (b + 24) (blk_size (mem s) b) \<subseteq> region b (24 + blk_size (mem s) b)" if "b \<in> set bs" for b
    using arena_core_facts(3,6) [OF A that] header_unat(3) [of b] by (intro region_subset) auto
  have "p \<in> region (b + 24) (blk_size (mem s) b)" if b: "b \<in> set bs" "in_block (mem s) b p n" "L p = Some n" for b n
  proof -
    have "unat n \<noteq> 0" using live_okD(1) [OF arena_coreD(6) [OF A] b(3)] by (simp add: block_ok_def unat_eq_0)
    then show ?thesis
      using b(2) arena_core_facts(3) [OF A b(1)] header_unat(3) [of b] arena_core_blk(2) [OF A b(1)]
      by (auto simp: mem_region in_block_def)
  qed
  then have "p \<in> dom L \<Longrightarrow> \<exists>b\<in>set bs. p \<in> region (b + 24) (blk_size (mem s) b)"
    using arena_core_in [OF A] by blast
  moreover have "\<exists>b\<in>set bs. p \<in> region (b + 24) (blk_size (mem s) b) \<Longrightarrow> p \<in> cheap - live F"
    using hp arena_core_facts(4) [OF A] arena_core_F [OF A] by blast
  ultimately show thesis by (intro that [OF arena_contains_eq [OF A]]) (auto split: if_splits)
qed

lemma arena_free_eq:
  assumes I: "arena_inv c cinv cheap F bsz s L"
  shows "\<exists>s'\<in>{s, ALLOC_POISON p n s}. arena_free_fn p n s = Some ((), s')"
proof -
  obtain r where r: "arena_contains_fn p s = Some (r, s)" by (rule arena_contains_law [OF I, of p])
  show ?thesis by (simp add: arena_free_fn_def r)
qed

context allocator
begin

lemma arena_header_write:
  assumes A: "arena_core heap F (mem t) f c bs C L" and I: "Inv t C" and b: "b \<in> set bs"
    and e: "env t' = env t" and w: "\<And>x. x \<notin> region b 24 \<Longrightarrow> mem t' x = mem t x"
  shows "Inv t' C" "kept (heap - live F) L (mem t) (mem t')"
proof -
  show "kept (heap - live F) L (mem t) (mem t')"
    using arena_header_free [OF A b] by (intro kept_write [OF w]) auto
  have "region b 24 \<subseteq> live C"
    using arena_core_facts(5,6) [OF A b] region_mono [of 24 "24 + blk_size (mem t) b" b] by simp
  then show "Inv t' C" using w by (intro client_write [OF I e]) auto
qed

lemma new_arena_block_ok:
  assumes I: "Inv s C" and n: "unat n + 24 < lim"
  obtains (fail) s' where "new_arena_block a n s = Some (NULL, s')" "Inv s' C"
      "kept heap C (mem s) (mem s')"
    | (ok) b s' where "new_arena_block a n s = Some (b, s')" "b \<noteq> 0" "b \<notin> dom C"
      "Inv s' (C(b \<mapsto> 24 + n))" "kept heap C (mem s) (mem s')" "blk_size (mem s') b = n"
      "blk_offset (mem s') b = 0" "load64 (mem s') b = 0"
proof -
  have u: "unat (24 + n) = 24 + unat n" using n lim_le by (subst unat_add64) auto
  show thesis
  proof (cases rule: alloc_cases [OF I, of "24 + n"])
    case 1
    then show ?case using n u by simp
  next
    case (2 s')
    then show thesis by (intro fail [of s']) (simp_all add: new_arena_block_def)
  next
    case (3 b s1)
    define s' where "s' = ALLOC_POISON (b + 24) n (wr64 (b + 16) 0 (wr64 (b + 8) n (wr64 b NULL s1)))"
    have w: "unat b + 24 < 2 ^ 64" using 3(6) u by (simp add: block_ok_def)
    note h = header_unat [OF w]
    have sub: "region b 24 \<subseteq> region b (24 + n)" using u by (intro region_mono) simp
    have out: "mem s' x = mem s1 x" if x: "x \<notin> region b 24" for x
    proof -
      have "x \<notin> region b 8" "x \<notin> region (b + 8) 8" "x \<notin> region (b + 16) 8"
        using x h by (auto simp: mem_region)
      then show ?thesis using w h by (simp add: s'_def store64_other)
    qed
    have "Inv s' (C(b \<mapsto> 24 + n))"
      using out sub 3(3) by (intro client_write [OF 3(4)]) (auto simp: s'_def live_upd)
    moreover have "kept heap C (mem s) (mem s')"
    proof (rule kept_trans [OF 3(5)], rule kept_write [OF out])
      show "region b 24 \<subseteq> heap" "region b 24 \<inter> live C = {}" using sub 3(7,8) by blast+
    qed
    moreover have "blk_offset (mem s') b = 0" by (simp add: s'_def blk_offset_def)
    moreover have "blk_size (mem s') b = n"
      unfolding s'_def blk_size_def using w h by (simp add: load64_store64_other)
    moreover have "load64 (mem s') b = 0"
      unfolding s'_def using w h by (simp add: load64_store64_other)
    ultimately show thesis
      using 3(1,2,3) by (intro ok [of b s']) (simp_all add: new_arena_block_def s'_def)
  qed
qed

text \<open>A fresh block linked in behind the current one.\<close>

lemma arena_extend:
  assumes A: "arena_core heap F (mem s) (ar_first (self_ctx s)) (ar_current (self_ctx s)) bs C L"
    and I: "Inv (child_state s) C" and n: "unat n + 24 < lim"
  defines "cur \<equiv> ar_current (self_ctx s)"
  obtains (fail) s' where "call_child (new_arena_block a n) s = Some (NULL, s')"
      "self_ctx s' = self_ctx s" "Inv (child_state s') C" "kept (heap - live F) L (mem s) (mem s')"
      "arena_core heap F (mem s') (ar_first (self_ctx s)) cur bs C L"
    | (ok) b s1 s2 bs' C' where "call_child (new_arena_block a n) s = Some (b, s1)" "b \<noteq> 0"
      "s2 = wr64 cur b (wr64 b (rd64 s1 cur) s1)" "self_ctx s2 = self_ctx s" "Inv (child_state s2) C'"
      "arena_core heap F (mem s2) (ar_first (self_ctx s)) cur bs' C' L"
      "arena_core heap F (mem s2) (ar_first (self_ctx s)) b bs' C' L"
      "b \<in> set bs'" "blk_size (mem s2) b = n" "blk_offset (mem s2) b = 0"
      "kept (heap - live F) L (mem s) (mem s2)"
proof -
  have keptC: "kept (heap - live F) L (mem s) (mem t)" if "kept heap C (mem s) (mem t)" for t :: "'e machine"
    using that arena_core_live_C [OF A] arena_core_live_F [OF A] by (auto simp: kept_def)
  show thesis
  proof (cases rule: new_arena_block_ok [OF I n])
    case (1 t)
    have "arena_core heap F (mem t) (ar_first (self_ctx s)) cur bs C L"
      unfolding cur_def
    proof (rule arena_core_cong [OF A])
      fix b x assume "b \<in> set bs" "x \<in> region b 24"
      then have "x \<in> live C"
        using arena_core_facts(5,6) [OF A] region_mono [of 24 "24 + blk_size (mem s) b" b] by fastforce
      with 1(3) show "mem t x = mem s x" by (simp add: kept_def)
    qed
    with 1 keptC [of t] show thesis
      by (intro fail [of "with_child (self_ctx s) t"]) (simp_all add: call_child_def)
  next
    case (2 b t)
    define s1 where "s1 = with_child (self_ctx s) t"
    define s2 where "s2 = wr64 cur b (wr64 b (rd64 s1 cur) s1)"
    have m2: "mem s2 = store64 cur b (store64 b (load64 (mem t) cur) (mem t))"
      by (simp add: s2_def s1_def rd64_def)
    have tC: "mem t x = mem s x" if "x \<in> live C" for x using 2(5) that by (simp add: kept_def)
    have n63: "unat n + 24 < 2 ^ 63" using n lim_le by simp
    obtain bs' where bs': "set bs' = insert b (set bs)"
      "\<And>c'. c' \<in> {b, cur} \<Longrightarrow> arena_core heap F (mem s2) (ar_first (self_ctx s)) c' bs' (C(b \<mapsto> 24 + n)) L"
      "blk_size (mem s2) b = n" "blk_offset (mem s2) b = 0"
      "\<And>x. x \<notin> region b 8 \<Longrightarrow> x \<notin> region cur 8 \<Longrightarrow> mem s2 x = mem t x"
      by (rule arena_core_insert [OF A live_inv [OF 2(4)] 2(3) n63 tC 2(6,7)]) (auto simp: m2 cur_def)
    have A2: "arena_core heap F (mem s2) (ar_first (self_ctx s)) cur bs' (C(b \<mapsto> 24 + n)) L"
      using bs'(2) by simp
    have h8: "region q 8 \<subseteq> region q 24" for q by (rule region_mono) simp
    have inC: "region q 24 \<subseteq> live (C(b \<mapsto> 24 + n))" "region q 24 \<inter> live L = {}"
      "region q 24 \<subseteq> heap - live F" if "q \<in> {b, cur}" for q
    proof -
      have q: "q \<in> set bs'" using that bs'(1) arena_coreD(5) [OF A2] by auto
      show "region q 24 \<inter> live L = {}" "region q 24 \<subseteq> heap - live F" by (rule arena_header_free [OF A2 q])+
      show "region q 24 \<subseteq> live (C(b \<mapsto> 24 + n))"
        using arena_core_facts(5,6) [OF A2 q] region_mono [of 24 "24 + blk_size (mem s2) q" q] by simp
    qed
    have "Inv (child_state s2) (C(b \<mapsto> 24 + n))"
    proof (rule client_write [OF 2(4)])
      show "env (child_state s2) = env t" by (simp add: s2_def s1_def wr64_def)
      fix x assume "x \<notin> live (C(b \<mapsto> 24 + n))"
      then show "mem (child_state s2) x = mem t x"
        using inC(1) [of b] inC(1) [of cur] h8 by (simp, intro bs'(5)) blast+
    qed
    moreover have "kept (heap - live F) L (mem s) (mem s2)"
    proof (rule kept_trans [OF keptC [OF 2(5) [simplified]]])
      show "kept (heap - live F) L (mem t) (mem s2)"
      proof (rule kept_write [where R = "region b 24 \<union> region cur 24"])
        show "mem s2 x = mem t x" if "x \<notin> region b 24 \<union> region cur 24" for x
          using that h8 by (intro bs'(5)) blast+
      qed (use inC(2,3) in blast)+
    qed
    moreover have "call_child (new_arena_block a n) s = Some (b, s1)"
      using 2(1) by (simp add: call_child_def s1_def)
    ultimately show thesis
      using 2(2) bs' by (intro ok [of b s1 s2 "C(b \<mapsto> 24 + n)" bs']) (simp_all add: s2_def s1_def)
  qed
qed

text \<open>Taking \<open>n\<close> bytes of a block of the chain.\<close>

lemma arena_take_ok:
  assumes A: "arena_core heap F (mem s) f c bs C L" and I: "Inv (child_state s) C" and b: "b \<in> set bs"
    and n: "n \<noteq> 0" and o: "unat (blk_offset (mem s) b) \<le> unat u" "8 dvd unat u"
      "unat u + unat n \<le> unat (blk_size (mem s) b)"
  defines "t \<equiv> ALLOC_UNPOISON (b + 24 + u) n (wr64 (b + 16) (u + n) s)"
  shows "arena_core heap F (mem t) f c bs C (L(b + 24 + u \<mapsto> n))" "Inv (child_state t) C"
    "b + 24 + u \<noteq> 0" "b + 24 + u \<notin> dom L" "kept (heap - live F) L (mem s) (mem t)"
proof -
  have w: "unat b + 24 < 2 ^ 64" using arena_core_facts(3) [OF A b] by simp
  note take = arena_core_take [OF A b n o(1,3,2)]
  show "arena_core heap F (mem t) f c bs C (L(b + 24 + u \<mapsto> n))" "b + 24 + u \<noteq> 0" "b + 24 + u \<notin> dom L"
    using take by (simp_all add: t_def)
  have A': "arena_core heap F (mem (child_state s)) f c bs C L" using A by simp
  have out: "mem (child_state t) x = mem (child_state s) x" if "x \<notin> region b 24" for x
    using header_write_out [OF w that] by (simp add: t_def)
  have e: "env (child_state t) = env (child_state s)" by (simp add: t_def)
  show "Inv (child_state t) C" "kept (heap - live F) L (mem s) (mem t)"
    using arena_header_write [OF A' I b e out] by simp_all
qed

lemma arena_alloc_law:
  assumes J: "arena_inv a Inv heap F bsz s L" and n: "unat n < lim - 24" and bsz: "unat bsz + 24 < lim"
  shows "\<exists>p s'. arena_alloc_fn n s = Some (p, s') \<and>
    alloc_post (arena_inv a Inv heap F bsz) (heap - live F) L n s p s'"
proof (cases "n = 0")
  case True
  with J show ?thesis by (simp add: arena_alloc_fn_def alloc_post_def)
next
  case False
  obtain C bs where I: "Inv (child_state s) C" and ctx: "ar_child (self_ctx s) = a" "ar_block_size (self_ctx s) = bsz"
    and A: "arena_core heap F (mem s) (ar_first (self_ctx s)) (ar_current (self_ctx s)) bs C L"
    by (rule arena_invE [OF J])
  let ?c = "ar_current (self_ctx s)"
  have cb: "?c \<in> set bs" by (rule arena_coreD(5) [OF A])
  note fc = arena_core_facts [OF A cb] and oc = arena_core_blk(2) [OF A cb]
  define u where "u = allo_align_up (blk_offset (mem s) ?c) 8"
  have u: "unat (blk_offset (mem s) ?c) \<le> unat u" "unat u < unat (blk_offset (mem s) ?c) + 8" "8 dvd unat u"
    using allo_align_up_8 [of "blk_offset (mem s) ?c"] oc fc(7) by (simp_all add: u_def)
  have un: "unat (u + n) = unat u + unat n"
    using u(2) n lim_le oc fc(7) by (intro unat_add64) auto
  consider (large) "n > bsz" | (full) "\<not> n > bsz" "u + n > blk_size (mem s) ?c"
    | (fits) "\<not> n > bsz" "\<not> u + n > blk_size (mem s) ?c" by blast
  then show ?thesis
  proof cases
    case large
    have n': "unat n + 24 < lim" using n by simp
    show ?thesis
    proof (cases rule: arena_extend [OF A I n'])
      case (1 s')
      with ctx False large have "arena_alloc_fn n s = Some (NULL, s')"
        by (simp add: arena_alloc_fn_def Let_def)
      moreover have "arena_inv a Inv heap F bsz s' L" using 1 ctx by (auto simp: arena_inv_def)
      ultimately show ?thesis using 1 by (auto simp: alloc_post_def)
    next
      case (2 b s1 s2 bs' C')
      have "unat (blk_offset (mem s2) b) \<le> unat (0 :: size_t)" "8 dvd unat (0 :: size_t)"
        "unat (0 :: size_t) + unat n \<le> unat (blk_size (mem s2) b)"
        using 2 by simp_all
      note take = arena_take_ok [OF 2(6) 2(5) 2(8) False this, simplified]
      let ?t = "ALLOC_UNPOISON (b + 24) n (wr64 (b + 16) n s2)"
      have "arena_alloc_fn n s = Some (b + 24, ?t)"
        using 2(1-3) ctx False large by (simp add: arena_alloc_fn_def Let_def)
      moreover have "arena_inv a Inv heap F bsz ?t (L(b + 24 \<mapsto> n))"
        using take(1,2) 2(4) ctx by (auto simp: arena_inv_def)
      ultimately show ?thesis
        using take(3-5) kept_trans [OF 2(11)] by (auto simp: alloc_post_def)
    qed
  next
    case full
    have le: "unat n \<le> unat bsz" using full(1) by (simp add: word_less_nat_alt)
    show ?thesis
    proof (cases rule: arena_extend [OF A I bsz])
      case (1 s')
      with ctx False full have "arena_alloc_fn n s = Some (NULL, s')"
        by (simp add: arena_alloc_fn_def Let_def u_def)
      moreover have "arena_inv a Inv heap F bsz s' L" using 1 ctx by (auto simp: arena_inv_def)
      ultimately show ?thesis using 1 by (auto simp: alloc_post_def)
    next
      case (2 b s1 s2 bs' C')
      let ?s3 = "set_ctx ((self_ctx s)\<lparr>ar_current := b\<rparr>) s2"
      have o: "unat (blk_offset (mem ?s3) b) \<le> unat (0 :: size_t)" "8 dvd unat (0 :: size_t)"
        "unat (0 :: size_t) + unat n \<le> unat (blk_size (mem ?s3) b)"
        using 2 le by simp_all
      have A3: "arena_core heap F (mem ?s3) (ar_first (self_ctx s)) b bs' C' L" "Inv (child_state ?s3) C'"
        using 2 by simp_all
      note take = arena_take_ok [OF A3 2(8) False o, unfolded add_0_left add_0_right]
      let ?t = "ALLOC_UNPOISON (b + 24) n (wr64 (b + 16) n ?s3)"
      have "arena_alloc_fn n s = Some (b + 24, ?t)"
        using 2(1-3) ctx False full by (simp add: arena_alloc_fn_def Let_def u_def arena_bump_eq)
      moreover have "arena_inv a Inv heap F bsz ?t (L(b + 24 \<mapsto> n))"
        using take(1,2) 2(4) ctx by (auto simp: arena_inv_def)
      ultimately show ?thesis
        using take(3-5) kept_trans [OF 2(11)] by (auto simp: alloc_post_def)
    qed
  next
    case fits
    have "unat u + unat n \<le> unat (blk_size (mem s) ?c)"
      using fits(2) un by (simp add: word_less_nat_alt)
    note take = arena_take_ok [OF A I cb False u(1,3) this]
    let ?t = "ALLOC_UNPOISON (?c + 24 + u) n (wr64 (?c + 16) (u + n) s)"
    have "arena_alloc_fn n s = Some (?c + 24 + u, ?t)"
      using ctx False fits by (simp add: arena_alloc_fn_def Let_def u_def arena_bump_eq)
    moreover have "arena_inv a Inv heap F bsz ?t (L(?c + 24 + u \<mapsto> n))"
      using take(1,2) ctx I by (auto simp: arena_inv_def)
    ultimately show ?thesis using take(3-5) by (auto simp: alloc_post_def)
  qed
qed

lemma arena_client_write:
  assumes J: "arena_inv a Inv heap F bsz s L" and e: "env s' = env s"
    and w: "\<And>x. x \<in> heap - live F \<Longrightarrow> x \<notin> live L \<Longrightarrow> mem s' x = mem s x"
  shows "arena_inv a Inv heap F bsz s' L"
proof -
  obtain C bs where I: "Inv (child_state s) C" and ctx: "ar_child (self_ctx s) = a" "ar_block_size (self_ctx s) = bsz"
    and A: "arena_core heap F (mem s) (ar_first (self_ctx s)) (ar_current (self_ctx s)) bs C L"
    by (rule arena_invE [OF J])
  have self: "self_ctx s' = self_ctx s" using e by (simp add: self_ctx_def)
  have "Inv (child_state s') C"
  proof (rule client_write [OF I])
    show "env (child_state s') = env (child_state s)" using e by simp
    fix x assume "x \<in> heap" "x \<notin> live C"
    then show "mem (child_state s') x = mem (child_state s) x"
      using w arena_core_live_C [OF A] arena_core_live_F [OF A] by auto
  qed
  moreover have "arena_core heap F (mem s') (ar_first (self_ctx s)) (ar_current (self_ctx s)) bs C L"
    using w arena_header_free [OF A] by (intro arena_core_cong [OF A]) blast
  ultimately show ?thesis using ctx self by (auto simp: arena_inv_def)
qed

lemma arena_forget: "arena_inv a Inv heap F bsz s L \<Longrightarrow> arena_inv a Inv heap F bsz s (L(p := None))"
  unfolding arena_inv_def using arena_core_forget by blast

lemma arena_live_ok: "arena_inv a Inv heap F bsz s L \<Longrightarrow> live_ok (heap - live F) L"
  by (elim arena_invE) (rule arena_coreD(6))

lemma arena_realloc_law:
  assumes J: "arena_inv a Inv heap F bsz s L" and p: "L p = Some n" and m: "unat m < lim - 24" "m \<noteq> 0"
    and bsz: "unat bsz + 24 < lim"
  shows "\<exists>q s'. arena_realloc_fn p n m s = Some (q, s') \<and>
    realloc_post (arena_inv a Inv heap F bsz) (heap - live F) L p n m s q s'"
proof -
  obtain C bs where I: "Inv (child_state s) C" and ctx: "ar_child (self_ctx s) = a" "ar_block_size (self_ctx s) = bsz"
    and A: "arena_core heap F (mem s) (ar_first (self_ctx s)) (ar_current (self_ctx s)) bs C L"
    by (rule arena_invE [OF J])
  let ?c = "ar_current (self_ctx s)"
  have cb: "?c \<in> set bs" by (rule arena_coreD(5) [OF A])
  note fc = arena_core_facts [OF A cb] and oc = arena_core_blk(2) [OF A cb]
  have w: "unat ?c + 24 < 2 ^ 64" using fc(3) by simp
  have uc: "unat (?c + 24) = unat ?c + 24" using w by (rule header_unat)
  have bp: "block_ok p n" by (rule live_okD(1) [OF arena_live_ok [OF J] p])
  define last where "last \<longleftrightarrow> p + n = ?c + 24 + blk_offset (mem s) ?c \<and> p \<ge> ?c + 24 \<and>
    p - (?c + 24) + m \<le> blk_size (mem s) ?c"
  consider (last) "last" | (shrink) "\<not> last" "m \<le> n" | (move) "\<not> last" "\<not> m \<le> n" by blast
  then show ?thesis
  proof cases
    case last
    then have l: "p + n = ?c + 24 + blk_offset (mem s) ?c" "unat (?c + 24) \<le> unat p"
      "p - (?c + 24) + m \<le> blk_size (mem s) ?c" by (simp_all add: last_def word_le_nat_alt)
    have eq: "unat p + unat n = unat ?c + 24 + unat (blk_offset (mem s) ?c)"
      using arg_cong [OF l(1), of unat] bp uc oc fc(3) by (simp add: unat_add64 block_ok_def)
    have ud: "unat (p - (?c + 24)) = unat p - (unat ?c + 24)" using l(2) uc by (simp add: unat_diff64)
    have fit: "unat (p - (?c + 24)) + unat m \<le> unat (blk_size (mem s) ?c)"
    proof -
      have "unat (p - (?c + 24) + m) = unat (p - (?c + 24)) + unat m"
        using ud eq oc fc(7) m(1) lim_le by (intro unat_add64) auto
      with l(3) show ?thesis by (simp add: word_le_nat_alt)
    qed
    define t where "t = (if m > n then ALLOC_UNPOISON (p + n) (m - n) else ALLOC_POISON (p + m) (n - m))
      (wr64 (?c + 16) (p - (?c + 24) + m) s)"
    have mt: "mem t = store64 (?c + 16) (p - (?c + 24) + m) (mem s)" "self_ctx t = self_ctx s" "env t = env s"
      by (simp_all add: t_def)
    have run: "arena_realloc_fn p n m s = Some (p, t)"
      using last by (auto simp: arena_realloc_fn_def Let_def last_def t_def)
    have A': "arena_core heap F (mem t) (ar_first (self_ctx s)) ?c bs C (L(p \<mapsto> m))"
      unfolding mt using l(2) uc by (intro arena_core_last [OF A cb p m(2) eq _ fit]) simp
    have out: "mem (child_state t) x = mem (child_state s) x" if "x \<notin> region ?c 24" for x
      using header_write_out [OF w that] by (simp add: mt)
    have e: "env (child_state t) = env (child_state s)" by (simp add: mt)
    have A0: "arena_core heap F (mem (child_state s)) (ar_first (self_ctx s)) ?c bs C L" using A by simp
    note hw = arena_header_write [OF A0 I cb e out]
    have "arena_inv a Inv heap F bsz t (L(p \<mapsto> m))"
      using A' hw(1) ctx mt(2) by (auto simp: arena_inv_def)
    then have "realloc_post (arena_inv a Inv heap F bsz) (heap - live F) L p n m s p t"
      using hw(2) by (intro realloc_post_same [OF arena_live_ok [OF J] p]) simp_all
    with run show ?thesis by blast
  next
    case shrink
    then have run: "arena_realloc_fn p n m s = Some (p, s)"
      by (auto simp: arena_realloc_fn_def Let_def last_def)
    have "arena_inv a Inv heap F bsz s (L(p \<mapsto> m))"
      using arena_core_shrink [OF A p m(2) shrink(2)] I ctx by (auto simp: arena_inv_def)
    then have "realloc_post (arena_inv a Inv heap F bsz) (heap - live F) L p n m s p s"
      by (intro realloc_post_same [OF arena_live_ok [OF J] p]) simp_all
    with run show ?thesis by blast
  next
    case move
    then have run: "arena_realloc_fn p n m s = do {
         (new_ptr, s) \<leftarrow> arena_alloc_fn m s;
         if new_ptr = NULL then Some (NULL, s)
         else do {
           (_, s) \<leftarrow> allo_memcpy new_ptr p n s;
           Some (new_ptr, s)
         } }"
      by (auto simp: arena_realloc_fn_def Let_def last_def)
    obtain q t where q: "arena_alloc_fn m s = Some (q, t)"
      and post: "alloc_post (arena_inv a Inv heap F bsz) (heap - live F) L m s q t"
      using arena_alloc_law [OF J m(1) bsz] by blast
    show ?thesis
    proof (cases "q = 0")
      case True
      with run q post show ?thesis by (auto simp: alloc_post_def realloc_post_def)
    next
      case False
      with post have It: "arena_inv a Inv heap F bsz t (L(q \<mapsto> m))" by (simp add: alloc_post_def)
      have nm: "unat n \<le> unat n" "unat n \<le> unat m" using move(2) by (simp_all add: word_le_nat_alt)
      obtain t' where t': "allo_memcpy q p n t = Some (q, t')"
        "arena_inv a Inv heap F bsz t' (L(q \<mapsto> m))" "kept (heap - live F) L (mem s) (mem t')"
        "same_bytes (mem s) p (mem t') q n" "q \<notin> dom L"
        by (rule copy_fresh [OF p arena_live_ok [OF J] post False arena_live_ok [OF It]
              arena_client_write [OF It] nm])
      have "min n m = n" using move(2) by (intro min_absorb1) simp
      then have "realloc_post (arena_inv a Inv heap F bsz) (heap - live F) L p n m s q t'"
        using t' False p by (intro realloc_post_moved arena_forget) auto
      with run q t'(1) False show ?thesis by auto
    qed
  qed
qed

text \<open>
  The destroy loop frees every block of the chain once; the other blocks of the child stay.
\<close>

lemma arena_destroy_loop_ok:
  assumes "Inv t C" "sll (mem t) q bs" "distinct bs" "\<forall>b\<in>set bs. blk_ok C b (blk_size (mem t) b)"
  shows "\<exists>t'. arena_destroy_loop a q t = Some ((), t') \<and> Inv t' (C |` (- set bs)) \<and>
    kept heap (C |` (- set bs)) (mem t) (mem t')"
  using assms
proof (induction bs arbitrary: t q C)
  case Nil
  then show ?case by (simp add: arena_destroy_loop.simps)
next
  case (Cons b bs)
  let ?k = "blk_size (mem t) b"
  have q: "q = b" "b \<noteq> 0" "sll (mem t) (load64 (mem t) b) bs" using Cons.prems(2) by auto
  have Cb: "C b = Some (24 + ?k)" using Cons.prems(4) by (simp add: blk_ok_def)
  obtain t1 where t1: "allo_free a b (24 + ?k) t = Some ((), t1)" "Inv t1 (C(b := None))"
    "kept heap (C(b := None)) (mem t) (mem t1)" by (rule free_ok [OF Cons.prems(1) Cb])
  have run: "arena_destroy_loop a q t = arena_destroy_loop a (load64 (mem t) b) t1"
    using q t1(1) by (subst arena_destroy_loop.simps) (simp add: Let_def rd64_def)
  have lC: "live_ok heap C" by (rule live_inv [OF Cons.prems(1)])
  have same: "load64 (mem t1) b' = load64 (mem t) b' \<and> blk_size (mem t1) b' = blk_size (mem t) b'"
    if b': "b' \<in> set bs" for b'
  proof -
    have ok: "blk_ok C b' (blk_size (mem t) b')" using Cons.prems(4) b' by simp
    note f = blk_ok_facts [OF lC ok]
    have "(C(b := None)) b' = Some (24 + blk_size (mem t) b')"
      using ok Cons.prems(3) b' by (auto simp: blk_ok_def)
    then have "region b' (24 + blk_size (mem t) b') \<subseteq> live (C(b := None))" by (auto intro: liveI)
    moreover have "region b' 24 \<subseteq> region b' (24 + blk_size (mem t) b')" using f(4) by (intro region_mono) simp
    ultimately have "mem t1 x = mem t x" if "x \<in> region b' 24" for x
      using t1(3) that unfolding kept_def by blast
    then show ?thesis using header_cong [of b' "mem t1" "mem t"] f(3) by simp
  qed
  have "\<exists>t'. arena_destroy_loop a (load64 (mem t) b) t1 = Some ((), t') \<and>
    Inv t' (C(b := None) |` (- set bs)) \<and> kept heap (C(b := None) |` (- set bs)) (mem t1) (mem t')"
  proof (rule Cons.IH [OF t1(2)])
    show "sll (mem t1) (load64 (mem t) b) bs" using q(3) same sll_cong [of bs "mem t1" "mem t"] by simp
    show "distinct bs" using Cons.prems(3) by simp
    show "\<forall>b'\<in>set bs. blk_ok (C(b := None)) b' (blk_size (mem t1) b')"
      using Cons.prems(3,4) same by (auto simp: blk_ok_def)
  qed
  moreover have "C(b := None) |` (- set bs) = C |` (- set (b # bs))"
    by (auto simp: restrict_map_def fun_eq_iff)
  moreover have "kept heap (C |` (- set (b # bs))) (mem t) (mem t1)"
    using t1(3) by (rule kept_mono) (auto simp: live_def restrict_map_def split: if_splits)
  ultimately show ?case using run by (auto intro: kept_trans)
qed

lemma arena_destroy_ok:
  assumes J: "arena_inv a Inv heap F bsz s L"
  obtains s' where "arena_destroy_fn s = Some ((), s')" "Inv (child_state s') F"
    "kept heap F (mem s) (mem s')"
proof -
  obtain C bs where I: "Inv (child_state s) C" and ctx: "ar_child (self_ctx s) = a"
    and A: "arena_core heap F (mem s) (ar_first (self_ctx s)) (ar_current (self_ctx s)) bs C L"
    by (rule arena_invE [OF J])
  have bs: "sll (mem (child_state s)) (ar_first (self_ctx s)) bs"
    "\<forall>b\<in>set bs. blk_ok C b (blk_size (mem (child_state s)) b)"
    using arena_coreD(3) [OF A] arena_core_blk(1) [OF A] by simp_all
  obtain t' where "arena_destroy_loop a (ar_first (self_ctx s)) (child_state s) = Some ((), t')"
    "Inv t' (C |` (- set bs))" "kept heap (C |` (- set bs)) (mem (child_state s)) (mem t')"
    using arena_destroy_loop_ok [OF I bs(1) arena_coreD(4) [OF A] bs(2)] by blast
  with ctx arena_coreD(2) [OF A] show thesis
    by (intro that [of "with_child (self_ctx s) t'"])
      (simp_all add: arena_destroy_fn_def Let_def call_child_def)
qed

lemma make_arena_ok:
  assumes I: "Inv s F" and args: "out \<noteq> 0" "bsz \<noteq> 0" "unat bsz + 24 < lim"
  obtains (nomem) s' where "make_arena_allocator out (Some a) bsz s = Some (Inl (ALLO_ERR_NOMEM, s'))"
      "Inv s' F" "kept heap F (mem s) (mem s')"
    | (ok) s' where "make_arena_allocator out (Some a) bsz s = Some (Inr s')"
      "arena_inv a Inv heap F bsz s' Map.empty" "kept heap F (mem s) (mem s')"
proof (cases rule: new_arena_block_ok [OF I args(3)])
  case (1 s')
  then show thesis using args by (intro nomem [of s']) (simp_all add: make_arena_allocator_def)
next
  case (2 b s')
  let ?t = "with_child \<lparr>ar_first = b, ar_current = b, ar_block_size = bsz, ar_child = a\<rparr> s'"
  have lC: "live_ok heap (F(b \<mapsto> 24 + bsz))" by (rule live_inv [OF 2(4)])
  have "arena_core heap F (mem s') b b [b] (F(b \<mapsto> 24 + bsz)) Map.empty"
    using lC 2(2,3,6-8) args(3) lim_le
    by (auto simp: arena_core_def arena_blocks_def blk_ok_def restrict_map_def fun_eq_iff domIff)
  then have "arena_inv a Inv heap F bsz ?t Map.empty"
    using 2(4) by (auto simp: arena_inv_def)
  moreover have "make_arena_allocator out (Some a) bsz s = Some (Inr ?t)"
    using 2(1,2) args by (simp add: make_arena_allocator_def)
  ultimately show thesis using 2(5) by (intro ok [of ?t]) simp_all
qed

end

text \<open>
  Room in the current block: \<open>k\<close> of its \<open>bsz\<close> bytes are used. As long as a request fits, no call of
  the child is made and the allocation succeeds.
\<close>

definition arena_room :: "size_t \<Rightarrow> size_t \<Rightarrow> 'e arena_machine \<Rightarrow> bool" where
  "arena_room bsz k s \<longleftrightarrow> ar_block_size (self_ctx s) = bsz \<and>
     unat (ar_current (self_ctx s)) + 24 + unat bsz < 2 ^ 64 \<and>
     blk_size (mem s) (ar_current (self_ctx s)) = bsz \<and> blk_offset (mem s) (ar_current (self_ctx s)) = k"

lemma arena_alloc_room:
  assumes R: "arena_room bsz k s" and n: "n \<noteq> 0" and al: "allo_align_up k 8 = u" "unat u + unat n \<le> unat bsz"
  obtains p s' where "arena_alloc_fn n s = Some (p, s')" "p \<noteq> NULL" "arena_room bsz (u + n) s'"
proof -
  let ?c = "ar_current (self_ctx s)"
  have w: "unat ?c + 24 < 2 ^ 64" using R by (simp add: arena_room_def)
  note h = header_unat [OF w]
  have un: "unat (u + n) = unat u + unat n" using al(2) R by (intro unat_add64) (simp add: arena_room_def)
  have fits: "\<not> n > bsz" "\<not> u + n > bsz" using al(2) un by (simp_all add: word_less_nat_alt)
  define s' where "s' = ALLOC_UNPOISON (?c + 24 + u) n (wr64 (?c + 16) (u + n) s)"
  have run: "arena_alloc_fn n s = Some (?c + 24 + u, s')"
    using R n fits al(1) by (simp add: arena_alloc_fn_def arena_room_def Let_def arena_bump_eq s'_def)
  have "unat (?c + 24 + u) = unat ?c + 24 + unat u"
    using h(3) al(2) R unat_add64 [of "?c + 24" u] by (simp add: arena_room_def)
  then have "?c + 24 + u \<noteq> 0" by (metis add_is_0 unat_0 zero_neq_numeral)
  moreover have "arena_room bsz (u + n) s'"
    using R w h by (simp add: arena_room_def s'_def blk_size_def blk_offset_def load64_store64_other self_ctx_machine)
  ultimately show thesis using run by (intro that)
qed

context allocator
begin

lemma make_arena_room:
  assumes I: "Inv s F" and bsz: "unat bsz + 24 < lim" and made: "make_arena_allocator out (Some a) bsz s = Some (Inr t)"
  shows "arena_room bsz 0 t"
proof (cases rule: new_arena_block_ok [OF I bsz])
  case (1 s')
  with made show ?thesis by (auto simp: make_arena_allocator_def split: if_splits)
next
  case (2 b s')
  have t: "t = with_child \<lparr>ar_first = b, ar_current = b, ar_block_size = bsz, ar_child = a\<rparr> s'"
    using made 2(1,2) by (auto simp: make_arena_allocator_def split: if_splits)
  have "unat b + unat (24 + bsz) < 2 ^ 64"
    using live_okD(1) [OF live_inv [OF 2(4)], of b] by (simp add: block_ok_def)
  moreover have "unat (24 + bsz) = 24 + unat bsz" using bsz lim_le by (subst unat_add64) auto
  ultimately show ?thesis using 2(6,7) by (simp add: arena_room_def t)
qed

end

text \<open>
  An arena over a child that meets the contract: the arena meets it as well, on the part of the
  child's heap that the child's other blocks \<open>F\<close> do not occupy.
\<close>

locale arena_over = allocator a Inv heap lim
  for a :: "'e allo" and Inv heap lim +
  fixes F :: live_map and bsz :: size_t
  assumes block_size_ok: "unat bsz + 24 < lim"

sublocale arena_over \<subseteq> ar: exact_allocator arena_allo "arena_inv a Inv heap F bsz" "heap - live F" "lim - 24"
proof unfold_locales
  show "lim - 24 \<le> 2 ^ 63" using lim_le by simp
next
  fix s :: "'e arena_machine" and L :: live_map and n m :: size_t and p :: ptr
  assume J: "arena_inv a Inv heap F bsz s L"
  show "live_ok (heap - live F) L" by (rule arena_live_ok [OF J])
  show "arena_inv a Inv heap F bsz s' L" if "env s' = env s"
    "\<And>x. x \<in> heap - live F \<Longrightarrow> x \<notin> live L \<Longrightarrow> mem s' x = mem s x" for s'
    using arena_client_write [OF J that] .
  show "\<exists>p s'. vt_alloc arena_allo n s = Some (p, s') \<and>
      alloc_post (arena_inv a Inv heap F bsz) (heap - live F) L n s p s'" if "unat n < lim - 24"
    using arena_alloc_law [OF J that block_size_ok] by (simp add: arena_allo_def)
  show "\<exists>q s'. vt_realloc arena_allo p n m s = Some (q, s') \<and>
      realloc_post (arena_inv a Inv heap F bsz) (heap - live F) L p n m s q s'"
    if "L p = Some n" "unat m < lim - 24" "m \<noteq> 0"
    using arena_realloc_law [OF J that block_size_ok] by (simp add: arena_allo_def)
  show "\<exists>s'. vt_free_mem arena_allo p n s = Some ((), s') \<and>
      free_post (arena_inv a Inv heap F bsz) (heap - live F) L p s s'" if "L p = Some n"
    using arena_free_eq [OF J, of p n] arena_forget [OF arena_client_write [OF J, of "ALLOC_POISON p n s"], of p]
      arena_forget [OF J] by (auto simp: arena_allo_def free_post_def)
  show "\<exists>s'. vt_free_mem arena_allo NULL n s = Some ((), s') \<and> arena_inv a Inv heap F bsz s' L \<and>
      kept (heap - live F) L (mem s) (mem s')"
    using J by (simp add: arena_allo_def arena_free_fn_def)
  obtain r where "arena_contains_fn p s = Some (r, s)" "p \<in> dom L \<Longrightarrow> r = ALLO_CONTAINS_YES"
    "r = ALLO_CONTAINS_YES \<Longrightarrow> p \<in> heap - live F" "r \<noteq> ALLO_CONTAINS_UNKNOWN"
    using arena_contains_law [OF J, of p] by metis
  then show "\<exists>r. allo_contains arena_allo p s = Some (r, s) \<and> (p \<in> dom L \<longrightarrow> r \<noteq> ALLO_CONTAINS_NO) \<and>
      (r = ALLO_CONTAINS_YES \<longrightarrow> p \<in> heap - live F)"
    "allo_contains arena_allo p s \<noteq> Some (ALLO_CONTAINS_UNKNOWN, s)"
    by (auto simp: allo_contains_def arena_allo_def)
qed

context arena_over
begin

lemma arena_over_exact: "exact_allocator arena_allo (arena_inv a Inv heap F bsz) (heap - live F) (lim - 24)"
  by (rule ar.exact_allocator_axioms)

lemma arena_over_alloc:
  assumes "arena_inv a Inv heap F bsz s L" "unat n < lim - 24"
  shows "\<exists>p s'. vt_alloc arena_allo n s = Some (p, s') \<and>
    alloc_post (arena_inv a Inv heap F bsz) (heap - live F) L n s p s' \<and>
    (p \<noteq> NULL \<longrightarrow> n \<noteq> 0 \<and> 8 dvd unat p \<and> region p n \<subseteq> heap - live F \<and> region p n \<inter> live L = {})"
  by (rule ar.alloc_spec [OF assms])

lemma arena_over_realloc:
  assumes "arena_inv a Inv heap F bsz s L" "L p = Some n" "unat m < lim - 24" "m \<noteq> 0"
  shows "\<exists>q s'. vt_realloc arena_allo p n m s = Some (q, s') \<and>
    realloc_post (arena_inv a Inv heap F bsz) (heap - live F) L p n m s q s'"
  by (rule ar.realloc_law [OF assms])

end

text \<open>An arena with blocks of 64 bytes whose child hands out a caller's buffer.\<close>

interpretation arena_buf: arena_over buf_allo "buf_inv B S" "region B S" "2 ^ 63" F 64
  for B S F
  by unfold_locales simp

end
