(* ===== verification/Fallback.thy ===== *)
theory Fallback
  imports Pool Arena
begin

text \<open>
  The fallback allocator, \<open>src/allo_fallback.c\<close>: requests go to a primary allocator and, when it
  has no room, to a second one; a block goes back to the one it came from. Shown: over two
  independent allocators on disjoint heaps, the first of which knows its own blocks, the pair
  meets the contract on the union of the heaps.
\<close>

section \<open>Code\<close>

record 'e fallback_context_t =
  fb_primary :: "'e allo"
  fb_fallback :: "'e allo"

type_synonym 'e fallback_machine = "('e fallback_context_t \<times> 'e) machine"

definition fallback_alloc_fn ::
  "size_t \<Rightarrow> 'e fallback_machine \<Rightarrow> (ptr \<times> 'e fallback_machine) option" where
  "fallback_alloc_fn n s = do {
     let ctx = self_ctx s;
     (p, s) \<leftarrow> call_child (allo_alloc (fb_primary ctx) n) s;
     if p = NULL then call_child (allo_alloc (fb_fallback ctx) n) s
     else Some (p, s)
   }"

definition fallback_realloc_fn ::
  "ptr \<Rightarrow> size_t \<Rightarrow> size_t \<Rightarrow> 'e fallback_machine \<Rightarrow> (ptr \<times> 'e fallback_machine) option" where
  "fallback_realloc_fn p old_size new_size s =
     (if p = NULL then fallback_alloc_fn new_size s
      else do {
        let ctx = self_ctx s;
        (primary_contains, s) \<leftarrow> call_child (allo_contains (fb_primary ctx) p) s;
        if primary_contains = ALLO_CONTAINS_YES \<or> primary_contains = ALLO_CONTAINS_UNKNOWN then do {
          (new_ptr, s) \<leftarrow> call_child (allo_realloc (fb_primary ctx) p old_size new_size) s;
          if new_ptr \<noteq> NULL then Some (new_ptr, s)
          else do {
            (new_ptr, s) \<leftarrow> call_child (allo_alloc (fb_fallback ctx) new_size) s;
            if new_ptr = NULL then Some (NULL, s)
            else do {
              let copy_size = (if old_size < new_size then old_size else new_size);
              (_, s) \<leftarrow> allo_memcpy new_ptr p copy_size s;
              (_, s) \<leftarrow> call_child (allo_free (fb_primary ctx) p old_size) s;
              Some (new_ptr, s)
            }
          }
        }
        else call_child (allo_realloc (fb_fallback ctx) p old_size new_size) s
      })"

definition fallback_free_fn ::
  "ptr \<Rightarrow> size_t \<Rightarrow> 'e fallback_machine \<Rightarrow> (unit \<times> 'e fallback_machine) option" where
  "fallback_free_fn p n s =
     (if p = NULL then Some ((), s)
      else do {
        let ctx = self_ctx s;
        (primary_contains, s) \<leftarrow> call_child (allo_contains (fb_primary ctx) p) s;
        if primary_contains = ALLO_CONTAINS_YES \<or> primary_contains = ALLO_CONTAINS_UNKNOWN
        then call_child (allo_free (fb_primary ctx) p n) s
        else call_child (allo_free (fb_fallback ctx) p n) s
      })"

definition fallback_contains_fn ::
  "ptr \<Rightarrow> 'e fallback_machine \<Rightarrow> (allo_contains_t \<times> 'e fallback_machine) option" where
  "fallback_contains_fn p s = do {
     let ctx = self_ctx s;
     (primary, s) \<leftarrow> call_child (allo_contains (fb_primary ctx) p) s;
     if primary = ALLO_CONTAINS_YES then Some (ALLO_CONTAINS_YES, s)
     else do {
       (fallback, s) \<leftarrow> call_child (allo_contains (fb_fallback ctx) p) s;
       if fallback = ALLO_CONTAINS_YES then Some (ALLO_CONTAINS_YES, s)
       else if primary = ALLO_CONTAINS_UNKNOWN \<or> fallback = ALLO_CONTAINS_UNKNOWN
       then Some (ALLO_CONTAINS_UNKNOWN, s)
       else Some (ALLO_CONTAINS_NO, s)
     }
   }"

definition fallback_allo :: "('e fallback_context_t \<times> 'e) allo" where
  "fallback_allo = \<lparr>vt_alloc = fallback_alloc_fn, vt_realloc = fallback_realloc_fn,
     vt_free_mem = fallback_free_fn, vt_destroy = None,
     vt_contains = Some fallback_contains_fn\<rparr>"

definition make_fallback_allocator ::
  "ptr \<Rightarrow> 'e allo option \<Rightarrow> 'e allo option \<Rightarrow> 'e machine \<Rightarrow>
     (allo_error_t \<times> 'e machine) + 'e fallback_machine" where
  "make_fallback_allocator out primary fallback s =
     (case (primary, fallback) of
        (Some p, Some f) \<Rightarrow>
          if out = NULL then Inl (ALLO_ERR_INVAL, s)
          else Inr (with_child \<lparr>fb_primary = p, fb_fallback = f\<rparr> s)
      | _ \<Rightarrow> Inl (ALLO_ERR_INVAL, s))"

section \<open>Two independent allocators\<close>

text \<open>
  Two allocators that share the memory and nothing else: the state of the first is the first
  component of the environment, the state of the second the second.
\<close>

definition fst_state :: "('a \<times> 'b) machine \<Rightarrow> 'a machine" where
  "fst_state s = \<lparr>mem = mem s, asan = asan s, env = fst (env s)\<rparr>"

definition call_fst ::
  "('a machine \<Rightarrow> ('r \<times> 'a machine) option) \<Rightarrow> ('a \<times> 'b) machine \<Rightarrow> ('r \<times> ('a \<times> 'b) machine) option" where
  "call_fst f s = (case f (fst_state s) of
     None \<Rightarrow> None
   | Some (r, t) \<Rightarrow> Some (r, \<lparr>mem = mem t, asan = asan t, env = (env t, snd (env s))\<rparr>))"

definition on_fst :: "'a allo \<Rightarrow> ('a \<times> 'b) allo" where
  "on_fst c = \<lparr>vt_alloc = \<lambda>n. call_fst (vt_alloc c n),
     vt_realloc = \<lambda>p n m. call_fst (vt_realloc c p n m),
     vt_free_mem = \<lambda>p n. call_fst (vt_free_mem c p n),
     vt_destroy = map_option call_fst (vt_destroy c),
     vt_contains = map_option (\<lambda>f p. call_fst (f p)) (vt_contains c)\<rparr>"

definition on_snd :: "'b allo \<Rightarrow> ('a \<times> 'b) allo" where
  "on_snd c = \<lparr>vt_alloc = \<lambda>n. call_child (vt_alloc c n),
     vt_realloc = \<lambda>p n m. call_child (vt_realloc c p n m),
     vt_free_mem = \<lambda>p n. call_child (vt_free_mem c p n),
     vt_destroy = map_option call_child (vt_destroy c),
     vt_contains = map_option (\<lambda>f p. call_child (f p)) (vt_contains c)\<rparr>"

lemma call_fst_Some [simp]:
  "f (fst_state s) = Some (r, t) \<Longrightarrow>
   call_fst f s = Some (r, \<lparr>mem = mem t, asan = asan t, env = (env t, snd (env s))\<rparr>)"
  by (simp add: call_fst_def)

lemma call_child_Some [simp]:
  "f (child_state s) = Some (r, t) \<Longrightarrow> call_child f s = Some (r, with_child (self_ctx s) t)"
  by (simp add: call_child_def)

lemma fst_state_simps [simp]:
  "mem (fst_state s) = mem s" "asan (fst_state s) = asan s" "env (fst_state s) = fst (env s)"
  "fst_state \<lparr>mem = m, asan = t, env = (e, e')\<rparr> = \<lparr>mem = m, asan = t, env = e\<rparr>"
  "fst_state (with_child e u) = \<lparr>mem = mem u, asan = asan u, env = e\<rparr>"
  "child_state \<lparr>mem = m, asan = t, env = (e, e')\<rparr> = \<lparr>mem = m, asan = t, env = e'\<rparr>"
  by (simp_all add: fst_state_def child_state_def with_child_def)

lemma allo_on_fst:
  "allo_alloc (on_fst c) n = call_fst (allo_alloc c n)"
  "allo_free (on_fst c) p n = call_fst (allo_free c p n)"
  by (simp_all add: fun_eq_iff allo_alloc_def allo_free_def on_fst_def call_fst_def)

lemma allo_on_snd:
  "allo_alloc (on_snd c) n = call_child (allo_alloc c n)"
  "allo_free (on_snd c) p n = call_child (allo_free c p n)"
  by (simp_all add: fun_eq_iff allo_alloc_def allo_free_def on_snd_def call_child_def)

lemma vt_realloc_on [simp]:
  "vt_realloc (on_fst c) p n m = call_fst (vt_realloc c p n m)"
  "vt_realloc (on_snd c) p n m = call_child (vt_realloc c p n m)"
  by (simp_all add: on_fst_def on_snd_def)

lemma machine_same [simp]: "\<lparr>mem = mem u, asan = asan u, env = env u\<rparr> = u"
  by (cases u) simp

lemma with_child_self: "self_ctx s = c \<Longrightarrow> with_child c (child_state s) = s"
  by (auto simp: with_child_def self_ctx_def child_state_def)

lemma with_child_same [simp]: "with_child (self_ctx s) (child_state s) = s"
  by (simp add: with_child_def self_ctx_def child_state_def)

lemma allo_contains_on_fst: "allo_contains (on_fst c) p = call_fst (allo_contains c p)"
  by (auto simp: fun_eq_iff allo_contains_def on_fst_def call_fst_def fst_state_def split: option.splits)

lemma allo_contains_on_snd: "allo_contains (on_snd c) p = call_child (allo_contains c p)"
  by (auto simp: fun_eq_iff allo_contains_def on_snd_def call_child_def split: option.splits)

lemma allo_realloc_on_fst: "allo_realloc (on_fst c) p n m = call_fst (allo_realloc c p n m)"
proof
  fix s :: "('a \<times> 'b) machine"
  show "allo_realloc (on_fst c) p n m s = call_fst (allo_realloc c p n m) s"
    by (cases "allo_free c p n (fst_state s)")
      (auto simp: allo_realloc_def allo_on_fst call_fst_def)
qed

lemma allo_realloc_on_snd: "allo_realloc (on_snd c) p n m = call_child (allo_realloc c p n m)"
proof
  fix s :: "('a \<times> 'b) machine"
  show "allo_realloc (on_snd c) p n m s = call_child (allo_realloc c p n m) s"
    by (cases "allo_free c p n (child_state s)")
      (auto simp: allo_realloc_def allo_on_snd call_child_def)
qed


text \<open>The blocks of both: the first allocator's and the second's.\<close>

definition pair_inv ::
  "('a machine \<Rightarrow> live_map \<Rightarrow> bool) \<Rightarrow> ('b machine \<Rightarrow> live_map \<Rightarrow> bool) \<Rightarrow> ('a \<times> 'b) machine \<Rightarrow>
     live_map \<Rightarrow> live_map \<Rightarrow> bool" where
  "pair_inv InvP InvQ t L1 L2 \<longleftrightarrow> InvP (fst_state t) L1 \<and> InvQ (child_state t) L2"

locale independent = P: exact_allocator p InvP hp limp + Q: allocator q InvQ hq limq
  for p :: "'a allo" and InvP hp limp and q :: "'b allo" and InvQ hq limq +
  assumes apart: "hp \<inter> hq = {}"
begin

lemma pair_doms:
  assumes "pair_inv InvP InvQ t L1 L2"
  shows "dom L1 \<subseteq> hp" "dom L2 \<subseteq> hq" "live L1 \<subseteq> hp" "live L2 \<subseteq> hq"
    "live_ok hp L1" "live_ok hq L2"
proof -
  show l1: "live_ok hp L1" and l2: "live_ok hq L2"
    using assms P.live_inv Q.live_inv by (auto simp: pair_inv_def)
  show "live L1 \<subseteq> hp" "live L2 \<subseteq> hq" using live_ok_heap [OF l1] live_ok_heap [OF l2] by auto
  show "dom L1 \<subseteq> hp" "dom L2 \<subseteq> hq" using live_ok_dom [OF l1] live_ok_dom [OF l2] by auto
qed

lemma pair_apart:
  assumes "pair_inv InvP InvQ t L1 L2"
  shows "r \<in> dom L1 \<Longrightarrow> r \<notin> dom L2" "r \<in> dom L2 \<Longrightarrow> r \<notin> dom L1" "r \<in> hp \<Longrightarrow> L2 r = None"
    "r \<in> hq \<Longrightarrow> L1 r = None"
  using pair_doms(1,2) [OF assms] apart by blast+

lemma pair_live:
  assumes "pair_inv InvP InvQ t L1 L2"
  shows "live (L1 ++ L2) = live L1 \<union> live L2" "live_ok (hp \<union> hq) (L1 ++ L2)"
proof -
  note D = pair_doms [OF assms] and A = pair_apart [OF assms]
  show "live (L1 ++ L2) = live L1 \<union> live L2"
  proof (intro equalityI subsetI)
    fix x assume "x \<in> live (L1 ++ L2)"
    then show "x \<in> live L1 \<union> live L2" by (auto simp: live_def)
  next
    fix x assume "x \<in> live L1 \<union> live L2"
    then obtain r n where "L1 r = Some n \<or> L2 r = Some n" "x \<in> region r n" by (auto simp: live_def)
    with A(1) [of r] show "x \<in> live (L1 ++ L2)"
      by (intro liveI [of _ r n]) (auto simp: map_add_dom_app_simps domI)
  qed
  show "live_ok (hp \<union> hq) (L1 ++ L2)" by (rule live_ok_union [OF D(5,6) apart])
qed

text \<open>What the first allocator does, the second does not see, and conversely.\<close>

lemma frame_fst:
  assumes "pair_inv InvP InvQ t L1 L2" "kept hp K (mem t) (mem t')" "snd (env t') = snd (env t)"
    "InvP (fst_state t') L1'"
  shows "pair_inv InvP InvQ t' L1' L2"
proof -
  have "InvQ (child_state t') L2"
  proof (rule Q.client_write)
    show "InvQ (child_state t) L2" using assms(1) by (simp add: pair_inv_def)
    show "env (child_state t') = env (child_state t)" using assms(3) by simp
    show "mem (child_state t') x = mem (child_state t) x" if "x \<in> hq" for x
      using assms(2) that apart by (auto simp: kept_def)
  qed
  with assms(4) show ?thesis by (simp add: pair_inv_def)
qed

lemma frame_snd:
  assumes "pair_inv InvP InvQ t L1 L2" "kept hq K (mem t) (mem t')" "fst (env t') = fst (env t)"
    "InvQ (child_state t') L2'"
  shows "pair_inv InvP InvQ t' L1 L2'"
proof -
  have "InvP (fst_state t') L1"
  proof (rule P.client_write)
    show "InvP (fst_state t) L1" using assms(1) by (simp add: pair_inv_def)
    show "env (fst_state t') = env (fst_state t)" using assms(3) by simp
    show "mem (fst_state t') x = mem (fst_state t) x" if "x \<in> hp" for x
      using assms(2) that apart by (auto simp: kept_def)
  qed
  with assms(4) show ?thesis by (simp add: pair_inv_def)
qed

lemma kept_both:
  assumes "pair_inv InvP InvQ t L1 L2"
  shows "kept hp K m m' \<Longrightarrow> live K' \<inter> hp \<subseteq> live K \<Longrightarrow> kept (hp \<union> hq) K' m m'"
    "kept hq K m m' \<Longrightarrow> live K' \<inter> hq \<subseteq> live K \<Longrightarrow> kept (hp \<union> hq) K' m m'"
  by (auto simp: kept_def)

lemma fst_alloc:
  assumes J: "pair_inv InvP InvQ t L1 L2" and n: "unat n < limp"
  obtains (fail) t' where "allo_alloc (on_fst p) n t = Some (0, t')" "pair_inv InvP InvQ t' L1 L2"
      "kept (hp \<union> hq) (L1 ++ L2) (mem t) (mem t')"
    | (ok) r t' where "allo_alloc (on_fst p) n t = Some (r, t')" "r \<noteq> 0" "r \<notin> dom (L1 ++ L2)"
      "pair_inv InvP InvQ t' (L1(r \<mapsto> n)) L2" "kept (hp \<union> hq) (L1 ++ L2) (mem t) (mem t')"
proof -
  have I: "InvP (fst_state t) L1" using J by (simp add: pair_inv_def)
  have keep: "kept (hp \<union> hq) (L1 ++ L2) (mem t) m'" if "kept hp L1 (mem t) m'" for m'
    by (rule kept_both(1) [OF J that]) (use pair_live(1) [OF J] pair_doms [OF J] apart in auto)
  show thesis
  proof (cases rule: P.alloc_cases [OF I n])
    case (1 u)
    let ?t' = "\<lparr>mem = mem u, asan = asan u, env = (env u, snd (env t))\<rparr>"
    have "pair_inv InvP InvQ ?t' L1 L2"
      using 1 by (intro frame_fst [OF J, where K = L1]) simp_all
    with 1 keep show thesis by (intro fail [of ?t']) (simp_all add: allo_on_fst)
  next
    case (2 r u)
    let ?t' = "\<lparr>mem = mem u, asan = asan u, env = (env u, snd (env t))\<rparr>"
    have J': "pair_inv InvP InvQ ?t' (L1(r \<mapsto> n)) L2"
      using 2 by (intro frame_fst [OF J, where K = L1]) simp_all
    have "r \<notin> dom L2" using pair_apart(1) [OF J', of r] by simp
    with 2 keep J' show thesis by (intro ok [of r ?t']) (simp_all add: allo_on_fst)
  qed
qed

lemma snd_alloc:
  assumes J: "pair_inv InvP InvQ t L1 L2" and n: "unat n < limq"
  obtains (fail) t' where "allo_alloc (on_snd q) n t = Some (0, t')" "pair_inv InvP InvQ t' L1 L2"
      "kept (hp \<union> hq) (L1 ++ L2) (mem t) (mem t')" "fst (env t') = fst (env t)"
    | (ok) r t' where "allo_alloc (on_snd q) n t = Some (r, t')" "r \<noteq> 0" "r \<notin> dom (L1 ++ L2)"
      "pair_inv InvP InvQ t' L1 (L2(r \<mapsto> n))" "kept (hp \<union> hq) (L1 ++ L2) (mem t) (mem t')"
      "region r n \<inter> live (L1 ++ L2) = {}" "block_ok r n" "region r n \<subseteq> hq"
proof -
  have I: "InvQ (child_state t) L2" using J by (simp add: pair_inv_def)
  have keep: "kept (hp \<union> hq) (L1 ++ L2) (mem t) m'" if "kept hq L2 (mem t) m'" for m'
    by (rule kept_both(2) [OF J that]) (use pair_live(1) [OF J] pair_doms [OF J] apart in auto)
  show thesis
  proof (cases rule: Q.alloc_cases [OF I n])
    case (1 u)
    let ?t' = "with_child (self_ctx t) u"
    have "pair_inv InvP InvQ ?t' L1 L2"
      using 1 by (intro frame_snd [OF J, where K = L2]) (simp_all add: self_ctx_def)
    with 1 keep show thesis by (intro fail [of ?t']) (simp_all add: allo_on_snd self_ctx_def)
  next
    case (2 r u)
    let ?t' = "with_child (self_ctx t) u"
    have J': "pair_inv InvP InvQ ?t' L1 (L2(r \<mapsto> n))"
      using 2 by (intro frame_snd [OF J, where K = L2]) (simp_all add: self_ctx_def)
    have "r \<notin> dom L1" using pair_apart(2) [OF J', of r] by simp
    moreover have "region r n \<inter> live (L1 ++ L2) = {}"
      using 2 pair_live(1) [OF J] pair_doms(3) [OF J] apart by blast
    ultimately show thesis using 2 keep J' by (intro ok [of r ?t']) (simp_all add: allo_on_snd)
  qed
qed

lemma fst_free:
  assumes J: "pair_inv InvP InvQ t L1 L2" and r: "L1 r = Some n"
  obtains t' where "allo_free (on_fst p) r n t = Some ((), t')"
    "pair_inv InvP InvQ t' (L1(r := None)) L2" "kept (hp \<union> hq) ((L1 ++ L2)(r := None)) (mem t) (mem t')"
proof -
  have I: "InvP (fst_state t) L1" using J by (simp add: pair_inv_def)
  obtain u where u: "allo_free p r n (fst_state t) = Some ((), u)" "InvP u (L1(r := None))"
    "kept hp (L1(r := None)) (mem (fst_state t)) (mem u)" by (rule P.free_ok [OF I r])
  let ?t' = "\<lparr>mem = mem u, asan = asan u, env = (env u, snd (env t))\<rparr>"
  have J': "pair_inv InvP InvQ ?t' (L1(r := None)) L2"
    using u by (intro frame_fst [OF J, where K = "L1(r := None)"]) simp_all
  have eq: "(L1 ++ L2)(r := None) = L1(r := None) ++ L2"
    using pair_apart(1) [OF J, of r] r by (auto simp: fun_eq_iff map_add_def domIff split: option.split)
  have "kept (hp \<union> hq) ((L1 ++ L2)(r := None)) (mem t) (mem ?t')"
    unfolding eq using u(3) pair_live(1) [OF J'] pair_doms [OF J'] apart
    by (intro kept_both(1) [OF J', where K = "L1(r := None)"]) auto
  with u J' show thesis by (intro that [of ?t']) (simp_all add: allo_on_fst)
qed

lemma snd_free:
  assumes J: "pair_inv InvP InvQ t L1 L2" and r: "L2 r = Some n"
  obtains t' where "allo_free (on_snd q) r n t = Some ((), t')"
    "pair_inv InvP InvQ t' L1 (L2(r := None))" "kept (hp \<union> hq) ((L1 ++ L2)(r := None)) (mem t) (mem t')"
proof -
  have I: "InvQ (child_state t) L2" using J by (simp add: pair_inv_def)
  obtain u where u: "allo_free q r n (child_state t) = Some ((), u)" "InvQ u (L2(r := None))"
    "kept hq (L2(r := None)) (mem (child_state t)) (mem u)" by (rule Q.free_ok [OF I r])
  let ?t' = "with_child (self_ctx t) u"
  have J': "pair_inv InvP InvQ ?t' L1 (L2(r := None))"
    using u by (intro frame_snd [OF J, where K = "L2(r := None)"]) (simp_all add: self_ctx_def)
  have eq: "(L1 ++ L2)(r := None) = L1 ++ L2(r := None)"
    using pair_apart(2) [OF J, of r] r by (auto simp: fun_eq_iff map_add_def domIff split: option.split)
  have "kept (hp \<union> hq) ((L1 ++ L2)(r := None)) (mem t) (mem ?t')"
    unfolding eq using u(3) pair_live(1) [OF J'] pair_doms [OF J'] apart
    by (intro kept_both(2) [OF J', where K = "L2(r := None)"]) auto
  with u J' show thesis by (intro that [of ?t']) (simp_all add: allo_on_snd)
qed

end


section \<open>The contract\<close>

definition fallback_inv ::
  "'a allo \<Rightarrow> ('a machine \<Rightarrow> live_map \<Rightarrow> bool) \<Rightarrow> 'b allo \<Rightarrow> ('b machine \<Rightarrow> live_map \<Rightarrow> bool) \<Rightarrow>
     ('a \<times> 'b) fallback_machine \<Rightarrow> live_map \<Rightarrow> bool" where
  "fallback_inv p InvP q InvQ s L \<longleftrightarrow>
     self_ctx s = \<lparr>fb_primary = on_fst p, fb_fallback = on_snd q\<rparr> \<and>
     (\<exists>L1 L2. L = L1 ++ L2 \<and> pair_inv InvP InvQ (child_state s) L1 L2)"

context independent
begin

lemma fallback_invI:
  "self_ctx s = \<lparr>fb_primary = on_fst p, fb_fallback = on_snd q\<rparr> \<Longrightarrow>
   pair_inv InvP InvQ (child_state s) K1 K2 \<Longrightarrow> L = K1 ++ K2 \<Longrightarrow> fallback_inv p InvP q InvQ s L"
  by (auto simp: fallback_inv_def)

lemma add_fst: "r \<notin> dom (L1 ++ L2) \<Longrightarrow> (L1 ++ L2)(r \<mapsto> n) = L1(r \<mapsto> n) ++ L2"
  by (simp add: map_add_upd_left)

lemma add_snd: "(L1 ++ L2)(r \<mapsto> n) = L1 ++ (L2(r \<mapsto> n) :: live_map)"
  by (auto simp: fun_eq_iff map_add_def)

lemma del_fst:
  "pair_inv InvP InvQ t L1 L2 \<Longrightarrow> r \<in> dom L1 \<Longrightarrow> (L1 ++ L2)(r := None) = L1(r := None) ++ L2"
  using pair_apart(1) [of t L1 L2 r]
  by (auto simp: fun_eq_iff map_add_def domIff split: option.split)

lemma del_snd:
  "pair_inv InvP InvQ t L1 L2 \<Longrightarrow> r \<in> dom L2 \<Longrightarrow> (L1 ++ L2)(r := None) = L1 ++ L2(r := None)"
  using pair_apart(2) [of t L1 L2 r]
  by (auto simp: fun_eq_iff map_add_def domIff split: option.split)

lemma fst_contains:
  assumes J: "pair_inv InvP InvQ t L1 L2"
  shows "r \<in> dom L1 \<Longrightarrow> allo_contains (on_fst p) r t = Some (ALLO_CONTAINS_YES, t)"
    "r \<in> dom L2 \<Longrightarrow> allo_contains (on_fst p) r t = Some (ALLO_CONTAINS_NO, t)"
    "\<exists>c. c \<noteq> ALLO_CONTAINS_UNKNOWN \<and> (c = ALLO_CONTAINS_YES \<longrightarrow> r \<in> hp) \<and>
       allo_contains (on_fst p) r t = Some (c, t)"
proof -
  have I: "InvP (fst_state t) L1" using J by (simp add: pair_inv_def)
  have same: "\<lparr>mem = mem t, asan = asan t, env = (fst (env t), snd (env t))\<rparr> = t"
    by (cases t) simp
  show "allo_contains (on_fst p) r t = Some (ALLO_CONTAINS_YES, t)" if "r \<in> dom L1"
    using P.contains_live [OF I that] by (simp add: allo_contains_on_fst same)
  show "allo_contains (on_fst p) r t = Some (ALLO_CONTAINS_NO, t)" if "r \<in> dom L2"
  proof -
    have "r \<notin> hp" using that pair_doms(2) [OF J] apart by blast
    then show ?thesis using P.contains_foreign [OF I] by (simp add: allo_contains_on_fst same)
  qed
  obtain c where "allo_contains p r (fst_state t) = Some (c, fst_state t)" "c = ALLO_CONTAINS_YES \<longrightarrow> r \<in> hp"
    using P.contains_law [OF I] by blast
  moreover have "c \<noteq> ALLO_CONTAINS_UNKNOWN" using calculation P.contains_exact [OF I, of r] by auto
  ultimately show "\<exists>c. c \<noteq> ALLO_CONTAINS_UNKNOWN \<and> (c = ALLO_CONTAINS_YES \<longrightarrow> r \<in> hp) \<and>
       allo_contains (on_fst p) r t = Some (c, t)"
    by (auto simp: allo_contains_on_fst same)
qed

lemma snd_contains:
  assumes J: "pair_inv InvP InvQ t L1 L2"
  shows "\<exists>c. (r \<in> dom L2 \<longrightarrow> c \<noteq> ALLO_CONTAINS_NO) \<and> (c = ALLO_CONTAINS_YES \<longrightarrow> r \<in> hq) \<and>
       allo_contains (on_snd q) r t = Some (c, t)"
proof -
  have I: "InvQ (child_state t) L2" using J by (simp add: pair_inv_def)
  show ?thesis
    using Q.contains_law [OF I, of r] by (force simp: allo_contains_on_snd)
qed

lemma fst_state_child_with [simp]:
  "fst_state (child_state (with_child c t)) = fst_state t" "child_state (child_state (with_child c t)) = child_state t"
  by simp_all

lemma fallback_alloc_law:
  assumes J: "fallback_inv p InvP q InvQ s L" and n: "unat n < min limp limq"
  shows "\<exists>r s'. fallback_alloc_fn n s = Some (r, s') \<and>
    alloc_post (fallback_inv p InvP q InvQ) (hp \<union> hq) L n s r s'"
proof -
  obtain L1 L2 where L: "L = L1 ++ L2" and ctx: "self_ctx s = \<lparr>fb_primary = on_fst p, fb_fallback = on_snd q\<rparr>"
    and I: "pair_inv InvP InvQ (child_state s) L1 L2" using J by (auto simp: fallback_inv_def)
  have n': "unat n < limp" "unat n < limq" using n by simp_all
  show ?thesis
  proof (cases rule: fst_alloc [OF I n'(1)])
    case (2 r t)
    then have "fallback_alloc_fn n s = Some (r, with_child (self_ctx s) t)"
      by (simp add: fallback_alloc_fn_def ctx)
    moreover have "fallback_inv p InvP q InvQ (with_child (self_ctx s) t) (L(r \<mapsto> n))"
      using 2 ctx by (intro fallback_invI) (simp_all add: L add_fst)
    ultimately show ?thesis using 2 L by (auto simp: alloc_post_def)
  next
    case (1 t)
    then have run: "fallback_alloc_fn n s = call_child (allo_alloc (on_snd q) n) (with_child (self_ctx s) t)"
      by (simp add: fallback_alloc_fn_def ctx)
    show ?thesis
    proof (cases rule: snd_alloc [OF 1(2) n'(2)])
      case (1 u)
      have "fallback_inv p InvP q InvQ (with_child (self_ctx s) u) L"
        using 1 ctx by (intro fallback_invI) (simp_all add: L)
      moreover have "kept (hp \<union> hq) L (mem s) (mem u)"
        using \<open>kept _ _ (mem (child_state s)) (mem t)\<close> 1(3) by (simp add: L kept_trans)
      ultimately show ?thesis using run 1(1) by (auto simp: alloc_post_def)
    next
      case (2 r u)
      have "fallback_inv p InvP q InvQ (with_child (self_ctx s) u) (L(r \<mapsto> n))"
        using 2(4) ctx unfolding L add_snd
          by (intro fallback_invI [where ?K1.0 = L1 and ?K2.0 = "L2(r \<mapsto> n)"]) simp_all
      moreover have "kept (hp \<union> hq) L (mem s) (mem u)"
        using \<open>kept _ _ (mem (child_state s)) (mem t)\<close> 2(5) by (simp add: L kept_trans)
      ultimately show ?thesis using run 2(1-3) L by (auto simp: alloc_post_def)
    qed
  qed
qed

lemma fallback_free_law:
  assumes J: "fallback_inv p InvP q InvQ s L" and r: "L r = Some n"
  shows "\<exists>s'. fallback_free_fn r n s = Some ((), s') \<and>
    free_post (fallback_inv p InvP q InvQ) (hp \<union> hq) L r s s'"
proof -
  obtain L1 L2 where L: "L = L1 ++ L2" and ctx: "self_ctx s = \<lparr>fb_primary = on_fst p, fb_fallback = on_snd q\<rparr>"
    and I: "pair_inv InvP InvQ (child_state s) L1 L2" using J by (auto simp: fallback_inv_def)
  have r0: "r \<noteq> 0" using live_okD(1) [OF pair_live(2) [OF I]] r L by (auto simp: block_ok_def)
  consider (fst) "L1 r = Some n" | (snd) "L2 r = Some n" using r L by auto
  then show ?thesis
  proof cases
    case fst
    obtain t where t: "allo_free (on_fst p) r n (child_state s) = Some ((), t)"
      "pair_inv InvP InvQ t (L1(r := None)) L2"
      "kept (hp \<union> hq) ((L1 ++ L2)(r := None)) (mem (child_state s)) (mem t)" by (rule fst_free [OF I fst])
    have "fallback_free_fn r n s = Some ((), with_child (self_ctx s) t)"
      using fst_contains(1) [OF I, of r] fst t(1) r0 by (simp add: fallback_free_fn_def ctx domI)
    moreover have "fallback_inv p InvP q InvQ (with_child (self_ctx s) t) (L(r := None))"
      using t(2) ctx del_fst [OF I, of r] fst by (intro fallback_invI) (simp_all add: L domI)
    ultimately show ?thesis using t(3) L by (auto simp: free_post_def)
  next
    case snd
    obtain t where t: "allo_free (on_snd q) r n (child_state s) = Some ((), t)"
      "pair_inv InvP InvQ t L1 (L2(r := None))"
      "kept (hp \<union> hq) ((L1 ++ L2)(r := None)) (mem (child_state s)) (mem t)" by (rule snd_free [OF I snd])
    have "fallback_free_fn r n s = Some ((), with_child (self_ctx s) t)"
      using fst_contains(2) [OF I, of r] snd t(1) r0 by (simp add: fallback_free_fn_def ctx domI)
    moreover have "fallback_inv p InvP q InvQ (with_child (self_ctx s) t) (L(r := None))"
      using t(2) ctx del_snd [OF I, of r] snd by (intro fallback_invI) (simp_all add: L domI)
    ultimately show ?thesis using t(3) L by (auto simp: free_post_def)
  qed
qed

lemma fallback_live_ok: "fallback_inv p InvP q InvQ s L \<Longrightarrow> live_ok (hp \<union> hq) L"
  using pair_live(2) by (auto simp: fallback_inv_def)

lemma fallback_client_write:
  assumes J: "fallback_inv p InvP q InvQ s L" and e: "env s' = env s"
    and w: "\<And>x. x \<in> hp \<union> hq \<Longrightarrow> x \<notin> live L \<Longrightarrow> mem s' x = mem s x"
  shows "fallback_inv p InvP q InvQ s' L"
proof -
  obtain L1 L2 where L: "L = L1 ++ L2" and ctx: "self_ctx s = \<lparr>fb_primary = on_fst p, fb_fallback = on_snd q\<rparr>"
    and I: "pair_inv InvP InvQ (child_state s) L1 L2" using J by (auto simp: fallback_inv_def)
  have 1: "InvP (fst_state (child_state s)) L1" and 2: "InvQ (child_state (child_state s)) L2"
    using I by (simp_all add: pair_inv_def)
  note D = pair_doms(3,4) [OF I] and lv = pair_live(1) [OF I]
  have "InvP (fst_state (child_state s')) L1"
    by (rule P.client_write [OF 1]) (use e w D apart lv L in auto)
  moreover have "InvQ (child_state (child_state s')) L2"
    by (rule Q.client_write [OF 2]) (use e w D apart lv L in auto)
  moreover have "self_ctx s' = self_ctx s" using e by (simp add: self_ctx_def)
  ultimately show ?thesis using ctx L by (intro fallback_invI) (simp_all add: pair_inv_def)
qed

lemma fst_realloc:
  assumes J: "pair_inv InvP InvQ t L1 L2" and r: "L1 r = Some n" and m: "unat m < limp" "m \<noteq> 0"
  obtains (fail) t' where "allo_realloc (on_fst p) r n m t = Some (0, t')" "pair_inv InvP InvQ t' L1 L2"
      "kept (hp \<union> hq) (L1 ++ L2) (mem t) (mem t')"
    | (ok) r' t' where "allo_realloc (on_fst p) r n m t = Some (r', t')" "r' \<noteq> 0"
      "r' = r \<or> r' \<notin> dom (L1 ++ L2)" "pair_inv InvP InvQ t' (L1(r := None, r' \<mapsto> m)) L2"
      "kept (hp \<union> hq) ((L1 ++ L2)(r := None)) (mem t) (mem t')"
      "same_bytes (mem t) r (mem t') r' (min n m)"
proof -
  have I: "InvP (fst_state t) L1" using J by (simp add: pair_inv_def)
  obtain r' u where u: "allo_realloc p r n m (fst_state t) = Some (r', u)"
    "realloc_post InvP hp L1 r n m (fst_state t) r' u" by (rule P.allo_realloc_ok [OF I r m])
  let ?t' = "\<lparr>mem = mem u, asan = asan u, env = (env u, snd (env t))\<rparr>"
  have run: "allo_realloc (on_fst p) r n m t = Some (r', ?t')"
    using u(1) by (simp add: allo_realloc_on_fst)
  note del = del_fst [OF J, of r, OF domI, OF r]
  have lv: "live (L1(r := None)) \<subseteq> hp" using pair_doms(3) [OF J] live_del by blast
  show thesis
  proof (cases "r' = 0")
    case True
    then have k: "kept hp L1 (mem t) (mem u)" "InvP u L1" using u(2) by (simp_all add: realloc_post_def)
    have J': "pair_inv InvP InvQ ?t' L1 L2"
      using k by (intro frame_fst [OF J, where K = L1]) simp_all
    have "kept (hp \<union> hq) (L1 ++ L2) (mem t) (mem ?t')"
      using k(1) pair_live(1) [OF J] pair_doms(3,4) [OF J] apart by (intro kept_both(1) [OF J, where K = L1]) auto
    with J' run True show thesis by (intro fail [of ?t']) simp_all
  next
    case False
    then have k: "kept hp (L1(r := None)) (mem t) (mem u)" "InvP u (L1(r := None, r' \<mapsto> m))"
      "r' = r \<or> r' \<notin> dom L1" "same_bytes (mem t) r (mem u) r' (min n m)"
      using u(2) by (simp_all add: realloc_post_def)
    have J': "pair_inv InvP InvQ ?t' (L1(r := None, r' \<mapsto> m)) L2"
      using k(1,2) by (intro frame_fst [OF J, where K = "L1(r := None)"]) simp_all
    have "r' \<notin> dom L2" using pair_apart(1) [OF J', of r'] by simp
    moreover have "live ((L1 ++ L2)(r := None)) \<inter> hp \<subseteq> live (L1(r := None))"
    proof
      fix x assume "x \<in> live ((L1 ++ L2)(r := None)) \<inter> hp"
      then have "x \<in> live (L1(r := None) ++ L2)" and h: "x \<in> hp" by (simp_all add: del)
      then obtain y j where y: "(L1(r := None) ++ L2) y = Some j" "x \<in> region y j" by (elim liveE)
      have "L2 y \<noteq> Some j" using live_okD(2) [OF pair_doms(6) [OF J], of y j] y(2) h apart by blast
      with y show "x \<in> live (L1(r := None))" by (auto simp: map_add_Some_iff intro: liveI [of _ y j])
    qed
    then have "kept (hp \<union> hq) ((L1 ++ L2)(r := None)) (mem t) (mem ?t')"
      using k(1) by (intro kept_both(1) [OF J, where K = "L1(r := None)"]) simp_all
    ultimately show thesis using J' run False k(3,4) by (intro ok [of r' ?t']) auto
  qed
qed

lemma snd_realloc:
  assumes J: "pair_inv InvP InvQ t L1 L2" and r: "L2 r = Some n" and m: "unat m < limq" "m \<noteq> 0"
  obtains (fail) t' where "allo_realloc (on_snd q) r n m t = Some (0, t')" "pair_inv InvP InvQ t' L1 L2"
      "kept (hp \<union> hq) (L1 ++ L2) (mem t) (mem t')"
    | (ok) r' t' where "allo_realloc (on_snd q) r n m t = Some (r', t')" "r' \<noteq> 0"
      "r' = r \<or> r' \<notin> dom (L1 ++ L2)" "pair_inv InvP InvQ t' L1 (L2(r := None, r' \<mapsto> m))"
      "kept (hp \<union> hq) ((L1 ++ L2)(r := None)) (mem t) (mem t')"
      "same_bytes (mem t) r (mem t') r' (min n m)"
proof -
  have I: "InvQ (child_state t) L2" using J by (simp add: pair_inv_def)
  obtain r' u where u: "allo_realloc q r n m (child_state t) = Some (r', u)"
    "realloc_post InvQ hq L2 r n m (child_state t) r' u" by (rule Q.allo_realloc_ok [OF I r m])
  let ?t' = "with_child (self_ctx t) u"
  have run: "allo_realloc (on_snd q) r n m t = Some (r', ?t')"
    using u(1) by (simp add: allo_realloc_on_snd)
  note del = del_snd [OF J, of r, OF domI, OF r]
  show thesis
  proof (cases "r' = 0")
    case True
    then have k: "kept hq L2 (mem t) (mem u)" "InvQ u L2" using u(2) by (simp_all add: realloc_post_def)
    have J': "pair_inv InvP InvQ ?t' L1 L2"
      using k by (intro frame_snd [OF J, where K = L2]) (simp_all add: self_ctx_def)
    have "kept (hp \<union> hq) (L1 ++ L2) (mem t) (mem ?t')"
      using k(1) pair_live(1) [OF J] pair_doms(3,4) [OF J] apart by (intro kept_both(2) [OF J, where K = L2]) auto
    with J' run True show thesis by (intro fail [of ?t']) simp_all
  next
    case False
    then have k: "kept hq (L2(r := None)) (mem t) (mem u)" "InvQ u (L2(r := None, r' \<mapsto> m))"
      "r' = r \<or> r' \<notin> dom L2" "same_bytes (mem t) r (mem u) r' (min n m)"
      using u(2) by (simp_all add: realloc_post_def)
    have J': "pair_inv InvP InvQ ?t' L1 (L2(r := None, r' \<mapsto> m))"
      using k(1,2) by (intro frame_snd [OF J, where K = "L2(r := None)"]) (simp_all add: self_ctx_def)
    have "r' \<notin> dom L1" using pair_apart(2) [OF J', of r'] by simp
    moreover have "live ((L1 ++ L2)(r := None)) \<inter> hq \<subseteq> live (L2(r := None))"
    proof
      fix x assume "x \<in> live ((L1 ++ L2)(r := None)) \<inter> hq"
      then have "x \<in> live (L1 ++ L2(r := None))" and h: "x \<in> hq" by (simp_all add: del)
      then obtain y j where y: "(L1 ++ L2(r := None)) y = Some j" "x \<in> region y j" by (elim liveE)
      have "L1 y \<noteq> Some j" using live_okD(2) [OF pair_doms(5) [OF J], of y j] y(2) h apart by blast
      with y show "x \<in> live (L2(r := None))" by (auto simp: map_add_Some_iff intro: liveI [of _ y j])
    qed
    then have "kept (hp \<union> hq) ((L1 ++ L2)(r := None)) (mem t) (mem ?t')"
      using k(1) by (intro kept_both(2) [OF J, where K = "L2(r := None)"]) simp_all
    ultimately show thesis using J' run False k(3,4) by (intro ok [of r' ?t']) auto
  qed
qed

text \<open>A block of the primary is given back, seen from the pair.\<close>

lemma fst_free_post:
  assumes J: "fallback_inv p InvP q InvQ s M" and r: "M r = Some n" "r \<in> hp"
  obtains s' where "call_child (allo_free (on_fst p) r n) s = Some ((), s')"
    "free_post (fallback_inv p InvP q InvQ) (hp \<union> hq) M r s s'"
proof -
  obtain K1 K2 where M: "M = K1 ++ K2" and ctx: "self_ctx s = \<lparr>fb_primary = on_fst p, fb_fallback = on_snd q\<rparr>"
    and I: "pair_inv InvP InvQ (child_state s) K1 K2" using J by (auto simp: fallback_inv_def)
  have "K2 r = None" by (rule pair_apart(3) [OF I r(2)])
  then have K1r: "K1 r = Some n" using r(1) by (auto simp: M map_add_Some_iff)
  obtain v where v: "allo_free (on_fst p) r n (child_state s) = Some ((), v)"
    "pair_inv InvP InvQ v (K1(r := None)) K2" "kept (hp \<union> hq) ((K1 ++ K2)(r := None)) (mem (child_state s)) (mem v)"
    by (rule fst_free [OF I K1r])
  have "fallback_inv p InvP q InvQ (with_child (self_ctx s) v) (M(r := None))"
    using v(2) ctx del_fst [OF I, of r, OF domI, OF K1r]
    by (intro fallback_invI [where ?K1.0 = "K1(r := None)" and ?K2.0 = K2]) (simp_all add: M)
  with v show thesis
    by (intro that [of "with_child (self_ctx s) v"]) (simp_all add: call_child_def free_post_def M)
qed

text \<open>A block that moves from the primary to the fallback: request, copy, free.\<close>

lemma fallback_spill:
  assumes J: "fallback_inv p InvP q InvQ s L" and r: "L r = Some n" "r \<in> hp"
    and ctx: "self_ctx t = self_ctx s" and k0: "kept (hp \<union> hq) L (mem s) (mem t)"
    and L: "L = L1 ++ L2" and I: "pair_inv InvP InvQ (child_state t) L1 L2" and m: "unat m < limq"
    and cs: "self_ctx s = \<lparr>fb_primary = on_fst p, fb_fallback = on_snd q\<rparr>"
  shows "\<exists>r' s'. do {
      (new_ptr, s) \<leftarrow> call_child (allo_alloc (on_snd q) m) t;
      if new_ptr = NULL then Some (NULL, s)
      else do {
        (_, s) \<leftarrow> allo_memcpy new_ptr r (min n m) s;
        (_, s) \<leftarrow> call_child (allo_free (on_fst p) r n) s;
        Some (new_ptr, s)
      }
    } = Some (r', s') \<and> realloc_post (fallback_inv p InvP q InvQ) (hp \<union> hq) L r n m s r' s'"
proof (cases rule: snd_alloc [OF I m])
  case (1 u)
  have "fallback_inv p InvP q InvQ (with_child (self_ctx t) u) L"
    using 1 cs ctx L by (intro fallback_invI) simp_all
  moreover have "kept (hp \<union> hq) L (mem s) (mem u)" using k0 1(3) by (simp add: L kept_trans)
  ultimately show ?thesis using 1(1) by (simp add: call_child_def realloc_post_def)
next
  case (2 r' u)
  let ?s2 = "with_child (self_ctx t) u"
  have J2: "fallback_inv p InvP q InvQ ?s2 (L(r' \<mapsto> m))"
    using 2(4) cs ctx unfolding L add_snd
    by (intro fallback_invI [where ?K1.0 = L1 and ?K2.0 = "L2(r' \<mapsto> m)"]) simp_all
  have post: "alloc_post (fallback_inv p InvP q InvQ) (hp \<union> hq) L m s r' ?s2"
    using 2(2,3,5) J2 k0 L by (auto simp: alloc_post_def intro: kept_trans)
  have k: "unat (min n m) \<le> unat n" "unat (min n m) \<le> unat m" by (simp_all add: min_def word_le_nat_alt)
  obtain s3 where s3: "allo_memcpy r' r (min n m) ?s2 = Some (r', s3)"
    "fallback_inv p InvP q InvQ s3 (L(r' \<mapsto> m))" "env s3 = env ?s2"
    "kept (hp \<union> hq) L (mem s) (mem s3)" "same_bytes (mem s) r (mem s3) r' (min n m)" "r' \<notin> dom L"
    by (rule copy_fresh [OF r(1) fallback_live_ok [OF J] post 2(2) fallback_live_ok [OF J2]
          fallback_client_write [OF J2] k])
  have rr': "r' \<noteq> r" using s3(6) r by auto
  then have at: "(L(r' \<mapsto> m)) r = Some n" using r(1) by simp
  obtain s4 where s4: "call_child (allo_free (on_fst p) r n) s3 = Some ((), s4)"
    "free_post (fallback_inv p InvP q InvQ) (hp \<union> hq) (L(r' \<mapsto> m)) r s3 s4"
    by (rule fst_free_post [OF s3(2) at r(2)])
  have "realloc_post (fallback_inv p InvP q InvQ) (hp \<union> hq) L r n m s r' s4"
    by (rule realloc_moved_free [OF r(1) s3(6,4,5) 2(2) rr' 2(7) s4(2)])
  then show ?thesis using 2(1,2) s3(1) s4(1) by (simp add: call_child_def [of _ t])
qed

lemma fallback_realloc_law:
  assumes J: "fallback_inv p InvP q InvQ s L" and r: "L r = Some n" and m: "unat m < min limp limq" "m \<noteq> 0"
  shows "\<exists>r' s'. fallback_realloc_fn r n m s = Some (r', s') \<and>
    realloc_post (fallback_inv p InvP q InvQ) (hp \<union> hq) L r n m s r' s'"
proof -
  obtain L1 L2 where L: "L = L1 ++ L2" and ctx: "self_ctx s = \<lparr>fb_primary = on_fst p, fb_fallback = on_snd q\<rparr>"
    and I: "pair_inv InvP InvQ (child_state s) L1 L2" using J by (auto simp: fallback_inv_def)
  have m': "unat m < limp" "unat m < limq" using m by simp_all
  have r0: "r \<noteq> 0" using live_okD(1) [OF pair_live(2) [OF I]] r L by (auto simp: block_ok_def)
  have cs: "(if n < m then n else m) = min n m" by (auto simp: min_def)
  consider (fst) "L1 r = Some n" | (snd) "L2 r = Some n" using r L by auto
  then show ?thesis
  proof cases
    case snd
    have run: "fallback_realloc_fn r n m s = call_child (allo_realloc (on_snd q) r n m) s"
      using fst_contains(2) [OF I, of r] snd r0
      by (simp add: fallback_realloc_fn_def ctx domI with_child_self [OF ctx])
    show ?thesis
    proof (cases rule: snd_realloc [OF I snd m'(2) m(2)])
      case (1 t)
      have "fallback_inv p InvP q InvQ (with_child (self_ctx s) t) L"
        using 1 ctx L by (intro fallback_invI) simp_all
      with run 1 L show ?thesis by (auto simp: realloc_post_def)
    next
      case (2 r' t)
      have "fallback_inv p InvP q InvQ (with_child (self_ctx s) t) (L(r := None, r' \<mapsto> m))"
        using 2(4) ctx del_snd [OF I, of r, OF domI, OF snd]
        by (intro fallback_invI [where ?K1.0 = L1 and ?K2.0 = "L2(r := None, r' \<mapsto> m)"]) (simp_all add: L)
      with run 2 L show ?thesis by (auto simp: realloc_post_def)
    qed
  next
    case fst
    have run: "fallback_realloc_fn r n m s = do {
          (new_ptr, s) \<leftarrow> call_child (allo_realloc (on_fst p) r n m) s;
          if new_ptr \<noteq> NULL then Some (new_ptr, s)
          else do {
            (new_ptr, s) \<leftarrow> call_child (allo_alloc (on_snd q) m) s;
            if new_ptr = NULL then Some (NULL, s)
            else do {
              (_, s) \<leftarrow> allo_memcpy new_ptr r (min n m) s;
              (_, s) \<leftarrow> call_child (allo_free (on_fst p) r n) s;
              Some (new_ptr, s)
            }
          } }"
      unfolding fallback_realloc_fn_def Let_def cs
      using fst_contains(1) [OF I, of r] fst r0
      by (simp add: ctx domI with_child_self [OF ctx] cong: if_cong)
    show ?thesis
    proof (cases rule: fst_realloc [OF I fst m'(1) m(2)])
      case (2 r' t)
      have "r' \<notin> dom L2" using pair_apart(1) [OF 2(4), of r'] by simp
      then have "fallback_inv p InvP q InvQ (with_child (self_ctx s) t) (L(r := None, r' \<mapsto> m))"
        using 2(4) ctx del_fst [OF I, of r, OF domI, OF fst]
        by (intro fallback_invI [where ?K1.0 = "L1(r := None, r' \<mapsto> m)" and ?K2.0 = L2])
          (simp_all add: L map_add_upd_left)
      with run 2 L show ?thesis by (auto simp: realloc_post_def)
    next
      case (1 t)
      have "r \<in> hp" using fst pair_doms(1) [OF I] by blast
      then show ?thesis
        using run 1(1) fallback_spill [OF J r _ _ _ L _ m'(2) ctx, of "with_child (self_ctx s) t"] 1(2,3) L
        by (simp add: call_child_def [of _ s])
    qed
  qed
qed

text \<open>Which of the two serves a call: the primary first, and for a block the one whose heap it is in.\<close>

lemma fallback_alloc_dispatch:
  assumes J: "fallback_inv p InvP q InvQ s L" and n: "unat n < limp"
  shows "\<exists>r s1. call_child (allo_alloc (on_fst p) n) s = Some (r, s1) \<and>
    fallback_alloc_fn n s = (if r \<noteq> NULL then Some (r, s1) else call_child (allo_alloc (on_snd q) n) s1)"
proof -
  obtain L1 L2 where ctx: "self_ctx s = \<lparr>fb_primary = on_fst p, fb_fallback = on_snd q\<rparr>"
    and I: "pair_inv InvP InvQ (child_state s) L1 L2" using J by (auto simp: fallback_inv_def)
  obtain r t where "allo_alloc (on_fst p) n (child_state s) = Some (r, t)"
    by (cases rule: fst_alloc [OF I n]) blast+
  then show ?thesis by (simp add: fallback_alloc_fn_def ctx call_child_def [of _ s])
qed

lemma fallback_owner:
  assumes J: "fallback_inv p InvP q InvQ s L" and r: "L r = Some n"
  shows "r \<noteq> NULL" "call_child (allo_contains (on_fst p) r) s =
    Some (if r \<in> hp then ALLO_CONTAINS_YES else ALLO_CONTAINS_NO, s)"
proof -
  obtain L1 L2 where L: "L = L1 ++ L2" and ctx: "self_ctx s = \<lparr>fb_primary = on_fst p, fb_fallback = on_snd q\<rparr>"
    and I: "pair_inv InvP InvQ (child_state s) L1 L2" using J by (auto simp: fallback_inv_def)
  show "r \<noteq> NULL" using live_okD(1) [OF pair_live(2) [OF I]] r L by (auto simp: block_ok_def)
  consider (fst) "r \<in> dom L1" | (snd) "r \<in> dom L2" using r L by auto
  then show "call_child (allo_contains (on_fst p) r) s =
      Some (if r \<in> hp then ALLO_CONTAINS_YES else ALLO_CONTAINS_NO, s)"
  proof cases
    case fst
    then have "r \<in> hp" using pair_doms(1) [OF I] by blast
    then show ?thesis using fst_contains(1) [OF I fst] ctx by (simp add: call_child_def with_child_self [OF ctx])
  next
    case snd
    then have "r \<notin> hp" using pair_doms(2) [OF I] apart by blast
    then show ?thesis using fst_contains(2) [OF I snd] ctx by (simp add: call_child_def with_child_self [OF ctx])
  qed
qed

lemma fallback_ctx: "fallback_inv p InvP q InvQ s L \<Longrightarrow> self_ctx s = \<lparr>fb_primary = on_fst p, fb_fallback = on_snd q\<rparr>"
  by (simp add: fallback_inv_def)

lemma fallback_free_dispatch:
  assumes J: "fallback_inv p InvP q InvQ s L" and r: "L r = Some n"
  shows "fallback_free_fn r n s =
    (if r \<in> hp then call_child (allo_free (on_fst p) r n) s else call_child (allo_free (on_snd q) r n) s)"
  using fallback_owner [OF J r] fallback_ctx [OF J] by (simp add: fallback_free_fn_def)

lemma fallback_realloc_dispatch:
  assumes J: "fallback_inv p InvP q InvQ s L" and r: "L r = Some n"
    and run: "fallback_realloc_fn r n m s = Some (r', s')"
  shows "if r \<in> hp
    then (\<exists>r1 s1. call_child (allo_realloc (on_fst p) r n m) s = Some (r1, s1) \<and>
      (if r1 \<noteq> NULL then (r', s') = (r1, s1)
       else \<exists>s2. call_child (allo_alloc (on_snd q) m) s1 = Some (r', s2)))
    else call_child (allo_realloc (on_snd q) r n m) s = Some (r', s')"
proof (cases "r \<in> hp")
  case False
  then show ?thesis
    using fallback_owner [OF J r] fallback_ctx [OF J] run by (simp add: fallback_realloc_fn_def)
next
  case True
  then show ?thesis
    using fallback_owner [OF J r] fallback_ctx [OF J] run
    by (fastforce simp: fallback_realloc_fn_def option_bind_Some_iff Let_def split: if_splits)
qed

lemma fallback_contains_law:
  assumes J: "fallback_inv p InvP q InvQ s L"
  shows "\<exists>c. allo_contains fallback_allo r s = Some (c, s) \<and> (r \<in> dom L \<longrightarrow> c \<noteq> ALLO_CONTAINS_NO) \<and>
    (c = ALLO_CONTAINS_YES \<longrightarrow> r \<in> hp \<union> hq)"
proof -
  obtain L1 L2 where L: "L = L1 ++ L2" and ctx: "self_ctx s = \<lparr>fb_primary = on_fst p, fb_fallback = on_snd q\<rparr>"
    and I: "pair_inv InvP InvQ (child_state s) L1 L2" using J by (auto simp: fallback_inv_def)
  note ws = with_child_self [OF ctx]
  obtain c1 where c1: "c1 \<noteq> ALLO_CONTAINS_UNKNOWN" "c1 = ALLO_CONTAINS_YES \<longrightarrow> r \<in> hp"
    "allo_contains (on_fst p) r (child_state s) = Some (c1, child_state s)"
    using fst_contains(3) [OF I] by blast
  obtain c2 where c2: "r \<in> dom L2 \<longrightarrow> c2 \<noteq> ALLO_CONTAINS_NO" "c2 = ALLO_CONTAINS_YES \<longrightarrow> r \<in> hq"
    "allo_contains (on_snd q) r (child_state s) = Some (c2, child_state s)"
    using snd_contains [OF I] by blast
  have c1d: "r \<in> dom L1 \<Longrightarrow> c1 = ALLO_CONTAINS_YES" using fst_contains(1) [OF I] c1(3) by auto
  have "fallback_contains_fn r s = Some (if c1 = ALLO_CONTAINS_YES then c1 else c2, s)"
    using c1(1,3) c2(3) by (cases c1; cases c2) (simp_all add: fallback_contains_fn_def ctx ws)
  then show ?thesis using c1(2) c2(1,2) c1d by (auto simp: allo_contains_def fallback_allo_def L)
qed

end

sublocale independent \<subseteq> fb: allocator fallback_allo "fallback_inv p InvP q InvQ" "hp \<union> hq" "min limp limq"
proof unfold_locales
  show "min limp limq \<le> 2 ^ 63" using P.lim_le by simp
next
  fix s :: "('a \<times> 'b) fallback_machine" and L :: live_map and n m :: size_t and r :: ptr
  assume J: "fallback_inv p InvP q InvQ s L"
  show "live_ok (hp \<union> hq) L" by (rule fallback_live_ok [OF J])
  show "fallback_inv p InvP q InvQ s' L" if "env s' = env s"
    "\<And>x. x \<in> hp \<union> hq \<Longrightarrow> x \<notin> live L \<Longrightarrow> mem s' x = mem s x" for s'
    using fallback_client_write [OF J that] .
  show "\<exists>r s'. vt_alloc fallback_allo n s = Some (r, s') \<and>
      alloc_post (fallback_inv p InvP q InvQ) (hp \<union> hq) L n s r s'" if "unat n < min limp limq"
    using fallback_alloc_law [OF J that] by (simp add: fallback_allo_def)
  show "\<exists>r' s'. vt_realloc fallback_allo r n m s = Some (r', s') \<and>
      realloc_post (fallback_inv p InvP q InvQ) (hp \<union> hq) L r n m s r' s'"
    if "L r = Some n" "unat m < min limp limq" "m \<noteq> 0"
    using fallback_realloc_law [OF J that] by (simp add: fallback_allo_def)
  show "\<exists>s'. vt_free_mem fallback_allo r n s = Some ((), s') \<and>
      free_post (fallback_inv p InvP q InvQ) (hp \<union> hq) L r s s'" if "L r = Some n"
    using fallback_free_law [OF J that] by (simp add: fallback_allo_def)
  show "\<exists>s'. vt_free_mem fallback_allo NULL n s = Some ((), s') \<and> fallback_inv p InvP q InvQ s' L \<and>
      kept (hp \<union> hq) L (mem s) (mem s')"
    using J by (simp add: fallback_allo_def fallback_free_fn_def)
  show "\<exists>c. allo_contains fallback_allo r s = Some (c, s) \<and> (r \<in> dom L \<longrightarrow> c \<noteq> ALLO_CONTAINS_NO) \<and>
      (c = ALLO_CONTAINS_YES \<longrightarrow> r \<in> hp \<union> hq)"
    by (rule fallback_contains_law [OF J])
qed

text \<open>A pool first, a bump buffer when the pool is full or the request too large.\<close>

interpretation pool_buf: independent pool_allo "pool_inv 4096 32 8" "region 4096 (32 * 8)" "2 ^ 63"
    buf_allo "buf_inv 8192 1024" "region 8192 1024" "2 ^ 63"
proof unfold_locales
  show "region 4096 (32 * 8) \<inter> region 8192 1024 = {}" by (rule region_disjoint) simp
qed

end
