(* ===== verification/Libc.thy ===== *)
theory Libc
  imports Buffer
begin

text \<open>
  The C library allocator, \<open>src/allo_libc.c\<close>: a thin layer over \<open>malloc\<close>, \<open>realloc\<close> and \<open>free\<close>,
  which are parameters of the model. The locale \<open>c_library\<close> states what the C standard promises
  of them; from it the allocator meets the contract, and answers \<open>UNKNOWN\<close> to every containment
  query.
\<close>

section \<open>Code\<close>

text \<open>The three functions of \<open>stdlib.h\<close> the file calls.\<close>

record 'e libc =
  malloc :: "size_t \<Rightarrow> 'e machine \<Rightarrow> ptr \<times> 'e machine"
  c_realloc :: "ptr \<Rightarrow> size_t \<Rightarrow> 'e machine \<Rightarrow> ptr \<times> 'e machine"
  c_free :: "ptr \<Rightarrow> 'e machine \<Rightarrow> 'e machine"

definition c_alloc_fn :: "'e libc \<Rightarrow> size_t \<Rightarrow> 'e machine \<Rightarrow> (ptr \<times> 'e machine) option" where
  "c_alloc_fn lc n s =
     (if n = 0 then Some (NULL, s)
      else (let (p, s) = malloc lc n s
            in Some (p, if p \<noteq> NULL then ALLOC_UNPOISON p n s else s)))"

definition c_realloc_fn ::
  "'e libc \<Rightarrow> ptr \<Rightarrow> size_t \<Rightarrow> size_t \<Rightarrow> 'e machine \<Rightarrow> (ptr \<times> 'e machine) option" where
  "c_realloc_fn lc p old_size new_size s =
     (let s = (if p \<noteq> NULL then ALLOC_UNPOISON p old_size s else s);
          (new_ptr, s) = c_realloc lc p new_size s
      in Some (new_ptr,
           if new_ptr \<noteq> NULL then ALLOC_UNPOISON new_ptr new_size s
           else if p \<noteq> NULL then ALLOC_UNPOISON p old_size s
           else s))"

definition c_free_fn :: "'e libc \<Rightarrow> ptr \<Rightarrow> size_t \<Rightarrow> 'e machine \<Rightarrow> (unit \<times> 'e machine) option" where
  "c_free_fn lc p n s =
     (if p = NULL then Some ((), s) else Some ((), c_free lc p (ALLOC_POISON p n s)))"

definition c_allo :: "'e libc \<Rightarrow> 'e allo" where
  "c_allo lc = \<lparr>vt_alloc = c_alloc_fn lc, vt_realloc = c_realloc_fn lc,
     vt_free_mem = c_free_fn lc, vt_destroy = None, vt_contains = None\<rparr>"

definition make_c_allocator :: "'e libc \<Rightarrow> ptr \<Rightarrow> allo_error_t + 'e allo" where
  "make_c_allocator lc out = (if out = NULL then Inl ALLO_ERR_INVAL else Inr (c_allo lc))"

section \<open>What the C library promises\<close>

text \<open>
  \<open>Inv s L\<close>: the library's heap is sound and exactly the blocks \<open>L\<close> are in use. The laws are
  those of the standard for sizes other than zero; blocks are aligned for every type.
\<close>

locale c_library =
  fixes lc :: "'e libc"
    and Inv :: "'e machine \<Rightarrow> live_map \<Rightarrow> bool"
    and heap :: "ptr set"
    and lim :: nat
  assumes lc_lim: "lim \<le> 2 ^ 63"
    and lc_live: "Inv s L \<Longrightarrow> live_ok heap L"
    and lc_write: "Inv s L \<Longrightarrow> env s' = env s \<Longrightarrow>
      (\<And>x. x \<in> heap \<Longrightarrow> x \<notin> live L \<Longrightarrow> mem s' x = mem s x) \<Longrightarrow> Inv s' L"
    and malloc_law: "Inv s L \<Longrightarrow> unat n < lim \<Longrightarrow> n \<noteq> 0 \<Longrightarrow> malloc lc n s = (p, s') \<Longrightarrow>
      alloc_post Inv heap L n s p s'"
    and c_realloc_law: "Inv s L \<Longrightarrow> L p = Some n \<Longrightarrow> unat m < lim \<Longrightarrow> m \<noteq> 0 \<Longrightarrow>
      c_realloc lc p m s = (q, s') \<Longrightarrow> realloc_post Inv heap L p n m s q s'"
    and c_free_law: "Inv s L \<Longrightarrow> L p = Some n \<Longrightarrow> free_post Inv heap L p s (c_free lc p s)"
    and c_free_null_law: "Inv s L \<Longrightarrow> Inv (c_free lc NULL s) L"
begin

lemma poison_inv [simp]:
  "Inv (ALLOC_POISON p n s) L \<longleftrightarrow> Inv s L" "Inv (ALLOC_UNPOISON p n s) L \<longleftrightarrow> Inv s L"
proof -
  have "Inv s L \<Longrightarrow> Inv s' L" if "env s' = env s" "mem s' = mem s" for s s'
    using lc_write [of s L s'] that by simp
  then show "Inv (ALLOC_POISON p n s) L \<longleftrightarrow> Inv s L" "Inv (ALLOC_UNPOISON p n s) L \<longleftrightarrow> Inv s L"
    by (metis ALLOC_POISON_simps ALLOC_UNPOISON_simps)+
qed

end

sublocale c_library \<subseteq> ca: allocator "c_allo lc" Inv heap lim
proof unfold_locales
  show "lim \<le> 2 ^ 63" by (rule lc_lim)
next
  fix s :: "'e machine" and L :: live_map and n m :: size_t and p :: ptr
  assume I: "Inv s L"
  show "live_ok heap L" by (rule lc_live [OF I])
  show "Inv s' L" if "env s' = env s"
    "\<And>x. x \<in> heap \<Longrightarrow> x \<notin> live L \<Longrightarrow> mem s' x = mem s x" for s'
    using lc_write [OF I that] .
  show "\<exists>p s'. vt_alloc (c_allo lc) n s = Some (p, s') \<and> alloc_post Inv heap L n s p s'"
    if "unat n < lim"
    using malloc_law [OF I that] I
    by (cases "malloc lc n s") (auto simp: c_allo_def c_alloc_fn_def alloc_post_def)
  show "\<exists>q s'. vt_realloc (c_allo lc) p n m s = Some (q, s') \<and> realloc_post Inv heap L p n m s q s'"
    if p: "L p = Some n" and m: "unat m < lim" "m \<noteq> 0"
  proof -
    have p0: "p \<noteq> 0" using live_okD(1) [OF lc_live [OF I] p] by (simp add: block_ok_def)
    let ?s = "ALLOC_UNPOISON p n s"
    obtain q t where q: "c_realloc lc p m ?s = (q, t)" by fastforce
    have "realloc_post Inv heap L p n m ?s q t" using c_realloc_law [of ?s L p n m q t] I p m q by simp
    then show ?thesis using p0 q by (auto simp: c_allo_def c_realloc_fn_def realloc_post_def)
  qed
  show "\<exists>s'. vt_free_mem (c_allo lc) p n s = Some ((), s') \<and> free_post Inv heap L p s s'"
    if p: "L p = Some n"
  proof -
    have p0: "p \<noteq> 0" using live_okD(1) [OF lc_live [OF I] p] by (simp add: block_ok_def)
    have "free_post Inv heap L p (ALLOC_POISON p n s) (c_free lc p (ALLOC_POISON p n s))"
      using c_free_law [of "ALLOC_POISON p n s" L p n] I p by simp
    with p0 show ?thesis by (simp add: c_allo_def c_free_fn_def free_post_def)
  qed
  show "\<exists>s'. vt_free_mem (c_allo lc) NULL n s = Some ((), s') \<and> Inv s' L \<and> kept heap L (mem s) (mem s')"
    using I by (simp add: c_allo_def c_free_fn_def)
  show "\<exists>r. allo_contains (c_allo lc) p s = Some (r, s) \<and> (p \<in> dom L \<longrightarrow> r \<noteq> ALLO_CONTAINS_NO) \<and>
      (r = ALLO_CONTAINS_YES \<longrightarrow> p \<in> heap)"
    by (simp add: allo_contains_def c_allo_def)
qed

context c_library
begin

lemma c_laws:
  assumes "Inv s L"
  shows "unat n < lim \<Longrightarrow> \<exists>p s'. vt_alloc (c_allo lc) n s = Some (p, s') \<and> alloc_post Inv heap L n s p s'"
    "L p = Some k \<Longrightarrow> \<exists>s'. vt_free_mem (c_allo lc) p k s = Some ((), s') \<and> free_post Inv heap L p s s'"
    "L p = Some k \<Longrightarrow> unat m < lim \<Longrightarrow> m \<noteq> 0 \<Longrightarrow>
      \<exists>q s'. vt_realloc (c_allo lc) p k m s = Some (q, s') \<and> realloc_post Inv heap L p k m s q s'"
  using ca.alloc_law [OF assms] ca.free_law [OF assms] ca.realloc_law [OF assms] by blast+

end

section \<open>A C library\<close>

text \<open>
  A library as a freestanding program would have it: an allocator of this repository with a table
  of the sizes of its blocks, since \<open>free\<close> and \<open>realloc\<close> are not told them. It keeps the laws, so
  they can be met.
\<close>

definition table_malloc :: "'e allo \<Rightarrow> size_t \<Rightarrow> (live_map \<times> 'e) machine \<Rightarrow> ptr \<times> (live_map \<times> 'e) machine" where
  "table_malloc a n s = (case call_child (allo_alloc a n) s of
     None \<Rightarrow> (NULL, s)
   | Some (p, t) \<Rightarrow> (p, if p = NULL then t else set_ctx ((self_ctx s)(p \<mapsto> n)) t))"

definition table_realloc ::
  "'e allo \<Rightarrow> ptr \<Rightarrow> size_t \<Rightarrow> (live_map \<times> 'e) machine \<Rightarrow> ptr \<times> (live_map \<times> 'e) machine" where
  "table_realloc a p m s = (case self_ctx s p of
     None \<Rightarrow> table_malloc a m s
   | Some n \<Rightarrow> (case call_child (allo_realloc a p n m) s of
       None \<Rightarrow> (NULL, s)
     | Some (q, t) \<Rightarrow> (q, if q = NULL then t else set_ctx ((self_ctx s)(p := None, q \<mapsto> m)) t)))"

definition table_free :: "'e allo \<Rightarrow> ptr \<Rightarrow> (live_map \<times> 'e) machine \<Rightarrow> (live_map \<times> 'e) machine" where
  "table_free a p s = (case self_ctx s p of
     None \<Rightarrow> s
   | Some n \<Rightarrow> (case call_child (allo_free a p n) s of
       None \<Rightarrow> s
     | Some (_, t) \<Rightarrow> set_ctx ((self_ctx s)(p := None)) t))"

definition table_libc :: "'e allo \<Rightarrow> (live_map \<times> 'e) libc" where
  "table_libc a = \<lparr>malloc = table_malloc a, c_realloc = table_realloc a, c_free = table_free a\<rparr>"

definition table_inv :: "('e machine \<Rightarrow> live_map \<Rightarrow> bool) \<Rightarrow> (live_map \<times> 'e) machine \<Rightarrow> live_map \<Rightarrow> bool" where
  "table_inv Inv s L \<longleftrightarrow> self_ctx s = L \<and> Inv (child_state s) L"

context allocator
begin

lemma table_library: "c_library (table_libc a) (table_inv Inv) heap lim"
proof unfold_locales
  show "lim \<le> 2 ^ 63" by (rule lim_le)
next
  fix s :: "(live_map \<times> 'e) machine" and L :: live_map and n m :: size_t and p q :: ptr and s'
  assume J: "table_inv Inv s L"
  then have I: "Inv (child_state s) L" and t: "self_ctx s = L" by (simp_all add: table_inv_def)
  show "live_ok heap L" by (rule live_inv [OF I])
  have "L NULL = None" using live_okD(1) [OF live_inv [OF I], of NULL] by (cases "L NULL") (auto simp: block_ok_def)
  then show "table_inv Inv (c_free (table_libc a) NULL s) L"
    using J t by (simp add: table_libc_def table_free_def)
  show "table_inv Inv s' L" if e: "env s' = env s"
    and w: "\<And>x. x \<in> heap \<Longrightarrow> x \<notin> live L \<Longrightarrow> mem s' x = mem s x"
    using client_write [OF I, of "child_state s'"] t e w by (simp add: table_inv_def self_ctx_def)
  show "alloc_post (table_inv Inv) heap L n s p s'"
    if "unat n < lim" "malloc (table_libc a) n s = (p, s')"
    by (cases rule: alloc_cases [OF I that(1)])
      (use that(2) t in \<open>auto simp: table_libc_def table_malloc_def call_child_def table_inv_def alloc_post_def\<close>)
  show "realloc_post (table_inv Inv) heap L p n m s q s'"
    if p: "L p = Some n" and m: "unat m < lim" "m \<noteq> 0" and q: "c_realloc (table_libc a) p m s = (q, s')"
    by (rule allo_realloc_ok [OF I p m])
      (use q t p in \<open>auto simp: table_libc_def table_realloc_def call_child_def table_inv_def realloc_post_def\<close>)
  show "free_post (table_inv Inv) heap L p s (c_free (table_libc a) p s)" if p: "L p = Some n"
    by (rule free_ok [OF I p])
      (use t p in \<open>auto simp: table_libc_def table_free_def call_child_def table_inv_def free_post_def\<close>)
qed

end

interpretation buf_libc: c_library "table_libc buf_allo" "table_inv (buf_inv B S)" "region B S" "2 ^ 63"
  for B S by (rule buf.table_library)

end
