(* ===== verification/Mtx.thy ===== *)
theory Mtx
  imports Buffer
begin

text \<open>
  The mutex allocator, \<open>src/allo_mtx.c\<close>: every operation of the target allocator between
  \<open>mtx_lock\<close> and \<open>mtx_unlock\<close>. The mutex of \<open>threads.h\<close> is a flag: locking a held mutex does not
  return (\<open>None\<close>; for several threads: the step is not enabled). The functions are
  lists of statements, run by one thread or interleaved with those of others. Shown: for one thread
  the wrapper is transparent and always gives the lock back; for any number of threads at most one
  is inside, no two ever run the target at once, the target's state is the one the operations give
  one after the other in the order they ran, and no thread can be stuck.
\<close>

section \<open>Code\<close>

record mtx_t =
  mtx_ready :: bool
  mtx_locked :: bool

record 'e allo_mtx_ctx_t =
  mtx_target :: "'e allo"
  mtx_mutex :: mtx_t

type_synonym 'e mtx_machine = "('e allo_mtx_ctx_t \<times> 'e) machine"

definition mtx_lock :: "'e mtx_machine \<Rightarrow> 'e mtx_machine option" where
  "mtx_lock s =
     (let ctx = self_ctx s in
      if mtx_ready (mtx_mutex ctx) \<and> \<not> mtx_locked (mtx_mutex ctx)
      then Some (set_ctx (ctx\<lparr>mtx_mutex := (mtx_mutex ctx)\<lparr>mtx_locked := True\<rparr>\<rparr>) s)
      else None)"

definition mtx_unlock :: "'e mtx_machine \<Rightarrow> 'e mtx_machine" where
  "mtx_unlock s =
     (let ctx = self_ctx s in
      set_ctx (ctx\<lparr>mtx_mutex := (mtx_mutex ctx)\<lparr>mtx_locked := False\<rparr>\<rparr>) s)"

definition mtx_destroy :: "'e mtx_machine \<Rightarrow> 'e mtx_machine" where
  "mtx_destroy s =
     (let ctx = self_ctx s in
      set_ctx (ctx\<lparr>mtx_mutex := (mtx_mutex ctx)\<lparr>mtx_ready := False\<rparr>\<rparr>) s)"

text \<open>
  The operations of the target allocator and what they give back, and the four locked functions as
  the statements they are made of: a call of \<open>mtx_lock\<close>, a call of the target, a call of
  \<open>mtx_unlock\<close>. The same lists are run by one thread (\<open>mtx_exec\<close>, the functions of the interface)
  and, a statement at a time, by several (\<open>mtx_step\<close> below).
\<close>

datatype mtx_op = Op_alloc size_t | Op_realloc ptr size_t size_t | Op_free ptr size_t | Op_contains ptr

datatype mtx_res = R_ptr ptr | R_unit | R_contains allo_contains_t

fun run_op :: "'e allo \<Rightarrow> mtx_op \<Rightarrow> 'e machine \<Rightarrow> (mtx_res \<times> 'e machine) option" where
  "run_op a (Op_alloc n) s = map_option (map_prod R_ptr id) (allo_alloc a n s)"
| "run_op a (Op_realloc p n m) s = map_option (map_prod R_ptr id) (allo_realloc a p n m s)"
| "run_op a (Op_free p n) s = map_option (map_prod (\<lambda>_. R_unit) id) (allo_free a p n s)"
| "run_op a (Op_contains p) s = map_option (map_prod R_contains id) (allo_contains a p s)"

datatype mtx_stmt = Do_lock | Do_target mtx_op | Do_unlock

definition allo_mtx_alloc_code :: "size_t \<Rightarrow> mtx_stmt list" where
  "allo_mtx_alloc_code n = [Do_lock, Do_target (Op_alloc n), Do_unlock]"

definition allo_mtx_realloc_code :: "ptr \<Rightarrow> size_t \<Rightarrow> size_t \<Rightarrow> mtx_stmt list" where
  "allo_mtx_realloc_code p old_size new_size =
     [Do_lock, Do_target (Op_realloc p old_size new_size), Do_unlock]"

definition allo_mtx_free_code :: "ptr \<Rightarrow> size_t \<Rightarrow> mtx_stmt list" where
  "allo_mtx_free_code p n = [Do_lock, Do_target (Op_free p n), Do_unlock]"

definition allo_mtx_contains_code :: "ptr \<Rightarrow> mtx_stmt list" where
  "allo_mtx_contains_code p = [Do_lock, Do_target (Op_contains p), Do_unlock]"

text \<open>
  The statements run by one thread from the first to the last. \<open>r\<close> is the local variable the
  target's result is kept in until the function returns it.
\<close>

fun mtx_exec :: "mtx_stmt list \<Rightarrow> mtx_res \<Rightarrow> 'e mtx_machine \<Rightarrow> (mtx_res \<times> 'e mtx_machine) option" where
  "mtx_exec [] r s = Some (r, s)"
| "mtx_exec (Do_lock # code) r s = do {
     s \<leftarrow> mtx_lock s;
     mtx_exec code r s
   }"
| "mtx_exec (Do_target op # code) r s = do {
     (r, s) \<leftarrow> call_child (run_op (mtx_target (self_ctx s)) op) s;
     mtx_exec code r s
   }"
| "mtx_exec (Do_unlock # code) r s = mtx_exec code r (mtx_unlock s)"

fun ptr_result :: "mtx_res \<Rightarrow> ptr" where
  "ptr_result (R_ptr p) = p"
| "ptr_result _ = NULL"

fun contains_result :: "mtx_res \<Rightarrow> allo_contains_t" where
  "contains_result (R_contains c) = c"
| "contains_result _ = ALLO_CONTAINS_UNKNOWN"

definition allo_mtx_alloc :: "size_t \<Rightarrow> 'e mtx_machine \<Rightarrow> (ptr \<times> 'e mtx_machine) option" where
  "allo_mtx_alloc n s = do {
     (r, s) \<leftarrow> mtx_exec (allo_mtx_alloc_code n) R_unit s;
     Some (ptr_result r, s)
   }"

definition allo_mtx_realloc ::
  "ptr \<Rightarrow> size_t \<Rightarrow> size_t \<Rightarrow> 'e mtx_machine \<Rightarrow> (ptr \<times> 'e mtx_machine) option" where
  "allo_mtx_realloc p old_size new_size s = do {
     (r, s) \<leftarrow> mtx_exec (allo_mtx_realloc_code p old_size new_size) R_unit s;
     Some (ptr_result r, s)
   }"

definition allo_mtx_free :: "ptr \<Rightarrow> size_t \<Rightarrow> 'e mtx_machine \<Rightarrow> (unit \<times> 'e mtx_machine) option" where
  "allo_mtx_free p n s = do {
     (_, s) \<leftarrow> mtx_exec (allo_mtx_free_code p n) R_unit s;
     Some ((), s)
   }"

definition allo_mtx_destroy :: "'e mtx_machine \<Rightarrow> (unit \<times> 'e mtx_machine) option" where
  "allo_mtx_destroy s = Some ((), mtx_destroy s)"

definition allo_mtx_contains ::
  "ptr \<Rightarrow> 'e mtx_machine \<Rightarrow> (allo_contains_t \<times> 'e mtx_machine) option" where
  "allo_mtx_contains p s = do {
     (r, s) \<leftarrow> mtx_exec (allo_mtx_contains_code p) R_unit s;
     Some (contains_result r, s)
   }"

definition mtx_allo :: "('e allo_mtx_ctx_t \<times> 'e) allo" where
  "mtx_allo = \<lparr>vt_alloc = allo_mtx_alloc, vt_realloc = allo_mtx_realloc,
     vt_free_mem = allo_mtx_free, vt_destroy = Some allo_mtx_destroy,
     vt_contains = Some allo_mtx_contains\<rparr>"

text \<open>\<open>init_ok\<close>: the result of \<open>mtx_init\<close> is \<open>thrd_success\<close>.\<close>

definition make_mtx_allocator ::
  "bool \<Rightarrow> ptr \<Rightarrow> 'e allo option \<Rightarrow> 'e machine \<Rightarrow> (allo_error_t \<times> 'e machine) + 'e mtx_machine" where
  "make_mtx_allocator init_ok out target s =
     (case target of
        None \<Rightarrow> Inl (ALLO_ERR_INVAL, s)
      | Some t \<Rightarrow>
          if out = NULL then Inl (ALLO_ERR_INVAL, s)
          else if \<not> init_ok then Inl (ALLO_ERR_NOMEM, s)
          else Inr (with_child \<lparr>mtx_target = t,
                 mtx_mutex = \<lparr>mtx_ready = True, mtx_locked = False\<rparr>\<rparr> s))"

section \<open>One thread\<close>

text \<open>A mutex nobody holds.\<close>

definition mtx_idle :: "'e allo \<Rightarrow> 'e mtx_machine \<Rightarrow> bool" where
  "mtx_idle a s \<longleftrightarrow> self_ctx s =
     \<lparr>mtx_target = a, mtx_mutex = \<lparr>mtx_ready = True, mtx_locked = False\<rparr>\<rparr>"

definition mtx_inv :: "'e allo \<Rightarrow> ('e machine \<Rightarrow> live_map \<Rightarrow> bool) \<Rightarrow> 'e mtx_machine \<Rightarrow> live_map \<Rightarrow> bool" where
  "mtx_inv a Inv s L \<longleftrightarrow> mtx_idle a s \<and> Inv (child_state s) L"

text \<open>Lock, body and unlock: the wrapper is the target's operation.\<close>

lemma mtx_exec_idle:
  assumes "mtx_idle a s"
  shows "mtx_exec [Do_lock, Do_target op, Do_unlock] R_unit s = call_child (run_op a op) s"
proof -
  have eq: "set_ctx (self_ctx s) (with_child c t) = with_child (self_ctx s) t" for c t
    by (simp add: set_ctx_def with_child_def)
  show ?thesis
    using assms eq [of _]
    by (cases "run_op a op (child_state s)")
      (auto simp: mtx_idle_def mtx_lock_def mtx_unlock_def call_child_def)
qed

lemma call_child_run_op:
  "do { (r, s) \<leftarrow> call_child (run_op a (Op_alloc n)) s; Some (ptr_result r, s) } = call_child (allo_alloc a n) s"
  "do { (r, s) \<leftarrow> call_child (run_op a (Op_realloc p n m)) s; Some (ptr_result r, s) } =
     call_child (allo_realloc a p n m) s"
  "do { (_, s) \<leftarrow> call_child (run_op a (Op_free p n)) s; Some ((), s) } = call_child (allo_free a p n) s"
  "do { (r, s) \<leftarrow> call_child (run_op a (Op_contains p)) s; Some (contains_result r, s) } =
     call_child (allo_contains a p) s"
  by (auto simp: call_child_def split: option.split)

lemma mtx_transparent:
  assumes "mtx_idle a s"
  shows "allo_mtx_alloc n s = call_child (allo_alloc a n) s"
    "allo_mtx_realloc p n m s = call_child (allo_realloc a p n m) s"
    "allo_mtx_free p n s = call_child (allo_free a p n) s"
    "allo_mtx_contains p s = call_child (allo_contains a p) s"
  by (simp_all only: allo_mtx_alloc_def allo_mtx_alloc_code_def allo_mtx_realloc_def allo_mtx_realloc_code_def
    allo_mtx_free_def allo_mtx_free_code_def allo_mtx_contains_def allo_mtx_contains_code_def
    mtx_exec_idle [OF assms] call_child_run_op)

text \<open>The lock is free again after every operation.\<close>

lemma call_child_idle: "call_child f s = Some (r, s') \<Longrightarrow> mtx_idle a s \<Longrightarrow> mtx_idle a s'"
  by (auto simp: call_child_def mtx_idle_def split: option.splits)

context allocator
begin

lemma mtx_contract: "allocator mtx_allo (mtx_inv a Inv) heap lim"
proof unfold_locales
  show "lim \<le> 2 ^ 63" by (rule lim_le)
next
  fix s :: "'e mtx_machine" and L :: live_map and n m :: size_t and p :: ptr
  assume J: "mtx_inv a Inv s L"
  then have I: "Inv (child_state s) L" and d: "mtx_idle a s" by (simp_all add: mtx_inv_def)
  note tr = mtx_transparent [OF d]
  have idle: "mtx_idle a (with_child (self_ctx s) t)" for t using d by (simp add: mtx_idle_def)
  show "live_ok heap L" by (rule live_inv [OF I])
  show "mtx_inv a Inv s' L" if e: "env s' = env s"
    and w: "\<And>x. x \<in> heap \<Longrightarrow> x \<notin> live L \<Longrightarrow> mem s' x = mem s x" for s'
    using client_write [OF I, of "child_state s'"] d e w by (simp add: mtx_inv_def mtx_idle_def self_ctx_def)
  show "\<exists>p s'. vt_alloc mtx_allo n s = Some (p, s') \<and> alloc_post (mtx_inv a Inv) heap L n s p s'"
    if n: "unat n < lim"
  proof -
    obtain q t where "vt_alloc a n (child_state s) = Some (q, t)" "alloc_post Inv heap L n (child_state s) q t"
      using alloc_law [OF I n] by blast
    then show ?thesis
      by (intro exI [of _ q] exI [of _ "with_child (self_ctx s) t"])
        (simp add: mtx_allo_def tr call_child_def allo_alloc_def alloc_post_def mtx_inv_def idle)
  qed
  show "\<exists>q s'. vt_realloc mtx_allo p n m s = Some (q, s') \<and> realloc_post (mtx_inv a Inv) heap L p n m s q s'"
    if p: "L p = Some n" and m: "unat m < lim" "m \<noteq> 0"
  proof -
    obtain q t where "allo_realloc a p n m (child_state s) = Some (q, t)"
      "realloc_post Inv heap L p n m (child_state s) q t" by (rule allo_realloc_ok [OF I p m])
    then show ?thesis
      by (intro exI [of _ q] exI [of _ "with_child (self_ctx s) t"])
        (cases "q = 0", simp_all add: mtx_allo_def tr call_child_def realloc_post_def mtx_inv_def idle)
  qed
  show "\<exists>s'. vt_free_mem mtx_allo p n s = Some ((), s') \<and> free_post (mtx_inv a Inv) heap L p s s'"
    if p: "L p = Some n"
    by (rule free_ok [OF I p]) (simp add: mtx_allo_def tr call_child_def free_post_def mtx_inv_def idle)
  show "\<exists>s'. vt_free_mem mtx_allo NULL n s = Some ((), s') \<and> mtx_inv a Inv s' L \<and> kept heap L (mem s) (mem s')"
    using free_null_law [OF I, of n] idle
    by (auto simp: mtx_allo_def tr call_child_def allo_free_def mtx_inv_def)
  have ws: "with_child (self_ctx s) (child_state s) = s"
    by (simp add: with_child_def self_ctx_def child_state_def)
  have "allo_contains mtx_allo p s = call_child (allo_contains a p) s"
    unfolding allo_contains_def [of mtx_allo] by (simp add: mtx_allo_def tr)
  then show "\<exists>r. allo_contains mtx_allo p s = Some (r, s) \<and> (p \<in> dom L \<longrightarrow> r \<noteq> ALLO_CONTAINS_NO) \<and>
      (r = ALLO_CONTAINS_YES \<longrightarrow> p \<in> heap)"
    using contains_law [OF I, of p] ws by (auto simp: call_child_def)
qed

end

interpretation mtx_buf: allocator mtx_allo "mtx_inv buf_allo (buf_inv B S)" "region B S" "2 ^ 63"
  for B S by (rule buf.mtx_contract)

section \<open>Several threads\<close>

text \<open>
  Threads call the operations of one mutex allocator. A thread is outside or runs the statements of
  the function it has called: the ones it has left to run, and the result so far. A step is one
  statement of one thread; the threads' steps interleave as they like. The target is not made for
  several threads, so a state in which two threads are about to run the target's code is a data
  race, undefined behaviour: from there the machine may go anywhere (\<open>race\<close>). (Two calls of
  \<open>contains\<close> are counted as a race as well: nothing in the interface says that it only reads.) The
  log is ghost state: which thread ran which operation with which result, in the order the target's
  code ran.
\<close>

fun mtx_code :: "mtx_op \<Rightarrow> mtx_stmt list" where
  "mtx_code (Op_alloc n) = allo_mtx_alloc_code n"
| "mtx_code (Op_realloc p n m) = allo_mtx_realloc_code p n m"
| "mtx_code (Op_free p n) = allo_mtx_free_code p n"
| "mtx_code (Op_contains p) = allo_mtx_contains_code p"

datatype mtx_pc = Outside | Running "mtx_stmt list" mtx_res

fun at_target :: "mtx_pc \<Rightarrow> bool" where
  "at_target (Running (Do_target op # code) r) = True"
| "at_target _ = False"

record 'e threads =
  th_machine :: "'e mtx_machine"
  th_pc :: "nat \<Rightarrow> mtx_pc"
  th_log :: "(nat \<times> mtx_op \<times> mtx_res) list"

inductive mtx_step :: "'e threads \<Rightarrow> 'e threads \<Rightarrow> bool" where
  call: "th_pc S t = Outside \<Longrightarrow>
    mtx_step S (S\<lparr>th_pc := (th_pc S)(t := Running (mtx_code op) R_unit)\<rparr>)"
| lock: "th_pc S t = Running (Do_lock # code) r \<Longrightarrow> mtx_lock (th_machine S) = Some m \<Longrightarrow>
    mtx_step S (S\<lparr>th_machine := m, th_pc := (th_pc S)(t := Running code r)\<rparr>)"
| target: "th_pc S t = Running (Do_target op # code) r \<Longrightarrow>
    call_child (run_op (mtx_target (self_ctx (th_machine S))) op) (th_machine S) = Some (r', m) \<Longrightarrow>
    mtx_step S (S\<lparr>th_machine := m, th_pc := (th_pc S)(t := Running code r'), th_log := th_log S @ [(t, op, r')]\<rparr>)"
| race: "t \<noteq> u \<Longrightarrow> at_target (th_pc S t) \<Longrightarrow> at_target (th_pc S u) \<Longrightarrow> mtx_step S S'"
| unlock: "th_pc S t = Running (Do_unlock # code) r \<Longrightarrow>
    mtx_step S (S\<lparr>th_machine := mtx_unlock (th_machine S), th_pc := (th_pc S)(t := Running code r)\<rparr>)"
| return: "th_pc S t = Running [] r \<Longrightarrow> mtx_step S (S\<lparr>th_pc := (th_pc S)(t := Outside)\<rparr>)"

inductive_cases mtx_stepE: "mtx_step S S'"

inductive mtx_reach :: "'e threads \<Rightarrow> 'e threads \<Rightarrow> bool" for S0 where
  start: "mtx_reach S0 S0"
| step: "mtx_reach S0 S \<Longrightarrow> mtx_step S S' \<Longrightarrow> mtx_reach S0 S'"

definition mtx_init :: "'e allo \<Rightarrow> 'e threads \<Rightarrow> bool" where
  "mtx_init a S \<longleftrightarrow> mtx_idle a (th_machine S) \<and> (\<forall>t. th_pc S t = Outside) \<and> th_log S = []"

text \<open>Between lock and unlock: the lock is not to come any more, the unlock is.\<close>

fun holds :: "mtx_pc \<Rightarrow> bool" where
  "holds Outside = False"
| "holds (Running code r) = (Do_lock \<notin> set code \<and> Do_unlock \<in> set code)"

text \<open>What is left of a function of the allocator.\<close>

fun code_ok :: "mtx_pc \<Rightarrow> bool" where
  "code_ok Outside = True"
| "code_ok (Running code r) = (\<exists>op. code \<in> {[Do_lock, Do_target op, Do_unlock], [Do_target op, Do_unlock], [Do_unlock], []})"

lemma mtx_code_ok: "code_ok (Running (mtx_code op) r)" "\<not> holds (Running (mtx_code op) r)"
  by (cases op; simp add: allo_mtx_alloc_code_def allo_mtx_realloc_code_def allo_mtx_free_code_def
    allo_mtx_contains_code_def)+

lemma mtx_code_target: "Do_target op' \<in> set (mtx_code op) \<longleftrightarrow> op' = op"
  by (cases op) (auto simp: allo_mtx_alloc_code_def allo_mtx_realloc_code_def allo_mtx_free_code_def
    allo_mtx_contains_code_def)

lemma mtx_code_inject: "mtx_code op = mtx_code op' \<longleftrightarrow> op = op'"
  by (metis mtx_code_target)

lemma at_target_holds: "at_target pc \<Longrightarrow> code_ok pc \<Longrightarrow> holds pc"
  by (cases pc rule: at_target.cases) auto

text \<open>The operations of a log, one after the other on the target.\<close>

fun replay :: "'e allo \<Rightarrow> (nat \<times> mtx_op \<times> mtx_res) list \<Rightarrow> 'e machine \<Rightarrow> 'e machine option" where
  "replay a [] s = Some s"
| "replay a ((_, op, r) # xs) s = (case run_op a op s of
     None \<Rightarrow> None | Some (r', s') \<Rightarrow> if r' = r then replay a xs s' else None)"

lemma replay_append:
  "replay a (xs @ ys) s = Option.bind (replay a xs s) (replay a ys)"
  by (induction xs arbitrary: s) (auto split: option.split)

definition mtx_global :: "'e allo \<Rightarrow> 'e threads \<Rightarrow> 'e threads \<Rightarrow> bool" where
  "mtx_global a S0 S \<longleftrightarrow>
     mtx_target (self_ctx (th_machine S)) = a \<and> mtx_ready (mtx_mutex (self_ctx (th_machine S))) \<and>
     (\<forall>t. code_ok (th_pc S t)) \<and>
     (mtx_locked (mtx_mutex (self_ctx (th_machine S))) \<longleftrightarrow> (\<exists>t. holds (th_pc S t))) \<and>
     (\<forall>t u. holds (th_pc S t) \<longrightarrow> holds (th_pc S u) \<longrightarrow> t = u) \<and>
     replay a (th_log S) (child_state (th_machine S0)) = Some (child_state (th_machine S))"

lemma call_child_ctx: "call_child f s = Some (r, s') \<Longrightarrow> self_ctx s' = self_ctx s"
  by (auto simp: call_child_def split: option.splits)

lemma call_child_run: "call_child f s = Some (r, s') \<Longrightarrow> f (child_state s) = Some (r, child_state s')"
  by (auto simp: call_child_def split: option.splits)

lemma mtx_global_init: "mtx_init a S \<Longrightarrow> mtx_global a S S"
  by (simp add: mtx_init_def mtx_global_def mtx_idle_def)

lemma mtx_no_race: "mtx_global a S0 S \<Longrightarrow> at_target (th_pc S t) \<Longrightarrow> at_target (th_pc S u) \<Longrightarrow> t = u"
  by (simp add: mtx_global_def at_target_holds)

lemma mtx_global_step:
  assumes G: "mtx_global a S0 S" and st: "mtx_step S S'"
  shows "mtx_global a S0 S'"
  using st
proof cases
  case (call t op)
  then have "holds (th_pc S' u) = holds (th_pc S u)" "code_ok (th_pc S u) \<Longrightarrow> code_ok (th_pc S' u)" for u
    using mtx_code_ok by simp_all
  with G call show ?thesis by (simp add: mtx_global_def)
next
  case (lock t code r m)
  have free: "\<not> mtx_locked (mtx_mutex (self_ctx (th_machine S)))"
    and m: "self_ctx m = (self_ctx (th_machine S))\<lparr>mtx_mutex :=
        (mtx_mutex (self_ctx (th_machine S)))\<lparr>mtx_locked := True\<rparr>\<rparr>"
      "child_state m = child_state (th_machine S)"
    using lock(3) by (auto simp: mtx_lock_def Let_def split: if_splits)
  then have none: "\<not> holds (th_pc S u)" for u using G by (auto simp: mtx_global_def)
  have "code_ok (th_pc S t)" using G by (simp add: mtx_global_def)
  then have "code_ok (Running code r)" "holds (Running code r)" using lock(2) by auto
  with G m none lock(1) show ?thesis by (auto simp: mtx_global_def simp del: code_ok.simps holds.simps)
next
  case (target t op code r r' m)
  have "code_ok (th_pc S t)" using G by (simp add: mtx_global_def)
  then have code: "code = [Do_unlock]" using target(2) by simp
  then have eq: "holds (th_pc S' u) = holds (th_pc S u)" "code_ok (th_pc S u) \<Longrightarrow> code_ok (th_pc S' u)" for u
    using target(1,2) by simp_all
  have run: "run_op a op (child_state (th_machine S)) = Some (r', child_state m)"
    using call_child_run [OF target(3)] G by (simp add: mtx_global_def)
  have "replay a (th_log S') (child_state (th_machine S0)) = Some (child_state m)"
    using G run target(1) by (simp add: replay_append mtx_global_def)
  then show ?thesis
    using G eq call_child_ctx [OF target(3)] target(1) by (simp add: mtx_global_def)
next
  case (race t u)
  then show ?thesis using mtx_no_race [OF G] by blast
next
  case (unlock t code r)
  have "code_ok (th_pc S t)" using G by (simp add: mtx_global_def)
  then have code: "code = []" using unlock(2) by auto
  have t: "holds (th_pc S t)" using unlock(2) code by simp
  have none: "\<not> holds (th_pc S' u)" "code_ok (th_pc S' u)" for u
    using G t unlock(1) code by (cases "u = t"; auto simp: mtx_global_def)+
  have "self_ctx (th_machine S') = (self_ctx (th_machine S))\<lparr>mtx_mutex :=
      (mtx_mutex (self_ctx (th_machine S)))\<lparr>mtx_locked := False\<rparr>\<rparr>"
    "child_state (th_machine S') = child_state (th_machine S)" "th_log S' = th_log S"
    using unlock(1) by (simp_all add: mtx_unlock_def Let_def)
  with G none show ?thesis by (simp add: mtx_global_def)
next
  case (return t r)
  then have "holds (th_pc S' u) = holds (th_pc S u)" "code_ok (th_pc S u) \<Longrightarrow> code_ok (th_pc S' u)" for u
    by simp_all
  with G return show ?thesis by (simp add: mtx_global_def)
qed

lemma mtx_reach_global: "mtx_reach S0 S \<Longrightarrow> mtx_init a S0 \<Longrightarrow> mtx_global a S0 S"
  by (induction rule: mtx_reach.induct) (auto intro: mtx_global_init mtx_global_step)

text \<open>A thread that has called an operation is never stuck: it or the holder of the lock can go on.\<close>

lemma mtx_progress:
  assumes G: "mtx_global a S0 S" and t: "th_pc S t \<noteq> Outside"
    and total: "\<And>u op code r. th_pc S u = Running (Do_target op # code) r \<Longrightarrow>
      run_op a op (child_state (th_machine S)) \<noteq> None"
  shows "\<exists>u S'. mtx_step S S' \<and> th_pc S u \<noteq> Outside \<and> th_pc S' u \<noteq> th_pc S u"
proof -
  have next_pc: ?thesis if "mtx_step S S'" "th_pc S u = Running code r" "th_pc S' u \<noteq> Running code r" for u S' code r
    by (rule exI [of _ u], rule exI [of _ S']) (simp add: that)
  show ?thesis
  proof (cases "\<exists>u. holds (th_pc S u)")
    case True
    then obtain u where u: "holds (th_pc S u)" by blast
    have "code_ok (th_pc S u)" using G by (simp add: mtx_global_def)
    with u obtain op r where "th_pc S u = Running [Do_target op, Do_unlock] r \<or> th_pc S u = Running [Do_unlock] r"
      by (cases "th_pc S u") auto
    then show ?thesis
    proof
      assume at: "th_pc S u = Running [Do_target op, Do_unlock] r"
      obtain r' m where "call_child (run_op a op) (th_machine S) = Some (r', m)"
        using total [OF at] by (auto simp: call_child_def)
      then have "call_child (run_op (mtx_target (self_ctx (th_machine S))) op) (th_machine S) = Some (r', m)"
        using G by (simp add: mtx_global_def)
      from next_pc [OF mtx_step.target [OF at this] at] show ?thesis by simp
    next
      assume at: "th_pc S u = Running [Do_unlock] r"
      from next_pc [OF mtx_step.unlock [OF at] at] show ?thesis by simp
    qed
  next
    case False
    have "code_ok (th_pc S t)" "\<not> holds (th_pc S t)" using G False by (auto simp: mtx_global_def)
    with t obtain op r where "th_pc S t = Running [Do_lock, Do_target op, Do_unlock] r \<or> th_pc S t = Running [] r"
      by (cases "th_pc S t") auto
    then show ?thesis
    proof
      assume at: "th_pc S t = Running [Do_lock, Do_target op, Do_unlock] r"
      obtain m where "mtx_lock (th_machine S) = Some m"
        using G False by (auto simp: mtx_lock_def mtx_global_def Let_def)
      then show ?thesis using next_pc [OF mtx_step.lock [OF at] at] by simp
    next
      assume at: "th_pc S t = Running [] r"
      from next_pc [OF mtx_step.return [OF at] at] show ?thesis by simp
    qed
  qed
qed

end
