(* ===== verification/MtxClients.thy ===== *)
theory MtxClients
  imports Mtx
begin

text \<open>
  Threads that share one mutex allocator and keep to its rules: a thread frees and reallocates only
  blocks it was given itself and still has. Over a target that meets the contract, no two threads
  ever hold memory in common, every operation returns, and nobody waits for ever on a lock that is
  not released.
\<close>

section \<open>Owners\<close>

text \<open>Who has which block, read off the log of the operations that have run.\<close>

type_synonym owners = "ptr \<Rightarrow> (nat \<times> size_t) option"

fun log_owner :: "nat \<times> mtx_op \<times> mtx_res \<Rightarrow> owners \<Rightarrow> owners" where
  "log_owner (t, Op_alloc n, R_ptr p) M = (if p = NULL then M else M(p \<mapsto> (t, n)))"
| "log_owner (t, Op_realloc p n m, R_ptr q) M = (if q = NULL then M else M(p := None, q \<mapsto> (t, m)))"
| "log_owner (t, Op_free p n, r) M = M(p := None)"
| "log_owner (t, op, r) M = M"

definition owners :: "(nat \<times> mtx_op \<times> mtx_res) list \<Rightarrow> owners" where
  "owners log = fold log_owner log Map.empty"

definition blocks :: "owners \<Rightarrow> live_map" where
  "blocks M p = map_option snd (M p)"

lemma owners_snoc: "owners (log @ [x]) = log_owner x (owners log)"
  by (simp add: owners_def)

lemma blocks_simps [simp]:
  "blocks Map.empty = Map.empty" "blocks (M(p \<mapsto> (t, n))) = (blocks M)(p \<mapsto> n)"
  "blocks (M(p := None)) = (blocks M)(p := None)" "dom (blocks M) = dom M"
  by (auto simp: blocks_def fun_eq_iff domIff)

section \<open>The rules\<close>

fun op_allowed :: "nat \<Rightarrow> owners \<Rightarrow> nat \<Rightarrow> mtx_op \<Rightarrow> bool" where
  "op_allowed lim M t (Op_alloc n) \<longleftrightarrow> unat n < lim"
| "op_allowed lim M t (Op_realloc p n m) \<longleftrightarrow> M p = Some (t, n) \<and> m \<noteq> 0 \<and> unat m < lim"
| "op_allowed lim M t (Op_free p n) \<longleftrightarrow> M p = Some (t, n)"
| "op_allowed lim M t (Op_contains p) \<longleftrightarrow> True"

text \<open>What another thread does leaves the blocks a thread has alone.\<close>

lemma op_allowed_other:
  assumes "op_allowed lim M u op" "u \<noteq> t" "op_allowed lim M t op'"
    and new: "\<forall>q n. log_owner (t, op', r) M q = Some (t, n) \<longrightarrow> q \<in> dom M \<longrightarrow> (\<exists>n'. M q = Some (t, n'))"
  shows "op_allowed lim (log_owner (t, op', r) M) u op"
proof -
  have keep: "log_owner (t, op', r) M p = Some (u, n)" if p: "M p = Some (u, n)" for p n
  proof -
    have "\<forall>k. log_owner (t, op', r) M p \<noteq> Some (t, k)" using new p assms(2) by force
    with p assms(2,3) show ?thesis by (cases op'; cases r) (auto split: if_splits)
  qed
  with assms(1) show ?thesis by (cases op) auto
qed

inductive client_reach :: "nat \<Rightarrow> 'e threads \<Rightarrow> 'e threads \<Rightarrow> bool" for lim S0 where
  client_start: "client_reach lim S0 S0"
| client_step: "client_reach lim S0 S \<Longrightarrow> mtx_step S S' \<Longrightarrow>
    (\<And>t op. th_pc S t = Outside \<Longrightarrow> th_pc S' t = Running (mtx_code op) R_unit \<Longrightarrow>
      op_allowed lim (owners (th_log S)) t op) \<Longrightarrow>
    client_reach lim S0 S'"

text \<open>The operation a thread still has to run on the target.\<close>

fun pending :: "mtx_pc \<Rightarrow> mtx_op set" where
  "pending Outside = {}"
| "pending (Running code r) = {op. Do_target op \<in> set code}"

lemma pending_mtx_code: "pending (Running (mtx_code op) r) = {op}"
  by (auto simp: mtx_code_target)

section \<open>The invariant\<close>

definition clients_inv :: "('e machine \<Rightarrow> live_map \<Rightarrow> bool) \<Rightarrow> nat \<Rightarrow> 'e threads \<Rightarrow> bool" where
  "clients_inv Inv lim S \<longleftrightarrow> Inv (child_state (th_machine S)) (blocks (owners (th_log S))) \<and>
     (\<forall>t. \<forall>op\<in>pending (th_pc S t). op_allowed lim (owners (th_log S)) t op)"

lemma client_reach_mtx: "client_reach lim S0 S \<Longrightarrow> mtx_reach S0 S"
  by (induction rule: client_reach.induct) (auto intro: mtx_reach.intros)

context allocator
begin

text \<open>An allowed operation returns, and its entry in the log describes the new live blocks.\<close>

lemma allowed_runs:
  assumes I: "Inv s (blocks M)" and ok: "op_allowed lim M t op"
  obtains r s' where "run_op a op s = Some (r, s')" "Inv s' (blocks (log_owner (t, op, r) M))"
    "\<forall>q n. log_owner (t, op, r) M q = Some (t, n) \<longrightarrow> q \<in> dom M \<longrightarrow> (\<exists>n'. M q = Some (t, n'))"
proof (cases op)
  case (Op_alloc n)
  then have n: "unat n < lim" using ok by simp
  show thesis
  proof (cases rule: alloc_cases [OF I n])
    case (1 s')
    then show thesis by (intro that [of "R_ptr NULL" s']) (auto simp: Op_alloc)
  next
    case (2 p s')
    then show thesis by (intro that [of "R_ptr p" s']) (auto simp: Op_alloc split: if_splits)
  qed
next
  case (Op_realloc p n m)
  then have p: "M p = Some (t, n)" and m: "m \<noteq> 0" "unat m < lim" using ok by simp_all
  then have at: "blocks M p = Some n" by (simp add: blocks_def)
  obtain q s' where r: "allo_realloc a p n m s = Some (q, s')" "realloc_post Inv heap (blocks M) p n m s q s'"
    by (rule allo_realloc_ok [OF I at m(2,1)])
  then show thesis
    using p by (intro that [of "R_ptr q" s']) (auto simp: Op_realloc realloc_post_def split: if_splits)
next
  case (Op_free p n)
  then have "blocks M p = Some n" using ok by (simp add: blocks_def)
  from free_ok [OF I this] obtain s' where "allo_free a p n s = Some ((), s')" "Inv s' ((blocks M)(p := None))" by blast
  then show thesis by (intro that [of R_unit s']) (auto simp: Op_free split: if_splits)
next
  case (Op_contains p)
  obtain r where "allo_contains a p s = Some (r, s)" using contains_law [OF I] by blast
  then show thesis using I by (intro that [of "R_contains r" s]) (auto simp: Op_contains)
qed

lemma clients_step:
  assumes G: "mtx_global a S0 S" and C: "clients_inv Inv lim S" and st: "mtx_step S S'"
    and rule: "\<And>t op. th_pc S t = Outside \<Longrightarrow> th_pc S' t = Running (mtx_code op) R_unit \<Longrightarrow> op_allowed lim (owners (th_log S)) t op"
  shows "clients_inv Inv lim S'"
  using st
proof cases
  case (call t op)
  then have "op_allowed lim (owners (th_log S)) t op" by (intro rule) simp_all
  moreover have "pending (th_pc S' u) = (if u = t then {op} else pending (th_pc S u))" for u
    using call(1) pending_mtx_code [of op] by (simp del: pending.simps)
  moreover have "th_machine S' = th_machine S" "th_log S' = th_log S" using call(1) by simp_all
  ultimately show ?thesis using C by (simp add: clients_inv_def)
next
  case (lock t code r m)
  have "child_state m = child_state (th_machine S)"
    using lock(3) by (auto simp: mtx_lock_def Let_def split: if_splits)
  moreover have "pending (th_pc S' u) = pending (th_pc S u)" for u using lock(1,2) by simp
  ultimately show ?thesis using C lock(1) by (simp add: clients_inv_def del: pending.simps)
next
  case (target t op code r r1 m)
  let ?M = "owners (th_log S)"
  have I: "Inv (child_state (th_machine S)) (blocks ?M)" and ok: "op_allowed lim ?M t op"
    using C target(2) by (auto simp: clients_inv_def dest: spec [of _ t])
  obtain r' s' where r': "run_op a op (child_state (th_machine S)) = Some (r', s')" "Inv s' (blocks (log_owner (t, op, r') ?M))"
    "\<forall>q n. log_owner (t, op, r') ?M q = Some (t, n) \<longrightarrow> q \<in> dom ?M \<longrightarrow> (\<exists>n'. ?M q = Some (t, n'))"
    by (rule allowed_runs [OF I ok])
  have "run_op a op (child_state (th_machine S)) = Some (r1, child_state m)"
    using call_child_run [OF target(3)] G by (simp add: mtx_global_def)
  with r'(1) have eq: "r' = r1" "s' = child_state m" by simp_all
  have log: "owners (th_log S') = log_owner (t, op, r1) ?M" using target(1) by (simp add: owners_snoc)
  have m: "th_machine S' = m" using target(1) by simp
  have "code_ok (th_pc S t)" using G by (simp add: mtx_global_def)
  then have code: "code = [Do_unlock]" using target(2) by simp
  have "op_allowed lim (log_owner (t, op, r1) ?M) u op'" if "op' \<in> pending (th_pc S' u)" for u op'
  proof -
    have "u \<noteq> t" "op' \<in> pending (th_pc S u)" using that target(1) code by (auto split: if_splits)
    then show ?thesis using C r'(3) ok by (intro op_allowed_other) (auto simp: clients_inv_def eq)
  qed
  then show ?thesis unfolding clients_inv_def log m using r'(2) eq by blast
next
  case (race t u)
  then show ?thesis using mtx_no_race [OF G] by blast
next
  case (unlock t code r)
  have "child_state (th_machine S') = child_state (th_machine S)" "th_log S' = th_log S"
    using unlock(1) by (simp_all add: mtx_unlock_def Let_def)
  moreover have "pending (th_pc S' u) = pending (th_pc S u)" for u using unlock(1,2) by simp
  ultimately show ?thesis using C by (simp add: clients_inv_def)
next
  case (return t r)
  then have "pending (th_pc S' u) = pending (th_pc S u)" for u by simp
  then show ?thesis using C return(1) by (simp add: clients_inv_def)
qed

lemma clients_reach_inv:
  assumes R: "client_reach lim S0 S" and i: "mtx_init a S0" and I: "Inv (child_state (th_machine S0)) Map.empty"
  shows "clients_inv Inv lim S"
  using R
proof (induction rule: client_reach.induct)
  case client_start
  then show ?case using i I by (simp add: clients_inv_def mtx_init_def owners_def)
next
  case (client_step S S')
  then show ?case
    using clients_step [OF mtx_reach_global [OF client_reach_mtx [OF client_step(1)] i]] by blast
qed

lemma clients_progress:
  assumes R: "client_reach lim S0 S" and i: "mtx_init a S0" and I: "Inv (child_state (th_machine S0)) Map.empty"
    and t: "th_pc S t \<noteq> Outside"
  shows "\<exists>u S'. mtx_step S S' \<and> th_pc S u \<noteq> Outside \<and> th_pc S' u \<noteq> th_pc S u"
proof (rule mtx_progress [OF mtx_reach_global [OF client_reach_mtx [OF R] i] t])
  note C = clients_reach_inv [OF R i I]
  show "run_op a op (child_state (th_machine S)) \<noteq> None" if u: "th_pc S u = Running (Do_target op # code) r" for u op code r
  proof -
    have "Inv (child_state (th_machine S)) (blocks (owners (th_log S)))" "op_allowed lim (owners (th_log S)) u op"
      using C u by (auto simp: clients_inv_def dest: spec [of _ u])
    then show ?thesis by (rule allowed_runs) simp
  qed
qed

lemma clients_apart:
  assumes R: "client_reach lim S0 S" and i: "mtx_init a S0" and I: "Inv (child_state (th_machine S0)) Map.empty"
    and p: "owners (th_log S) p = Some (t, n)" and q: "owners (th_log S) q = Some (u, m)" and ne: "p \<noteq> q"
  shows "region p n \<subseteq> heap \<and> region p n \<inter> region q m = {}"
proof -
  have "live_ok heap (blocks (owners (th_log S)))"
    using live_inv clients_reach_inv [OF R i I] by (auto simp: clients_inv_def)
  moreover have "blocks (owners (th_log S)) p = Some n" "blocks (owners (th_log S)) q = Some m"
    using p q by (simp_all add: blocks_def)
  ultimately show ?thesis using live_okD(2) live_ok_disjoint ne by metis
qed

end

end
