(* ===== verification/Demo.thy ===== *)
theory Demo
  imports BuddyFactory Fallback Libc MtxClients
begin

text \<open>
  Concrete states: a bump allocator over a buffer of 64 KiB at address 4096, and the allocators the
  factories make over it. The witnesses of the properties run on them.
\<close>

definition blank :: "unit machine" where
  "blank = \<lparr>mem = \<lambda>_. 0, asan = [], env = ()\<rparr>"

definition demo_heap :: "unit buf_machine" where
  "demo_heap = ALLOC_POISON 4096 65536
     (with_child \<lparr>buf_buffer = 4096, buf_size = 65536, buf_offset = 0\<rparr> blank)"

lemma demo_heap_made: "make_fixed_buf_allocator 8 4096 65536 blank = Inr demo_heap"
  by (simp add: make_fixed_buf_allocator_def ALLO_IS_ALIGNED_8 demo_heap_def)

lemma demo_heap_inv: "buf_inv 4096 65536 demo_heap Map.empty"
  by (rule make_fixed_buf_ok [OF demo_heap_made]) (simp_all add: size_ok_def)

text \<open>Evaluation of requests to the bump allocator.\<close>

lemmas buf_eval = buf_alloc_fn_def buf_allo_def allo_alloc_def allo_calloc_def allo_memset_def
  allo_align_up_def self_ctx_def set_ctx_def with_child_def demo_heap_def blank_def
  ALLOC_POISON_def ALLOC_UNPOISON_def

section \<open>An arena, a pool and a buddy allocator over the buffer\<close>

abbreviation heap_inv :: "unit buf_machine \<Rightarrow> live_map \<Rightarrow> bool" where
  "heap_inv \<equiv> buf_inv 4096 65536"

abbreviation heap_area :: "ptr set" where
  "heap_area \<equiv> region 4096 65536"

lemma demo_arena_made: "\<exists>s. make_arena_allocator 8 (Some buf_allo) 64 demo_heap = Some (Inr s)"
  by (simp add: make_arena_allocator_def new_arena_block_def buf_eval wr64_def)

lemma demo_arena:
  obtains s where "make_arena_allocator 8 (Some buf_allo) 64 demo_heap = Some (Inr s)"
    "arena_inv buf_allo heap_inv heap_area Map.empty 64 s Map.empty"
  using demo_arena_made
  by (cases rule: buf.make_arena_ok [OF demo_heap_inv, of 8 64]) auto

lemma demo_arena_alloc: "make_arena_allocator 8 (Some buf_allo) 64 demo_heap = Some (Inr s) \<Longrightarrow>
    \<exists>p s'. arena_alloc_fn 40 s = Some (p, s') \<and> p \<noteq> NULL"
  by (auto simp: make_arena_allocator_def new_arena_block_def buf_eval wr64_def arena_alloc_fn_def
      arena_bump_def blk_offset_def blk_size_def load64_store64_other)

lemma demo_arena_block:
  obtains s p where "arena_inv buf_allo heap_inv heap_area Map.empty 64 s [p \<mapsto> 40]"
proof -
  obtain s where mk: "make_arena_allocator 8 (Some buf_allo) 64 demo_heap = Some (Inr s)"
    and J: "arena_inv buf_allo heap_inv heap_area Map.empty 64 s Map.empty" by (rule demo_arena)
  obtain p s' where r: "arena_alloc_fn 40 s = Some (p, s')" "p \<noteq> NULL" using demo_arena_alloc [OF mk] by blast
  have "arena_inv buf_allo heap_inv heap_area Map.empty 64 s' [p \<mapsto> 40]"
    using arena_buf.arena_over_alloc [OF J, of 40] r by (auto simp: arena_allo_def alloc_post_def)
  then show thesis by (rule that)
qed

lemma demo_pool_made: "\<exists>s. make_pool_allocator 8 (Some buf_allo) NULL 20 8 demo_heap = Some (Inr s)"
  by (simp add: make_pool_allocator_def pool_block_round_def buf_eval Let_def)

lemma demo_pool:
  obtains s B where "make_pool_allocator 8 (Some buf_allo) NULL 20 8 demo_heap = Some (Inr s)"
    "pool_inv B 24 8 s Map.empty" "pool_backed buf_allo heap_inv Map.empty B 24 8 s"
proof -
  have r: "pool_block_round 20 = 24" by (simp add: pool_block_round_def allo_align_up_def)
  show thesis
    by (cases rule: buf.make_pool_owned [OF demo_heap_inv, of 8 20 8])
      (use demo_pool_made that r in auto)
qed

lemma demo_round: "round_up_loop 1 1000 = Some 1024"
  by (simp add: round_up_loop.simps)

lemma demo_orders: "get_order 1024 = 10" "get_order 32 = 5"
  using get_order_pow [of 10] get_order_pow [of 5] by simp_all

lemma demo_buddy_made: "\<exists>s. make_buddy_allocator 8 (Some buf_allo) NULL 1000 demo_heap = Some (Inr s)"
  by (simp add: make_buddy_allocator_def demo_round buddy_metadata_def demo_orders bitset_bytes_def
      buf_eval Let_def)

lemma demo_order: "nat (get_order 1000) = 10"
proof -
  have "get_order 1000 \<le> int 10" "\<not> get_order 1000 \<le> int 9"
    using get_order_le_iff [of 1000 10] get_order_le_iff [of 1000 9] by simp_all
  then show ?thesis by simp
qed

lemma demo_buddy:
  obtains s B D fl bs bo where "make_buddy_allocator 8 (Some buf_allo) NULL 1000 demo_heap = Some (Inr s)"
    "D = 5" "buddy_inv B D fl bs bo s Map.empty" "buddy_backed buf_allo heap_inv Map.empty B D fl bs bo s"
proof (cases rule: buf.make_buddy_owned [OF demo_heap_inv, of 8 1000])
  case (5 s')
  then show thesis using demo_buddy_made by auto
next
  case (6 s B D fl bs bo)
  have "(2 :: nat) ^ (D + 5) < 2 ^ 11" "(2 :: nat) ^ 9 < 2 ^ (D + 5)" using 6(2,3) by simp_all
  then have "D + 5 < 11" "9 < D + 5" by (simp_all only: power_strict_increasing_iff)
  then have "D = 5" by simp
  with 6 that show thesis by blast
qed (simp_all add: demo_order)

text \<open>Two blocks in use, so that the buffer is split into pieces of four sizes.\<close>

lemma demo_buddy_two:
  obtains s B fl bs bo p s1 q s2 where "make_buddy_allocator 8 (Some buf_allo) NULL 1000 demo_heap = Some (Inr s)"
    "buddy_alloc_fn 100 s = Some (p, s1)" "buddy_alloc_fn 100 s1 = Some (q, s2)" "p \<noteq> NULL" "q \<noteq> NULL" "p \<noteq> q"
    "buddy_inv B 5 fl bs bo s2 [p \<mapsto> 100, q \<mapsto> 100]"
proof -
  obtain s B D fl bs bo where mk: "make_buddy_allocator 8 (Some buf_allo) NULL 1000 demo_heap = Some (Inr s)"
    and D: "D = 5" and J: "buddy_inv B D fl bs bo s Map.empty" by (rule demo_buddy)
  have "get_order 100 \<le> int 7" "\<not> get_order 100 \<le> int 6"
    using get_order_le_iff [of 100 7] get_order_le_iff [of 100 6] by simp_all
  then have lev: "level_of D 100 = 3" by (simp add: level_of_def D)
  obtain p s1 where p: "buddy_alloc_fn 100 s = Some (p, s1)" "p \<noteq> NULL"
    using buddy_uniform_alloc [OF J, of 100] by (auto simp: D)
  have J1: "buddy_inv B D fl bs bo s1 [p \<mapsto> 100]"
    using buddy_mem.buddy_alloc_law [OF buddy_geometry [OF J] J, of 100] p by (auto simp: alloc_post_def)
  obtain q s2 where q: "buddy_alloc_fn 100 s1 = Some (q, s2)" "q \<noteq> NULL"
    using buddy_uniform_alloc [OF J1, of 100] lev by (fastforce simp: D split: if_splits)
  have "buddy_inv B D fl bs bo s2 [p \<mapsto> 100, q \<mapsto> 100]" "p \<noteq> q"
    using buddy_mem.buddy_alloc_law [OF buddy_geometry [OF J1] J1, of 100] q by (auto simp: alloc_post_def)
  with mk p q show thesis using that by (simp add: D)
qed

lemma demo_buddy_full:
  obtains s B D fl bs bo s1 where "make_buddy_allocator 8 (Some buf_allo) NULL 1000 demo_heap = Some (Inr s)"
    "buddy_alloc_fn 1024 s = Some (B, s1)" "D = 5" "buddy_inv B D fl bs bo s1 [B \<mapsto> 1024]"
proof -
  obtain s B D fl bs bo where mk: "make_buddy_allocator 8 (Some buf_allo) NULL 1000 demo_heap = Some (Inr s)"
    and D: "D = 5" and J: "buddy_inv B D fl bs bo s Map.empty" by (rule demo_buddy)
  have bb: "buf_bytes D = 1024" by (simp add: D buf_bytes_def)
  obtain s1 where r: "buddy_alloc_fn 1024 s = Some (B, s1)" using buddy_whole_buffer [OF J] by (auto simp: bb)
  have B: "B \<noteq> NULL" using buddy_geometry [OF J] by (simp add: buddy_mem_def)
  have "buddy_inv B D fl bs bo s1 [B \<mapsto> 1024]"
    using buddy_mem.buddy_alloc_law [OF buddy_geometry [OF J] J, of 1024] r B by (auto simp: alloc_post_def)
  with mk D r show thesis using that by blast
qed

section \<open>A pool with a buffer behind it, a mutex and a C library\<close>

lemma demo_fallback:
  obtains s :: "((unit pool_context_t \<times> unit) \<times> (allocator_buf_context_t \<times> unit)) fallback_machine"
    where "fallback_inv pool_allo (pool_inv 4096 32 8) buf_allo (buf_inv 8192 1024) s Map.empty"
      "\<And>r s1. call_child (allo_alloc (on_fst pool_allo) 100) s = Some (r, s1) \<Longrightarrow> r = NULL \<and> s1 = s"
      "\<And>r s1. call_child (allo_alloc (on_snd buf_allo) 100) s = Some (r, s1) \<Longrightarrow> r = 8192"
proof -
  have r: "pool_block_round 32 = 32" by (simp add: pool_block_round_def allo_align_up_def)
  have g: "pool_geometry 4096 (pool_block_round 32) 8" by (simp add: pool_geometry_def r)
  obtain sp :: "unit pool_machine" where sp: "pool_inv 4096 32 8 sp Map.empty"
    by (rule make_pool_buffer_ok [of 8 4096 32 8, where s = blank, OF _ _ _ _ g]) (simp_all add: r)
  define t where "t = \<lparr>mem = mem sp, asan = [], env = (env sp,
      (\<lparr>buf_buffer = 8192, buf_size = 1024, buf_offset = 0\<rparr>, ()))\<rparr>"
  define s :: "((unit pool_context_t \<times> unit) \<times> (allocator_buf_context_t \<times> unit)) fallback_machine"
    where "s = with_child \<lparr>fb_primary = on_fst pool_allo, fb_fallback = on_snd buf_allo\<rparr> t"
  have bs: "pool_block_size (fst (env sp)) = 32" using sp by (simp add: pool_inv_def pool_ctx_ok_def self_ctx_def)
  have "pair_inv (pool_inv 4096 32 8) (buf_inv 8192 1024) t Map.empty Map.empty"
    using sp by (simp add: pair_inv_def t_def fst_state_def pool_inv_def buf_inv_def child_state_def
        self_ctx_def size_ok_def)
  then have "fallback_inv pool_allo (pool_inv 4096 32 8) buf_allo (buf_inv 8192 1024) s Map.empty"
    unfolding fallback_inv_def s_def by (intro conjI exI [of _ Map.empty]) simp_all
  moreover have "r = NULL \<and> s1 = s" if "call_child (allo_alloc (on_fst pool_allo) 100) s = Some (r, s1)" for r s1
    using that bs
    by (simp add: call_child_def allo_alloc_def on_fst_def pool_allo_def call_fst_def pool_alloc_fn_def
        s_def t_def fst_state_def self_ctx_def with_child_def child_state_def)
  moreover have "r = 8192" if "call_child (allo_alloc (on_snd buf_allo) 100) s = Some (r, s1)" for r s1
    using that
    by (simp add: call_child_def allo_alloc_def on_snd_def buf_eval s_def t_def self_ctx_def with_child_def child_state_def)
  ultimately show thesis using that by blast
qed

lemma demo_mtx:
  obtains s where "make_mtx_allocator True 8 (Some buf_allo) demo_heap = Inr s"
    "mtx_inv buf_allo heap_inv s Map.empty"
  using demo_heap_inv by (auto simp: make_mtx_allocator_def mtx_inv_def mtx_idle_def)

text \<open>One thread has called an allocation and holds the lock, all others are outside.\<close>

type_synonym heap_threads = "(allocator_buf_context_t \<times> unit) threads"

lemma demo_threads:
  obtains S0 S :: heap_threads where "mtx_init buf_allo S0" "mtx_reach S0 S" "holds (th_pc S 1)"
    "th_pc S 1 \<noteq> Outside"
    "\<And>u op code r. th_pc S u = Running (Do_target op # code) r \<Longrightarrow>
       run_op buf_allo op (child_state (th_machine S)) \<noteq> None"
proof -
  obtain s where mk: "make_mtx_allocator True 8 (Some buf_allo) demo_heap = Inr s"
    and idle: "mtx_inv buf_allo heap_inv s Map.empty" by (rule demo_mtx)
  define S0 :: heap_threads where "S0 = \<lparr>th_machine = s, th_pc = \<lambda>_. Outside, th_log = []\<rparr>"
  define S1 where "S1 = S0\<lparr>th_pc := (th_pc S0)(1 := Running (mtx_code (Op_alloc 100)) R_unit)\<rparr>"
  obtain m where m: "mtx_lock s = Some m" "child_state m = child_state s"
    using idle by (auto simp: mtx_inv_def mtx_idle_def mtx_lock_def)
  define S where "S = S1\<lparr>th_machine := m, th_pc := (th_pc S1)(1 := Running [Do_target (Op_alloc 100), Do_unlock] R_unit)\<rparr>"
  have "mtx_step S0 S1" unfolding S1_def by (rule mtx_step.call) (simp add: S0_def)
  moreover have "mtx_step S1 S" unfolding S_def by (rule mtx_step.lock) (simp_all add: S1_def S0_def m allo_mtx_alloc_code_def)
  ultimately have "mtx_reach S0 S" by (blast intro: mtx_reach.intros)
  moreover have "mtx_init buf_allo S0" using idle by (simp add: mtx_init_def S0_def mtx_inv_def)
  moreover have "child_state s = demo_heap" using mk by (auto simp: make_mtx_allocator_def split: if_splits)
  then have "run_op buf_allo op (child_state (th_machine S)) \<noteq> None"
    if "th_pc S u = Running (Do_target op # code) r" for u op code r
    using that m(2) by (auto simp: S_def S1_def S0_def buf_eval split: if_splits)
  ultimately show thesis by (intro that [of S0 S]) (auto simp: S_def)
qed

text \<open>Thread 1 has got a block of 100 bytes and still holds the lock.\<close>

lemma demo_clients:
  obtains S0 S :: heap_threads where "mtx_init buf_allo S0" "client_reach (2 ^ 63) S0 S"
    "heap_inv (child_state (th_machine S0)) Map.empty" "th_log S = [(1, Op_alloc 100, R_ptr 4096)]" "th_pc S 1 \<noteq> Outside"
proof -
  obtain s where mk: "make_mtx_allocator True 8 (Some buf_allo) demo_heap = Inr s"
    and idle: "mtx_inv buf_allo heap_inv s Map.empty" by (rule demo_mtx)
  have heap: "child_state s = demo_heap" using mk by (auto simp: make_mtx_allocator_def split: if_splits)
  define S0 :: heap_threads where "S0 = \<lparr>th_machine = s, th_pc = \<lambda>_. Outside, th_log = []\<rparr>"
  define S1 where "S1 = S0\<lparr>th_pc := (th_pc S0)(1 := Running (mtx_code (Op_alloc 100)) R_unit)\<rparr>"
  obtain m where m: "mtx_lock s = Some m" "child_state m = child_state s" "mtx_target (self_ctx m) = buf_allo"
    using idle by (auto simp: mtx_inv_def mtx_idle_def mtx_lock_def Let_def)
  define S2 where "S2 = S1\<lparr>th_machine := m, th_pc := (th_pc S1)(1 := Running [Do_target (Op_alloc 100), Do_unlock] R_unit)\<rparr>"
  obtain m' where m': "call_child (run_op buf_allo (Op_alloc 100)) m = Some (R_ptr 4096, m')"
    using m(2) heap by (auto simp: call_child_def buf_eval)
  define S where "S = S2\<lparr>th_machine := m', th_pc := (th_pc S2)(1 := Running [Do_unlock] (R_ptr 4096)),
    th_log := th_log S2 @ [(1, Op_alloc 100, R_ptr 4096)]\<rparr>"
  have "mtx_step S0 S1" unfolding S1_def by (rule mtx_step.call) (simp add: S0_def)
  then have "client_reach (2 ^ 63) S0 S1"
    by (rule client_step [OF client_start])
      (auto simp: S0_def S1_def mtx_code_inject simp del: mtx_code.simps split: if_splits)
  moreover have "mtx_step S1 S2" unfolding S2_def by (rule mtx_step.lock) (simp_all add: S1_def S0_def m allo_mtx_alloc_code_def)
  ultimately have "client_reach (2 ^ 63) S0 S2"
    by (rule client_step) (auto simp: S1_def S0_def S2_def split: if_splits)
  moreover have "mtx_step S2 S" unfolding S_def by (rule mtx_step.target) (simp_all add: S2_def S1_def S0_def m(3) m')
  ultimately have "client_reach (2 ^ 63) S0 S"
    by (rule client_step) (auto simp: S_def S1_def S0_def S2_def split: if_splits)
  moreover have "mtx_init buf_allo S0" using idle by (simp add: mtx_init_def S0_def mtx_inv_def)
  ultimately show thesis
    using demo_heap_inv heap by (intro that [of S0 S]) (simp_all add: S_def S2_def S1_def S0_def)
qed

lemma demo_libc:
  "table_inv heap_inv (with_child Map.empty demo_heap) Map.empty"
  using demo_heap_inv by (simp add: table_inv_def)

end
