(* ===== verification/Fuzz.thy ===== *)
theory Fuzz
  imports Allo
begin

text \<open>
  The fuzzing harness, \<open>tests/fuzz_allocator.c\<close>: a client that turns a byte string into calls of an
  allocator, fills every block with a byte of its own, and aborts when a block does not hold that
  byte any more. It is modelled over an arbitrary allocator. Over one that meets the contract it
  never aborts, whatever the bytes are: the contract is all a client needs.

  \<open>Inl ()\<close> is the harness's \<open>abort\<close>, \<open>Inr\<close> its normal return, \<open>None\<close> a call that does not return.
\<close>

section \<open>The harness\<close>

definition ABSOLUTE_MAX_POINTERS :: nat where
  "ABSOLUTE_MAX_POINTERS = 128"

definition ABSOLUTE_MAX_ALLOC :: size_t where
  "ABSOLUTE_MAX_ALLOC = 2 * 1024 * 1024"

datatype operation_t = OP_ALLOC | OP_FREE | OP_REALLOC

record tracker_t =
  tr_ptr :: ptr
  tr_size :: size_t
  tr_magic :: byte

type_synonym 'r outcome = "(unit + 'r) option"

text \<open>The first byte of an operation selects it and the tracker it works on; two more give a size.\<close>

definition decode_op :: "byte \<Rightarrow> operation_t" where
  "decode_op b = (let k = (b AND 3) mod 3 in if k = 0 then OP_ALLOC else if k = 1 then OP_FREE else OP_REALLOC)"

definition decode_index :: "byte \<Rightarrow> nat \<Rightarrow> nat" where
  "decode_index b max_pointers = unat (drop_bit 2 b) mod max_pointers"

definition be16 :: "byte \<Rightarrow> byte \<Rightarrow> size_t" where
  "be16 hi lo = push_bit 8 (ucast hi) OR ucast lo"

definition decode_size :: "byte \<Rightarrow> byte \<Rightarrow> size_t \<Rightarrow> size_t" where
  "decode_size hi lo max_alloc = be16 hi lo mod max_alloc"

text \<open>The integrity check: every byte of the block is the tracker's.\<close>

function magic_loop :: "size_t \<Rightarrow> tracker_t \<Rightarrow> memory \<Rightarrow> bool" where
  "magic_loop i t m =
     (if i < tr_size t then if m (tr_ptr t + i) \<noteq> tr_magic t then False else magic_loop (i + 1) t m
      else True)"
  by pat_completeness auto
termination
  by (relation "measure (\<lambda>(i, t, m). unat (tr_size t) - unat i)") (auto simp: unat_Suc64 word_less_nat_alt)

declare magic_loop.simps [simp del]

definition magic_intact :: "tracker_t \<Rightarrow> 'e machine \<Rightarrow> bool" where
  "magic_intact t s = magic_loop 0 t (mem s)"

text \<open>\<open>memset\<close> of a block that was got.\<close>

definition fill_block :: "tracker_t \<Rightarrow> 'e machine \<Rightarrow> 'e machine" where
  "fill_block t s =
     (if tr_ptr t \<noteq> NULL \<and> tr_size t > 0
      then s\<lparr>mem := set_bytes (tr_ptr t) (tr_magic t) (tr_size t) (mem s)\<rparr> else s)"

definition fuzz_alloc ::
  "'e allo \<Rightarrow> nat \<Rightarrow> size_t \<Rightarrow> byte \<Rightarrow> tracker_t list \<Rightarrow> 'e machine \<Rightarrow> (tracker_t list \<times> 'e machine) outcome" where
  "fuzz_alloc a i n b ts s =
     (let t = ts ! i; old = tr_ptr t \<noteq> NULL \<and> tr_size t > 0 in
      if old \<and> \<not> magic_intact t s then Some (Inl ())
      else do {
        (_, s) \<leftarrow> (if old then allo_free a (tr_ptr t) (tr_size t) s else Some ((), s));
        (p, s) \<leftarrow> allo_alloc a n s;
        let t = \<lparr>tr_ptr = p, tr_size = n, tr_magic = b\<rparr>;
        Some (Inr (ts[i := t], fill_block t s))
      })"

definition fuzz_free ::
  "'e allo \<Rightarrow> nat \<Rightarrow> tracker_t list \<Rightarrow> 'e machine \<Rightarrow> (tracker_t list \<times> 'e machine) outcome" where
  "fuzz_free a i ts s =
     (let t = ts ! i in
      if tr_ptr t \<noteq> NULL then
        if tr_size t > 0 \<and> \<not> magic_intact t s then Some (Inl ())
        else do {
          (_, s) \<leftarrow> allo_free a (tr_ptr t) (tr_size t) s;
          Some (Inr (ts[i := t\<lparr>tr_ptr := NULL, tr_size := 0\<rparr>], s))
        }
      else Some (Inr (ts, s)))"

definition fuzz_realloc ::
  "'e allo \<Rightarrow> nat \<Rightarrow> size_t \<Rightarrow> byte \<Rightarrow> tracker_t list \<Rightarrow> 'e machine \<Rightarrow> (tracker_t list \<times> 'e machine) outcome" where
  "fuzz_realloc a i m b ts s =
     (let t = ts ! i in
      if tr_ptr t \<noteq> NULL \<and> tr_size t > 0 \<and> \<not> magic_intact t s then Some (Inl ())
      else do {
        (q, s) \<leftarrow> allo_realloc a (tr_ptr t) (tr_size t) m s;
        (if q \<noteq> NULL \<or> m = 0 then do {
           let t = \<lparr>tr_ptr = q, tr_size = m, tr_magic = b\<rparr>;
           Some (Inr (ts[i := t], fill_block t s))
         }
         else Some (Inr (ts, s)))
      })"

text \<open>
  The operation loop; \<open>Data[offset..]\<close> is the rest of the list. An operation whose size bytes are
  missing ends the loop.
\<close>

fun fuzz_loop ::
  "'e allo \<Rightarrow> nat \<Rightarrow> size_t \<Rightarrow> byte list \<Rightarrow> tracker_t list \<Rightarrow> 'e machine \<Rightarrow> (tracker_t list \<times> 'e machine) outcome" where
  "fuzz_loop a np na [] ts s = Some (Inr (ts, s))"
| "fuzz_loop a np na (b # data) ts s =
     (let i = decode_index b np in
      case decode_op b of
        OP_FREE \<Rightarrow> (case fuzz_free a i ts s of
            Some (Inr (ts, s)) \<Rightarrow> fuzz_loop a np na data ts s | r \<Rightarrow> r)
      | OP_ALLOC \<Rightarrow> (case data of
            hi # lo # data' \<Rightarrow> (case fuzz_alloc a i (decode_size hi lo na) b ts s of
               Some (Inr (ts, s)) \<Rightarrow> fuzz_loop a np na data' ts s | r \<Rightarrow> r)
          | _ \<Rightarrow> Some (Inr (ts, s)))
      | OP_REALLOC \<Rightarrow> (case data of
            hi # lo # data' \<Rightarrow> (case fuzz_realloc a i (decode_size hi lo na) b ts s of
               Some (Inr (ts, s)) \<Rightarrow> fuzz_loop a np na data' ts s | r \<Rightarrow> r)
          | _ \<Rightarrow> Some (Inr (ts, s))))"

primrec fuzz_teardown :: "'e allo \<Rightarrow> tracker_t list \<Rightarrow> 'e machine \<Rightarrow> 'e machine outcome" where
  "fuzz_teardown a [] s = Some (Inr s)"
| "fuzz_teardown a (t # ts) s =
     (if tr_ptr t \<noteq> NULL then
        if tr_size t > 0 \<and> \<not> magic_intact t s then Some (Inl ())
        else do {
          (_, s) \<leftarrow> allo_free a (tr_ptr t) (tr_size t) s;
          fuzz_teardown a ts s
        }
      else fuzz_teardown a ts s)"

definition fuzz_run :: "'e allo \<Rightarrow> nat \<Rightarrow> size_t \<Rightarrow> byte list \<Rightarrow> 'e machine \<Rightarrow> 'e machine outcome" where
  "fuzz_run a np na data s =
     (let tracked = replicate ABSOLUTE_MAX_POINTERS \<lparr>tr_ptr = NULL, tr_size = 0, tr_magic = 0\<rparr> in
      case fuzz_loop a np na data tracked s of
        Some (Inr (ts, s)) \<Rightarrow>
          (case fuzz_teardown a (take np ts) s of
             Some (Inr s) \<Rightarrow> do { (_, s) \<leftarrow> allo_destroy a s; Some (Inr s) }
           | r \<Rightarrow> r)
      | Some (Inl _) \<Rightarrow> Some (Inl ())
      | None \<Rightarrow> None)"

section \<open>Trackers\<close>

lemma decode_index_less: "0 < np \<Longrightarrow> decode_index b np < np"
  by (simp add: decode_index_def)

lemma be16_less: "unat (be16 hi lo) < 65536"
proof -
  let ?x = "push_bit 8 (ucast hi) OR ucast lo :: size_t"
  have "take_bit 16 ?x = ?x"
  proof (rule bit_word_eqI)
    fix n :: nat
    have "bit hi m \<Longrightarrow> m < 8" "bit lo m \<Longrightarrow> m < 8" for m
      using bit_imp_le_length [of hi m] bit_imp_le_length [of lo m] by simp_all
    then show "bit (take_bit 16 ?x) n \<longleftrightarrow> bit ?x n"
      by (force simp: bit_simps)
  qed
  moreover have "unat (take_bit 16 ?x) < 2 ^ 16"
    unfolding unsigned_take_bit_eq by (rule take_bit_nat_less_exp)
  ultimately show ?thesis by (simp add: be16_def)
qed

lemma decode_size_less: "unat (decode_size hi lo na) < 65536"
  using le_less_trans [OF mod_less_eq_dividend be16_less] by (simp add: decode_size_def unat_mod)

lemma magic_loop_iff:
  "magic_loop i t m \<longleftrightarrow> (\<forall>j. i \<le> j \<and> j < tr_size t \<longrightarrow> m (tr_ptr t + j) = tr_magic t)"
proof (induction i t m rule: magic_loop.induct)
  case (1 i t m)
  show ?case
  proof (cases "i < tr_size t")
    case True
    then have "unat (i + 1) = unat i + 1" by (simp add: unat_Suc64)
    then have "i \<le> j \<longleftrightarrow> j = i \<or> i + 1 \<le> j" for j
      by (auto simp: word_le_nat_alt word_eq_iff_unat)
    then show ?thesis using 1 True by (subst magic_loop.simps) auto
  next
    case False
    then have "\<not> (i \<le> j \<and> j < tr_size t)" for j by (meson le_less_trans)
    with False show ?thesis by (subst magic_loop.simps) auto
  qed
qed

text \<open>
  The trackers are well-formed for the live blocks: each one that is in use describes a block of its
  own, filled with its byte, and every block has one.
\<close>

definition tracks :: "tracker_t list \<Rightarrow> live_map \<Rightarrow> memory \<Rightarrow> bool" where
  "tracks ts L m \<longleftrightarrow>
     (\<forall>i<length ts. tr_ptr (ts ! i) \<noteq> NULL \<longrightarrow> L (tr_ptr (ts ! i)) = Some (tr_size (ts ! i)) \<and>
        (\<forall>x\<in>region (tr_ptr (ts ! i)) (tr_size (ts ! i)). m x = tr_magic (ts ! i))) \<and>
     (\<forall>i<length ts. \<forall>j<length ts. i \<noteq> j \<longrightarrow> tr_ptr (ts ! i) \<noteq> NULL \<longrightarrow> tr_ptr (ts ! i) \<noteq> tr_ptr (ts ! j)) \<and>
     (\<forall>p\<in>dom L. \<exists>i<length ts. tr_ptr (ts ! i) = p)"

lemma tracksD:
  assumes "tracks ts L m" "i < length ts" "tr_ptr (ts ! i) \<noteq> NULL"
  shows "L (tr_ptr (ts ! i)) = Some (tr_size (ts ! i))"
    "x \<in> region (tr_ptr (ts ! i)) (tr_size (ts ! i)) \<Longrightarrow> m x = tr_magic (ts ! i)"
    "j < length ts \<Longrightarrow> j \<noteq> i \<Longrightarrow> tr_ptr (ts ! j) \<noteq> tr_ptr (ts ! i)"
proof -
  show "L (tr_ptr (ts ! i)) = Some (tr_size (ts ! i))" using assms by (simp add: tracks_def)
  show "x \<in> region (tr_ptr (ts ! i)) (tr_size (ts ! i)) \<Longrightarrow> m x = tr_magic (ts ! i)"
    using assms by (simp add: tracks_def)
  show "j < length ts \<Longrightarrow> j \<noteq> i \<Longrightarrow> tr_ptr (ts ! j) \<noteq> tr_ptr (ts ! i)"
    using assms unfolding tracks_def by metis
qed

lemma tracks_intact:
  assumes "tracks ts L (mem s)" "live_ok h L" "i < length ts" "tr_ptr (ts ! i) \<noteq> NULL"
  shows "magic_intact (ts ! i) s"
proof -
  have "block_ok (tr_ptr (ts ! i)) (tr_size (ts ! i))"
    by (rule live_okD(1) [OF assms(2) tracksD(1) [OF assms(1,3,4)]])
  then have "tr_ptr (ts ! i) + j \<in> region (tr_ptr (ts ! i)) (tr_size (ts ! i))" if "j < tr_size (ts ! i)" for j
    using that by (intro region_offset) (simp_all add: block_ok_def)
  then show ?thesis
    using tracksD(2) [OF assms(1,3,4)] by (simp add: magic_intact_def magic_loop_iff)
qed

text \<open>A tracker is set to null and its block, if it has one, is gone.\<close>

lemma tracks_drop:
  assumes T: "tracks ts L m" and i: "i < length ts" and t: "tr_ptr t = NULL"
    and K: "kept h (L(tr_ptr (ts ! i) := None)) m m'"
  shows "tracks (ts[i := t]) (L(tr_ptr (ts ! i) := None)) m'"
proof -
  let ?L = "L(tr_ptr (ts ! i) := None)" and ?ts = "ts[i := t]"
  have one: "?L (tr_ptr (?ts ! j)) = Some (tr_size (?ts ! j)) \<and>
      (\<forall>x\<in>region (tr_ptr (?ts ! j)) (tr_size (?ts ! j)). m' x = tr_magic (?ts ! j))"
    if j: "j < length ts" "tr_ptr (?ts ! j) \<noteq> NULL" for j
  proof -
    have ne: "j \<noteq> i" using j t i by auto
    then have tj: "?ts ! j = ts ! j" by simp
    note D = tracksD [OF T j(1), unfolded tj [symmetric], OF j(2)]
    have "tr_ptr (?ts ! j) \<noteq> tr_ptr (ts ! i)" using D(3) [OF i] ne by auto
    then have at: "?L (tr_ptr (?ts ! j)) = Some (tr_size (?ts ! j))" using D(1) by simp
    then have "x \<in> live ?L" if "x \<in> region (tr_ptr (?ts ! j)) (tr_size (?ts ! j))" for x
      using that liveI [of ?L] by blast
    with at D(2) K show ?thesis by (simp add: kept_def)
  qed
  have "tr_ptr (?ts ! j) \<noteq> tr_ptr (?ts ! k)"
    if "j < length ts" "k < length ts" "j \<noteq> k" "tr_ptr (?ts ! j) \<noteq> NULL" for j k
    using that t i tracksD(3) [OF T that(1), of k] by (auto simp: nth_list_update)
  moreover have "\<exists>j<length ts. tr_ptr (?ts ! j) = p" if p: "p \<in> dom ?L" for p
  proof -
    have "p \<in> dom L" "p \<noteq> tr_ptr (ts ! i)" using p by (auto split: if_splits)
    then obtain j where "j < length ts" "tr_ptr (ts ! j) = p" "j \<noteq> i" using T unfolding tracks_def by blast
    then show ?thesis by (intro exI [of _ j]) simp
  qed
  ultimately show ?thesis using one by (simp add: tracks_def)
qed

text \<open>A free tracker takes a new block, which is filled with its byte.\<close>

lemma tracks_put:
  assumes T: "tracks ts L m" and i: "i < length ts" and free: "tr_ptr (ts ! i) = NULL"
    and q: "tr_ptr t \<noteq> NULL" "tr_ptr t \<notin> dom L" and ok: "live_ok h (L(tr_ptr t \<mapsto> tr_size t))"
  shows "tracks (ts[i := t]) (L(tr_ptr t \<mapsto> tr_size t)) (set_bytes (tr_ptr t) (tr_magic t) (tr_size t) m)"
proof -
  let ?L = "L(tr_ptr t \<mapsto> tr_size t)" and ?ts = "ts[i := t]"
  have b: "block_ok (tr_ptr t) (tr_size t)" using live_okD(1) [OF ok] by simp
  then have nw: "unat (tr_ptr t) + unat (tr_size t) \<le> 2 ^ 64" by (simp add: block_ok_def)
  have new: "set_bytes (tr_ptr t) (tr_magic t) (tr_size t) m x = tr_magic t" if "x \<in> region (tr_ptr t) (tr_size t)" for x
    using that in_range_iff [OF nw, of x] by (simp add: set_bytes_def)
  have apart: "region (tr_ptr t) (tr_size t) \<inter> live L = {}" by (rule live_ok_fresh [OF ok q(2)])
  have one: "?L (tr_ptr (?ts ! j)) = Some (tr_size (?ts ! j)) \<and>
      (\<forall>x\<in>region (tr_ptr (?ts ! j)) (tr_size (?ts ! j)).
         set_bytes (tr_ptr t) (tr_magic t) (tr_size t) m x = tr_magic (?ts ! j))"
    if j: "j < length ts" "tr_ptr (?ts ! j) \<noteq> NULL" for j
  proof (cases "j = i")
    case True
    then show ?thesis using new i by simp
  next
    case False
    then have tj: "?ts ! j = ts ! j" by simp
    note D = tracksD [OF T j(1), unfolded tj [symmetric], OF j(2)]
    have "x \<notin> region (tr_ptr t) (tr_size t)" if "x \<in> region (tr_ptr (?ts ! j)) (tr_size (?ts ! j))" for x
      using liveI [of L, OF D(1) that] apart by blast
    then show ?thesis using D(1,2) q set_bytes_other [OF nw] by auto
  qed
  have away: "tr_ptr (ts ! j) \<noteq> tr_ptr t" if "j < length ts" for j
    using tracksD(1) [OF T that] q by force
  have "tr_ptr (?ts ! j) \<noteq> tr_ptr (?ts ! k)"
    if "j < length ts" "k < length ts" "j \<noteq> k" "tr_ptr (?ts ! j) \<noteq> NULL" for j k
    using that away [of j] away [of k] tracksD(3) [OF T that(1), of k] i by (auto simp: nth_list_update)
  moreover have "\<exists>j<length ts. tr_ptr (?ts ! j) = p" if p: "p \<in> dom ?L" for p
  proof (cases "p = tr_ptr t")
    case True
    with i show ?thesis by (intro exI [of _ i]) simp
  next
    case False
    with p have "p \<in> dom L" by auto
    then obtain j where j: "j < length ts" "tr_ptr (ts ! j) = p" using T unfolding tracks_def by blast
    have "p \<noteq> NULL" using \<open>p \<in> dom L\<close> live_okD(1) [OF ok, of p] False by (auto simp: block_ok_def)
    then have "j \<noteq> i" using j(2) free by auto
    with j show ?thesis by (intro exI [of _ j]) simp
  qed
  ultimately show ?thesis using one by (simp add: tracks_def)
qed

lemma tracks_Cons:
  assumes t: "tr_ptr t = NULL" and T: "tracks (t # ts) L m" and L: "NULL \<notin> dom L"
  shows "tracks ts L m"
proof -
  note D = tracksD [OF T, of "Suc i" for i, simplified]
  have "\<exists>i<length ts. tr_ptr (ts ! i) = p" if p: "p \<in> dom L" for p
  proof -
    have "\<exists>i<length (t # ts). tr_ptr ((t # ts) ! i) = p" using T p unfolding tracks_def by blast
    then obtain i where i: "i < length (t # ts)" "tr_ptr ((t # ts) ! i) = p" by blast
    show ?thesis
    proof (cases i)
      case 0
      with i(2) t L p show ?thesis by auto
    next
      case (Suc k)
      with i show ?thesis by (intro exI [of _ k]) simp
    qed
  qed
  moreover have "tr_ptr (ts ! i) \<noteq> tr_ptr (ts ! j)"
    if "i < length ts" "j < length ts" "i \<noteq> j" "tr_ptr (ts ! i) \<noteq> NULL" for i j
    using D(3) [of i "Suc j"] that by simp
  ultimately show ?thesis using D(1,2) by (simp add: tracks_def)
qed

section \<open>The harness over the contract\<close>

definition fuzz_inv :: "('e machine \<Rightarrow> live_map \<Rightarrow> bool) \<Rightarrow> nat \<Rightarrow> tracker_t list \<Rightarrow> 'e machine \<Rightarrow> bool" where
  "fuzz_inv Inv np ts s \<longleftrightarrow> np \<le> length ts \<and> (\<forall>i<length ts. np \<le> i \<longrightarrow> tr_ptr (ts ! i) = NULL) \<and>
     (\<exists>L. Inv s L \<and> tracks ts L (mem s))"

context allocator
begin

lemma fuzz_invE:
  assumes "fuzz_inv Inv np ts s" "i < np"
  obtains L where "Inv s L" "tracks ts L (mem s)" "live_ok heap L" "NULL \<notin> dom L" "i < length ts"
    "tr_ptr (ts ! i) \<noteq> NULL \<longrightarrow> tr_size (ts ! i) > 0 \<and> magic_intact (ts ! i) s"
proof -
  obtain L where L: "Inv s L" "tracks ts L (mem s)" using assms(1) by (auto simp: fuzz_inv_def)
  have i: "i < length ts" using assms by (simp add: fuzz_inv_def)
  note ok = live_inv [OF L(1)]
  have "NULL \<notin> dom L" using live_okD(1) [OF ok, of NULL] by (auto simp: block_ok_def)
  moreover have "tr_size (ts ! i) > 0 \<and> magic_intact (ts ! i) s" if "tr_ptr (ts ! i) \<noteq> NULL"
    using live_okD(1) [OF ok tracksD(1) [OF L(2) i that]] tracks_intact [OF L(2) ok i that]
    by (auto simp: block_ok_def word_gt_0)
  ultimately show thesis using that L ok i by blast
qed

lemma null_free: "Inv s L \<Longrightarrow> L(NULL := None) = L"
  using live_okD(1) [OF live_inv, of s L NULL] by (cases "L NULL") (auto simp: block_ok_def fun_eq_iff)

text \<open>What every operation ends with: the tracker is null, or has a new block.\<close>

lemma fuzz_settle:
  assumes F: "fuzz_inv Inv np ts s" and i: "i < np" and T: "tracks (ts[i := u]) L (mem s')" and u: "tr_ptr u = NULL"
    and t: "if tr_ptr t = NULL then Inv s' L
      else tr_ptr t \<notin> dom L \<and> Inv s' (L(tr_ptr t \<mapsto> tr_size t))"
  shows "fuzz_inv Inv np (ts[i := t]) (fill_block t s')"
proof -
  have len: "i < length ts" "np \<le> length ts" "\<forall>j<length ts. np \<le> j \<longrightarrow> tr_ptr (ts ! j) = NULL"
    using F i by (auto simp: fuzz_inv_def)
  have "\<exists>L. Inv (fill_block t s') L \<and> tracks (ts[i := t]) L (mem (fill_block t s'))"
  proof (cases "tr_ptr t = NULL")
    case True
    have "tracks (ts[i := u, i := t]) (L(tr_ptr (ts[i := u] ! i) := None)) (mem s')"
      by (rule tracks_drop [OF T, where h = heap]) (use True len(1) in simp_all)
    moreover have "L(NULL := None) = L"
      using null_free t True by simp
    ultimately show ?thesis using t True u len(1) by (auto simp: fill_block_def)
  next
    case False
    let ?L = "L(tr_ptr t \<mapsto> tr_size t)"
    have q: "tr_ptr t \<notin> dom L" and I: "Inv s' ?L" using t False by simp_all
    note ok = live_inv [OF I]
    have b: "block_ok (tr_ptr t) (tr_size t)" using live_okD(1) [OF ok] by simp
    then have fill: "fill_block t s' =
        s'\<lparr>mem := set_bytes (tr_ptr t) (tr_magic t) (tr_size t) (mem s')\<rparr>"
      by (simp add: fill_block_def block_ok_def word_gt_0)
    have "tracks (ts[i := u, i := t]) ?L (set_bytes (tr_ptr t) (tr_magic t) (tr_size t) (mem s'))"
      using T u len(1) q ok False by (intro tracks_put) simp_all
    moreover have "Inv (fill_block t s') ?L"
    proof (rule client_write [OF I])
      show "env (fill_block t s') = env s'" by (simp add: fill)
      show "mem (fill_block t s') x = mem s' x" if "x \<notin> live ?L" for x
      proof -
        have "x \<notin> region (tr_ptr t) (tr_size t)" using that liveI [of ?L "tr_ptr t" "tr_size t" x] by auto
        then show ?thesis using b by (simp add: fill set_bytes_other block_ok_def)
      qed
    qed
    ultimately show ?thesis by (auto simp: fill)
  qed
  then show ?thesis using len i by (auto simp: fuzz_inv_def nth_list_update)
qed

lemma fuzz_alloc_ok:
  assumes F: "fuzz_inv Inv np ts s" and i: "i < np" and n: "unat n < lim"
  shows "\<exists>ts' s'. fuzz_alloc a i n b ts s = Some (Inr (ts', s')) \<and> fuzz_inv Inv np ts' s'"
proof -
  let ?t = "ts ! i" and ?u = "\<lparr>tr_ptr = NULL, tr_size = 0, tr_magic = 0\<rparr>"
  obtain L where L: "Inv s L" "tracks ts L (mem s)" "NULL \<notin> dom L" "i < length ts"
    and old: "tr_ptr ?t \<noteq> NULL \<longrightarrow> tr_size ?t > 0 \<and> magic_intact ?t s"
    by (rule fuzz_invE [OF F i]) blast
  let ?L = "L(tr_ptr ?t := None)"
  obtain s1 where s1: "(if tr_ptr ?t \<noteq> NULL \<and> tr_size ?t > 0 then allo_free a (tr_ptr ?t) (tr_size ?t) s
      else Some ((), s)) = Some ((), s1)" "Inv s1 ?L" "kept heap ?L (mem s) (mem s1)"
  proof (cases "tr_ptr ?t = NULL")
    case True
    with L live_upd_None [of NULL L] show thesis by (intro that [of s]) simp_all
  next
    case False
    then show thesis
      using old by (cases rule: free_ok [OF L(1) tracksD(1) [OF L(2,4) False]]) (auto intro: that)
  qed
  have T1: "tracks (ts[i := ?u]) ?L (mem s1)" by (rule tracks_drop [OF L(2,4) _ s1(3)]) simp
  obtain p s2 where s2: "allo_alloc a n s1 = Some (p, s2)" and post: "alloc_post Inv heap ?L n s1 p s2"
    using alloc_law [OF s1(2) n] by (auto simp: allo_alloc_def)
  have T2: "tracks (ts[i := ?u]) ?L (mem s2)"
  proof -
    have null: "?L(tr_ptr (ts[i := ?u] ! i) := None) = ?L" using L(3,4) by (auto simp: fun_eq_iff)
    have "kept heap (?L(tr_ptr (ts[i := ?u] ! i) := None)) (mem s1) (mem s2)"
      using post unfolding null alloc_post_def by blast
    from tracks_drop [OF T1 _ _ this, of ?u] show ?thesis using L(4) unfolding null by simp
  qed
  have "fuzz_inv Inv np (ts[i := \<lparr>tr_ptr = p, tr_size = n, tr_magic = b\<rparr>])
      (fill_block \<lparr>tr_ptr = p, tr_size = n, tr_magic = b\<rparr> s2)"
    by (rule fuzz_settle [OF F i T2]) (use post in \<open>auto simp: alloc_post_def split: if_splits\<close>)
  moreover have "fuzz_alloc a i n b ts s = Some (Inr (ts[i := \<lparr>tr_ptr = p, tr_size = n, tr_magic = b\<rparr>],
      fill_block \<lparr>tr_ptr = p, tr_size = n, tr_magic = b\<rparr> s2))"
    using old s2 by (auto simp: fuzz_alloc_def Let_def s1(1))
  ultimately show ?thesis by blast
qed

lemma fuzz_free_ok:
  assumes F: "fuzz_inv Inv np ts s" and i: "i < np"
  shows "\<exists>ts' s'. fuzz_free a i ts s = Some (Inr (ts', s')) \<and> fuzz_inv Inv np ts' s'"
proof -
  let ?t = "ts ! i" and ?u = "(ts ! i)\<lparr>tr_ptr := NULL, tr_size := 0\<rparr>"
  obtain L where L: "Inv s L" "tracks ts L (mem s)" "i < length ts"
    and old: "tr_ptr ?t \<noteq> NULL \<longrightarrow> tr_size ?t > 0 \<and> magic_intact ?t s"
    by (rule fuzz_invE [OF F i]) blast
  show ?thesis
  proof (cases "tr_ptr ?t = NULL")
    case True
    with F show ?thesis by (simp add: fuzz_free_def)
  next
    case False
    obtain s1 where s1: "allo_free a (tr_ptr ?t) (tr_size ?t) s = Some ((), s1)"
      "Inv s1 (L(tr_ptr ?t := None))" "kept heap (L(tr_ptr ?t := None)) (mem s) (mem s1)"
      by (rule free_ok [OF L(1) tracksD(1) [OF L(2,3) False]])
    have "fuzz_inv Inv np (ts[i := ?u]) (fill_block ?u s1)"
      by (rule fuzz_settle [OF F i tracks_drop [OF L(2,3) _ s1(3), of ?u]]) (use s1(2) in simp_all)
    then show ?thesis using s1(1) old False by (simp add: fuzz_free_def Let_def fill_block_def)
  qed
qed

lemma fuzz_realloc_ok:
  assumes F: "fuzz_inv Inv np ts s" and i: "i < np" and m: "unat m < lim"
  shows "\<exists>ts' s'. fuzz_realloc a i m b ts s = Some (Inr (ts', s')) \<and> fuzz_inv Inv np ts' s'"
proof -
  let ?t = "ts ! i" and ?u = "\<lparr>tr_ptr = NULL, tr_size = 0, tr_magic = 0\<rparr>"
  let ?new = "\<lambda>q. \<lparr>tr_ptr = q, tr_size = m, tr_magic = b\<rparr>"
  obtain L where L: "Inv s L" "tracks ts L (mem s)" "i < length ts"
    and old: "tr_ptr ?t \<noteq> NULL \<longrightarrow> tr_size ?t > 0 \<and> magic_intact ?t s"
    by (rule fuzz_invE [OF F i]) blast
  let ?L = "L(tr_ptr ?t := None)"
  have settled: ?thesis
    if r: "allo_realloc a (tr_ptr ?t) (tr_size ?t) m s = Some (q, s')" and k: "kept heap ?L (mem s) (mem s')"
      and I: "if q = NULL then Inv s' (if m = 0 then ?L else L) else q \<notin> dom ?L \<and> Inv s' (?L(q \<mapsto> m))"
      and k': "q = NULL \<longrightarrow> m \<noteq> 0 \<longrightarrow> kept heap L (mem s) (mem s')" for q s'
  proof (cases "q = NULL \<and> m \<noteq> 0")
    case True
    have "tracks ts L (mem s')"
      using L(2) k' True unfolding tracks_def by (fastforce simp: kept_def live_def)
    then have "fuzz_inv Inv np ts s'" using F I True by (auto simp: fuzz_inv_def)
    then show ?thesis using r True old by (auto simp: fuzz_realloc_def Let_def)
  next
    case False
    have "fuzz_inv Inv np (ts[i := ?new q]) (fill_block (?new q) s')"
      by (rule fuzz_settle [OF F i tracks_drop [OF L(2,3) _ k, of ?u]]) (use I False in \<open>auto split: if_splits\<close>)
    then show ?thesis using r False old by (auto simp: fuzz_realloc_def Let_def)
  qed
  show ?thesis
  proof (cases "tr_ptr ?t = NULL")
    case True
    have L0: "?L = L" using null_free [OF L(1)] True by simp
    show ?thesis
    proof (cases "m = 0")
      case z: True
      obtain s' where "vt_free_mem a NULL (tr_size ?t) s = Some ((), s')" "Inv s' L" "kept heap L (mem s) (mem s')"
        using free_null_law [OF L(1)] by blast
      then show ?thesis
        using z True L0 by (intro settled [of NULL s']) (simp_all add: allo_realloc_def allo_free_def)
    next
      case False
      obtain p s' where "allo_alloc a m s = Some (p, s')" "alloc_post Inv heap L m s p s'"
        using alloc_law [OF L(1) m] by (auto simp: allo_alloc_def)
      then show ?thesis
        using False True L0 by (intro settled [of p s']) (auto simp: allo_realloc_def alloc_post_def split: if_splits)
    qed
  next
    case p: False
    note at = tracksD(1) [OF L(2,3) p]
    show ?thesis
    proof (cases "m = 0")
      case z: True
      show ?thesis
        by (rule allo_realloc_zero [OF L(1) at], rule settled [of NULL]) (use z in simp_all)
    next
      case False
      obtain q s' where r: "allo_realloc a (tr_ptr ?t) (tr_size ?t) m s = Some (q, s')"
        and post: "realloc_post Inv heap L (tr_ptr ?t) (tr_size ?t) m s q s'"
        by (rule allo_realloc_ok [OF L(1) at m False])
      show ?thesis
        using post False kept_mono [OF _ live_del [of L "tr_ptr ?t"] order_refl]
        by (intro settled [OF r]) (auto simp: realloc_post_def split: if_splits)
    qed
  qed
qed

lemma fuzz_loop_ok:
  assumes np: "0 < np" and lim: "65536 \<le> lim"
  shows "fuzz_inv Inv np ts s \<Longrightarrow>
    \<exists>ts' s'. fuzz_loop a np na data ts s = Some (Inr (ts', s')) \<and> fuzz_inv Inv np ts' s'"
proof (induction "length data" arbitrary: data ts s rule: less_induct)
  case less
  show ?case
  proof (cases data)
    case Nil
    with less.prems show ?thesis by simp
  next
    case (Cons b rest)
    have i: "decode_index b np < np" by (rule decode_index_less [OF np])
    have sz: "unat (decode_size hi lo na) < lim" for hi lo
      using decode_size_less [of hi lo na] lim by simp
    have two: "rest = [] \<or> (\<exists>x. rest = [x]) \<or> (\<exists>hi lo more. rest = hi # lo # more)"
      by (rule remdups_adj.cases [of rest]) auto
    show ?thesis
    proof (cases "decode_op b")
      case OP_FREE
      obtain ts1 s1 where "fuzz_free a (decode_index b np) ts s = Some (Inr (ts1, s1))" "fuzz_inv Inv np ts1 s1"
        using fuzz_free_ok [OF less.prems i] by blast
      then show ?thesis using less.hyps [of rest ts1 s1] by (simp add: Cons OP_FREE Let_def)
    next
      case OP_ALLOC
      from two show ?thesis
      proof (elim disjE exE)
        fix hi lo more assume rest: "rest = hi # lo # more"
        obtain ts1 s1 where "fuzz_alloc a (decode_index b np) (decode_size hi lo na) b ts s = Some (Inr (ts1, s1))"
          "fuzz_inv Inv np ts1 s1"
          using fuzz_alloc_ok [OF less.prems i sz] by blast
        then show ?thesis using less.hyps [of more ts1 s1] by (simp add: Cons OP_ALLOC rest Let_def)
      qed (use less.prems in \<open>simp_all add: Cons OP_ALLOC Let_def\<close>)
    next
      case OP_REALLOC
      from two show ?thesis
      proof (elim disjE exE)
        fix hi lo more assume rest: "rest = hi # lo # more"
        obtain ts1 s1 where "fuzz_realloc a (decode_index b np) (decode_size hi lo na) b ts s = Some (Inr (ts1, s1))"
          "fuzz_inv Inv np ts1 s1"
          using fuzz_realloc_ok [OF less.prems i sz] by blast
        then show ?thesis using less.hyps [of more ts1 s1] by (simp add: Cons OP_REALLOC rest Let_def)
      qed (use less.prems in \<open>simp_all add: Cons OP_REALLOC Let_def\<close>)
    qed
  qed
qed

lemma fuzz_teardown_ok:
  "Inv s L \<Longrightarrow> tracks ts L (mem s) \<Longrightarrow> \<exists>s'. fuzz_teardown a ts s = Some (Inr s') \<and> Inv s' Map.empty"
proof (induction ts arbitrary: s L)
  case Nil
  then have "L = Map.empty" by (auto simp: tracks_def domIff)
  with Nil show ?case by simp
next
  case (Cons t ts)
  let ?L = "L(tr_ptr t := None)" and ?u = "\<lparr>tr_ptr = NULL, tr_size = 0, tr_magic = 0\<rparr>"
  note ok = live_inv [OF Cons.prems(1)]
  have rest: "tracks ts ?L m" if "kept heap ?L (mem s) m" for m
  proof (rule tracks_Cons)
    show "tracks (?u # ts) ?L m" using tracks_drop [OF Cons.prems(2), of 0 ?u heap m] that by simp
    show "NULL \<notin> dom ?L" using null_free [OF Cons.prems(1)] by (metis domIff fun_upd_def)
  qed simp
  show ?case
  proof (cases "tr_ptr t = NULL")
    case True
    then have "?L = L" using null_free [OF Cons.prems(1)] by simp
    then show ?thesis using Cons.IH [OF Cons.prems(1)] rest [of "mem s"] True by simp
  next
    case False
    have at: "L (tr_ptr t) = Some (tr_size t)" using tracksD(1) [OF Cons.prems(2), of 0] False by simp
    have good: "magic_intact t s" using tracks_intact [OF Cons.prems(2) ok, of 0] False by simp
    obtain s1 where s1: "allo_free a (tr_ptr t) (tr_size t) s = Some ((), s1)" "Inv s1 ?L" "kept heap ?L (mem s) (mem s1)"
      by (rule free_ok [OF Cons.prems(1) at])
    then show ?thesis using Cons.IH [OF s1(2) rest [OF s1(3)]] good False by simp
  qed
qed

text \<open>For every input the harness returns, with the allocator as empty as it was and then destroyed.\<close>

lemma fuzz_run_ok:
  assumes I: "Inv s Map.empty" and np: "0 < np" "np \<le> 128" and lim: "65536 \<le> lim"
    and destroy: "\<And>t. Inv t Map.empty \<Longrightarrow> \<exists>t'. allo_destroy a t = Some ((), t') \<and> Q t'"
  shows "\<exists>s'. fuzz_run a np na data s = Some (Inr s') \<and> Q s'"
proof -
  let ?ts = "replicate ABSOLUTE_MAX_POINTERS \<lparr>tr_ptr = NULL, tr_size = 0, tr_magic = 0\<rparr>"
  have "tracks ?ts Map.empty (mem s)" by (simp add: tracks_def)
  then have "fuzz_inv Inv np ?ts s" using I np(2) by (auto simp: fuzz_inv_def ABSOLUTE_MAX_POINTERS_def)
  then obtain ts1 s1 where run: "fuzz_loop a np na data ?ts s = Some (Inr (ts1, s1))" and F: "fuzz_inv Inv np ts1 s1"
    using fuzz_loop_ok [OF np(1) lim] by blast
  obtain L where L: "Inv s1 L" "tracks ts1 L (mem s1)" using F by (auto simp: fuzz_inv_def)
  have "tracks (take np ts1) L (mem s1)"
  proof -
    have "\<exists>i<length (take np ts1). tr_ptr (take np ts1 ! i) = p" if p: "p \<in> dom L" for p
    proof -
      obtain i where i: "i < length ts1" "tr_ptr (ts1 ! i) = p" using L(2) p unfolding tracks_def by blast
      have "p \<noteq> NULL" using null_free [OF L(1)] p by (metis domIff fun_upd_def)
      then have "i < np" using F i by (force simp: fuzz_inv_def not_less)
      with i show ?thesis by (intro exI [of _ i]) simp
    qed
    then show ?thesis using L(2) by (simp add: tracks_def)
  qed
  then obtain s2 where s2: "fuzz_teardown a (take np ts1) s1 = Some (Inr s2)" "Inv s2 Map.empty"
    using fuzz_teardown_ok [OF L(1)] by blast
  then show ?thesis using run destroy [OF s2(2)] by (auto simp: fuzz_run_def)
qed

end

end
