(* ===== verification/Owned.thy ===== *)
theory Owned
  imports Pool
begin

text \<open>
  An allocator that lives in one block of another allocator, as one allocator: its invariant says
  both that it is valid and that the child holds the block for it. Used for pools whose buffer
  comes from a child, and for fixed buffers got from one.
\<close>

definition holds_block ::
  "('e machine \<Rightarrow> live_map \<Rightarrow> bool) \<Rightarrow> live_map \<Rightarrow> ptr \<Rightarrow> size_t \<Rightarrow> ('c \<Rightarrow> bool) \<Rightarrow> ('c \<times> 'e) machine \<Rightarrow> bool" where
  "holds_block cinv F B S W s \<longleftrightarrow>
     cinv (child_state s) (F(B \<mapsto> S)) \<and> B \<notin> dom F \<and> W (self_ctx s)"

locale block_owner = child: allocator c CInv heap clim + own: exact_allocator a AInv "region B S" lim
  for c :: "'e allo" and CInv heap clim and a :: "('c \<times> 'e) allo" and AInv B S lim +
  fixes F :: live_map and W :: "'c \<Rightarrow> bool"
  assumes alloc_frame: "AInv s L \<Longrightarrow> W (self_ctx s) \<Longrightarrow> vt_alloc a n s = Some (p, s') \<Longrightarrow>
      snd (env s') = snd (env s) \<and> W (self_ctx s')"
    and realloc_frame: "AInv s L \<Longrightarrow> W (self_ctx s) \<Longrightarrow> vt_realloc a p n m s = Some (q, s') \<Longrightarrow>
      snd (env s') = snd (env s) \<and> W (self_ctx s')"
    and free_frame: "AInv s L \<Longrightarrow> W (self_ctx s) \<Longrightarrow> vt_free_mem a p n s = Some (u, s') \<Longrightarrow>
      snd (env s') = snd (env s) \<and> W (self_ctx s')"
begin

abbreviation both :: "('c \<times> 'e) machine \<Rightarrow> live_map \<Rightarrow> bool" where
  "both s L \<equiv> AInv s L \<and> holds_block CInv F B S W s"

lemma holds_step:
  assumes h: "holds_block CInv F B S W s" and e: "snd (env s') = snd (env s) \<and> W (self_ctx s')"
    and k: "kept (region B S) L (mem s) (mem s')"
  shows "holds_block CInv F B S W s'"
proof -
  have "CInv (child_state s') (F(B \<mapsto> S))"
  proof (rule child.client_write)
    show "CInv (child_state s) (F(B \<mapsto> S))" using h by (simp add: holds_block_def)
    show "env (child_state s') = env (child_state s)" using e by simp
    fix x assume "x \<notin> live (F(B \<mapsto> S))"
    then have "x \<notin> region B S" using h by (simp add: holds_block_def live_upd)
    with k show "mem (child_state s') x = mem (child_state s) x" by (simp add: kept_def)
  qed
  with h e show ?thesis by (simp add: holds_block_def)
qed

lemma holds_region:
  assumes "holds_block CInv F B S W s"
  shows "region B S \<subseteq> heap - live F"
proof -
  have ok: "live_ok heap (F(B \<mapsto> S))" and "B \<notin> dom F"
    using assms child.live_inv by (auto simp: holds_block_def)
  then show ?thesis using live_okD(2) [OF ok, of B S] live_ok_fresh [OF ok] by auto
qed

lemma owner_exact: "exact_allocator a both (heap - live F) lim"
proof unfold_locales
  show "lim \<le> 2 ^ 63" by (rule own.lim_le)
next
  fix s :: "('c \<times> 'e) machine" and L :: live_map and n m :: size_t and p :: ptr
  assume J: "both s L"
  then have I: "AInv s L" and h: "holds_block CInv F B S W s" and w: "W (self_ctx s)"
    by (simp_all add: holds_block_def)
  note sub = holds_region [OF h]
  have km: "kept (heap - live F) K x y" if "kept (region B S) K x y" for K x y
    using that sub by (rule kept_mono [OF _ order_refl])
  have lb: "live_ok (region B S) L" by (rule own.live_inv [OF I])
  then show "live_ok (heap - live F) L" using sub by (auto simp: live_ok_def)
  show "both s' L" if e: "env s' = env s"
    and wr: "\<And>x. x \<in> heap - live F \<Longrightarrow> x \<notin> live L \<Longrightarrow> mem s' x = mem s x" for s'
  proof
    show "AInv s' L" using e wr sub by (intro own.client_write [OF I]) blast+
    have "CInv (child_state s') (F(B \<mapsto> S))"
    proof (rule child.client_write)
      show "CInv (child_state s) (F(B \<mapsto> S))" using h by (simp add: holds_block_def)
      show "env (child_state s') = env (child_state s)" using e by simp
      fix x assume "x \<in> heap" "x \<notin> live (F(B \<mapsto> S))"
      then show "mem (child_state s') x = mem (child_state s) x"
        using wr [of x] h live_ok_heap [OF lb] by (auto simp: holds_block_def live_upd)
    qed
    then show "holds_block CInv F B S W s'" using h e by (simp add: holds_block_def self_ctx_def)
  qed
  show "\<exists>p s'. vt_alloc a n s = Some (p, s') \<and> alloc_post both (heap - live F) L n s p s'" if lt: "unat n < lim"
  proof -
    obtain p s' where r: "vt_alloc a n s = Some (p, s')" and post: "alloc_post AInv (region B S) L n s p s'"
      using own.alloc_law [OF I lt] by blast
    have "holds_block CInv F B S W s'"
      by (rule holds_step [OF h alloc_frame [OF I w r], of L]) (use post in \<open>simp add: alloc_post_def\<close>)
    then show ?thesis using r post km by (auto simp: alloc_post_def)
  qed
  show "\<exists>q s'. vt_realloc a p n m s = Some (q, s') \<and> realloc_post both (heap - live F) L p n m s q s'"
    if p: "L p = Some n" "unat m < lim" "m \<noteq> 0"
  proof -
    obtain q s' where r: "vt_realloc a p n m s = Some (q, s')" and post: "realloc_post AInv (region B S) L p n m s q s'"
      using own.realloc_law [OF I p] by blast
    have "holds_block CInv F B S W s'"
      by (rule holds_step [OF h realloc_frame [OF I w r], of "if q = NULL then L else L(p := None)"])
        (use post in \<open>simp add: realloc_post_def\<close>)
    then show ?thesis using r post km by (auto simp: realloc_post_def)
  qed
  show "\<exists>s'. vt_free_mem a p n s = Some ((), s') \<and> free_post both (heap - live F) L p s s'" if p: "L p = Some n"
  proof -
    obtain s' where r: "vt_free_mem a p n s = Some ((), s')" and post: "free_post AInv (region B S) L p s s'"
      using own.free_law [OF I p] by blast
    have "holds_block CInv F B S W s'"
      by (rule holds_step [OF h free_frame [OF I w r], of "L(p := None)"]) (use post in \<open>simp add: free_post_def\<close>)
    then show ?thesis using r post km by (auto simp: free_post_def)
  qed
  show "\<exists>s'. vt_free_mem a NULL n s = Some ((), s') \<and> both s' L \<and> kept (heap - live F) L (mem s) (mem s')"
  proof -
    obtain s' where r: "vt_free_mem a NULL n s = Some ((), s')" "AInv s' L" "kept (region B S) L (mem s) (mem s')"
      using own.free_null_law [OF I] by blast
    then show ?thesis using holds_step [OF h free_frame [OF I w r(1)] r(3)] km by blast
  qed
  show "\<exists>r. allo_contains a p s = Some (r, s) \<and> (p \<in> dom L \<longrightarrow> r \<noteq> ALLO_CONTAINS_NO) \<and>
      (r = ALLO_CONTAINS_YES \<longrightarrow> p \<in> heap - live F)"
    using own.contains_law [OF I, of p] sub by blast
  show "allo_contains a p s \<noteq> Some (ALLO_CONTAINS_UNKNOWN, s)" by (rule own.contains_exact [OF I])
qed

end

text \<open>
  The frame rule: for a client that leaves the blocks \<open>F\<close> of others alone, an allocator that also
  holds those meets the contract for the client's own blocks.
\<close>

definition framed :: "('e machine \<Rightarrow> live_map \<Rightarrow> bool) \<Rightarrow> live_map \<Rightarrow> 'e machine \<Rightarrow> live_map \<Rightarrow> bool" where
  "framed cinv F s L \<longleftrightarrow> cinv s (F ++ L) \<and> dom F \<inter> dom L = {}"

lemma framed_del:
  assumes "p \<in> dom L" "dom F \<inter> dom L = {}"
  shows "(F ++ L)(p := None) = F ++ L(p := None)"
proof -
  have "F p = None" using assms by (auto simp: disjoint_iff domIff)
  then show ?thesis by (auto simp: fun_eq_iff map_add_def)
qed

context allocator
begin

lemma framed_allocator: "allocator a (framed Inv F) heap lim"
proof unfold_locales
  show "lim \<le> 2 ^ 63" by (rule lim_le)
next
  fix s :: "'e machine" and L :: live_map and n m :: size_t and p :: ptr
  assume J: "framed Inv F s L"
  then have I: "Inv s (F ++ L)" and d: "dom F \<inter> dom L = {}" by (simp_all add: framed_def)
  have sub: "live L \<subseteq> live (F ++ L)" by (rule live_mono) simp
  have km: "kept heap L x y" if "kept heap (F ++ L) x y" for x y
    using that sub by (rule kept_mono) simp
  have kd: "kept heap (L(p := None)) x y" if "kept heap (F ++ L(p := None)) x y" for x y
    using that by (rule kept_mono [OF _ live_mono]) simp_all
  have at: "(F ++ L) p = Some n" if "L p = Some n" for p n using that by simp
  have sub': "L \<subseteq>\<^sub>m F ++ L" by simp
  show "live_ok heap L"
    using live_inv [OF I] unfolding live_ok_def by (blast intro: at)
  show "framed Inv F s' L" if "env s' = env s"
    "\<And>x. x \<in> heap \<Longrightarrow> x \<notin> live L \<Longrightarrow> mem s' x = mem s x" for s'
    using client_write [OF I, of s'] that d sub by (auto simp: framed_def)
  show "\<exists>p s'. vt_alloc a n s = Some (p, s') \<and> alloc_post (framed Inv F) heap L n s p s'" if "unat n < lim"
    using alloc_law [OF I that] J d km
    by (fastforce simp: alloc_post_def framed_def split: if_splits)
  show "\<exists>s'. vt_free_mem a p n s = Some ((), s') \<and> free_post (framed Inv F) heap L p s s'" if p: "L p = Some n"
  proof -
    have dp: "p \<in> dom L" using p by blast
    obtain s' where "vt_free_mem a p n s = Some ((), s')" and post: "free_post Inv heap (F ++ L) p s s'"
      using free_law [OF I at [OF p]] by blast
    moreover have "dom F \<inter> dom (L(p := None)) = {}" using d by auto
    ultimately show ?thesis using framed_del [OF dp d] kd by (auto simp: free_post_def framed_def)
  qed
  show "\<exists>q s'. vt_realloc a p n m s = Some (q, s') \<and> realloc_post (framed Inv F) heap L p n m s q s'"
    if p: "L p = Some n" and m: "unat m < lim" "m \<noteq> 0"
  proof -
    have dp: "p \<in> dom L" using p by blast
    obtain q s' where r: "vt_realloc a p n m s = Some (q, s')"
      and post: "realloc_post Inv heap (F ++ L) p n m s q s'"
      using realloc_law [OF I at [OF p] m] by blast
    have "realloc_post (framed Inv F) heap L p n m s q s'"
    proof (cases "q = NULL")
      case True
      with post J km d show ?thesis by (auto simp: realloc_post_def framed_def)
    next
      case False
      have "q = p \<or> q \<notin> dom (F ++ L)" using post False by (simp add: realloc_post_def)
      then have "dom F \<inter> dom (L(p := None, q \<mapsto> m)) = {}" "q = p \<or> q \<notin> dom L" using d dp by auto
      moreover have "Inv s' (F ++ L(p := None, q \<mapsto> m))" "kept heap (F ++ L(p := None)) (mem s) (mem s')"
        "same_bytes (mem s) p (mem s') q (min n m)"
        using post False framed_del [OF dp d] by (auto simp: realloc_post_def)
      ultimately show ?thesis using False kd by (simp add: realloc_post_def framed_def)
    qed
    with r show ?thesis by blast
  qed
  show "\<exists>s'. vt_free_mem a NULL n s = Some ((), s') \<and> framed Inv F s' L \<and> kept heap L (mem s) (mem s')"
    using free_null_law [OF I, of n] d km by (auto simp: framed_def)
  show "\<exists>r. allo_contains a p s = Some (r, s) \<and> (p \<in> dom L \<longrightarrow> r \<noteq> ALLO_CONTAINS_NO) \<and>
      (r = ALLO_CONTAINS_YES \<longrightarrow> p \<in> heap)"
    using contains_law [OF I, of p] by fastforce
qed

end

section \<open>Pools and fixed buffers in a block of a child\<close>

definition pool_owner :: "'e allo \<Rightarrow> 'e pool_context_t \<Rightarrow> bool" where
  "pool_owner c ctx \<longleftrightarrow> pool_own_buffer ctx \<and> pool_child ctx = Some c"

context allocator
begin

lemma pool_owned: "block_owner a Inv heap lim pool_allo (pool_inv B bs N) B (bs * N) (2 ^ 63) (pool_owner a)"
proof (intro block_owner.intro allocator_axioms pool.exact_allocator_axioms, unfold_locales)
  fix s s' :: "'e pool_machine" and L :: live_map and n m :: size_t and p q :: ptr and u :: unit
  assume w: "pool_owner a (self_ctx s)"
  show "snd (env s') = snd (env s) \<and> pool_owner a (self_ctx s')" if "vt_alloc pool_allo n s = Some (p, s')"
    using pool_alloc_frame [of n s p s'] that w by (simp add: pool_allo_def pool_owner_def)
  show "snd (env s') = snd (env s) \<and> pool_owner a (self_ctx s')" if "vt_realloc pool_allo p n m s = Some (q, s')"
    using pool_realloc_frame [of p n m s q s'] that w by (simp add: pool_allo_def)
  show "snd (env s') = snd (env s) \<and> pool_owner a (self_ctx s')" if "vt_free_mem pool_allo p n s = Some (u, s')"
    using pool_free_frame [of p n s u s'] that w by (simp add: pool_allo_def pool_owner_def)
qed

lemma buffer_owned: "block_owner a Inv heap lim buf_allo (buf_inv B S) B S (2 ^ 63) (\<lambda>_. True)"
proof (intro block_owner.intro allocator_axioms buf.exact_allocator_axioms, unfold_locales)
  fix s s' :: "'e buf_machine" and L :: live_map and n m :: size_t and p q :: ptr and u :: unit
  show "snd (env s') = snd (env s) \<and> True" if "vt_alloc buf_allo n s = Some (p, s')"
    using that by (auto simp: buf_allo_def buf_alloc_fn_def Let_def option_bind_Some_iff split: if_splits)
  show "snd (env s') = snd (env s) \<and> True" if "vt_free_mem buf_allo p n s = Some (u, s')"
    using that by (auto simp: buf_allo_def buf_free_fn_def buf_contains_fn_def Let_def split: if_splits)
  show "snd (env s') = snd (env s) \<and> True" if "vt_realloc buf_allo p n m s = Some (q, s')"
    using that
    by (auto simp: buf_allo_def buf_realloc_fn_def buf_alloc_fn_def allo_memcpy_def Let_def option_bind_Some_iff
        split: if_splits)
qed

end

interpretation pool_in_buf: block_owner buf_allo "buf_inv A T" "region A T" "2 ^ 63"
  pool_allo "pool_inv B bs N" B "bs * N" "2 ^ 63" F "pool_owner buf_allo"
  for A T B bs N F by (rule buf.pool_owned)

interpretation buf_in_buf: block_owner buf_allo "buf_inv A T" "region A T" "2 ^ 63"
  buf_allo "buf_inv B S" B S "2 ^ 63" F "\<lambda>_. True"
  for A T B S F by (rule buf.buffer_owned)

end
