(* ===== verification/BuddyOver.thy ===== *)
theory BuddyOver
  imports BuddyFactory
begin

text \<open>
  A buddy allocator together with the child that backs it, as one allocator: its invariant says
  both that the buddy allocator is valid and that the child holds the buffer and the metadata for
  it. Used where another allocator sits on top (\<open>src/allo_gen.c\<close> puts pools on it).
\<close>

definition buddy_over ::
  "'e allo \<Rightarrow> ('e machine \<Rightarrow> live_map \<Rightarrow> bool) \<Rightarrow> live_map \<Rightarrow> ptr \<Rightarrow> nat \<Rightarrow> ptr \<Rightarrow> ptr \<Rightarrow> ptr \<Rightarrow>
     'e buddy_machine \<Rightarrow> live_map \<Rightarrow> bool" where
  "buddy_over c cinv G B D fl bs bo s L \<longleftrightarrow> buddy_inv B D fl bs bo s L \<and>
     buddy_backed c cinv G B D fl bs bo s \<and> bd_own_buffer (self_ctx s)"

lemma buddy_overD:
  assumes "buddy_over c cinv G B D fl bs bo s L"
  shows "buddy_inv B D fl bs bo s L" "buddy_backed c cinv G B D fl bs bo s" "bd_own_buffer (self_ctx s)"
    "cinv (child_state s) (buddy_grants True B D fl bs bo G)" "buddy_mem B D fl bs bo"
proof -
  show I: "buddy_inv B D fl bs bo s L" and "buddy_backed c cinv G B D fl bs bo s"
    and o: "bd_own_buffer (self_ctx s)" using assms by (simp_all add: buddy_over_def)
  then show "cinv (child_state s) (buddy_grants True B D fl bs bo G)" by (simp add: buddy_backed_def)
  show "buddy_mem B D fl bs bo" by (rule buddy_geometry [OF I])
qed

text \<open>What the buddy allocator holds is what it owns.\<close>

lemma buddy_grants_at:
  assumes "distinct [B, fl, bs, bo]"
  shows "buddy_grants True B D fl bs bo G B = Some (buf_bytes D)" "buddy_grants True B D fl bs bo G fl = Some (fl_bytes D)"
    "buddy_grants True B D fl bs bo G bs = Some (bs_bytes D)" "buddy_grants True B D fl bs bo G bo = Some (bo_bytes D)"
    "x \<notin> {B, fl, bs, bo} \<Longrightarrow> buddy_grants True B D fl bs bo G x = G x"
  using assms by (auto simp: buddy_grants_def)

lemma buddy_grants_sub:
  assumes d: "distinct [B, fl, bs, bo]" "{B, fl, bs, bo} \<inter> dom G = {}"
  shows "G \<subseteq>\<^sub>m buddy_grants True B D fl bs bo G"
  unfolding map_le_def
proof
  fix q assume "q \<in> dom G"
  then have "q \<notin> {B, fl, bs, bo}" using d(2) by blast
  then show "G q = buddy_grants True B D fl bs bo G q" using buddy_grants_at(5) [OF d(1)] by simp
qed

lemma buddy_over_distinct:
  assumes "buddy_over c cinv G B D fl bs bo s L"
  shows "distinct [B, fl, bs, bo]" "{B, fl, bs, bo} \<inter> dom G = {}" "0 \<notin> {B, fl, bs, bo}"
  using assms by (auto simp: buddy_over_def buddy_backed_def)

context allocator
begin

lemma buddy_over_heap:
  assumes J: "buddy_over a Inv G B D fl bs bo s L"
  shows "buddy_heap B D fl bs bo \<subseteq> live (buddy_grants True B D fl bs bo G)"
    "buddy_heap B D fl bs bo \<inter> live G = {}" "buddy_heap B D fl bs bo \<subseteq> heap"
    "live G \<subseteq> live (buddy_grants True B D fl bs bo G)"
proof -
  let ?M = "buddy_grants True B D fl bs bo G"
  note d = buddy_over_distinct [OF J] and at = buddy_grants_at [OF buddy_over_distinct(1) [OF J], where D = D and G = G]
  note l = live_inv [OF buddy_overD(4) [OF J]]
  show sub: "buddy_heap B D fl bs bo \<subseteq> live ?M"
    using at(1-4) by (auto simp: buddy_heap_def live_def)
  then show "buddy_heap B D fl bs bo \<subseteq> heap" using live_ok_heap [OF l] by blast
  have G: "?M q = Some n" "q \<notin> {B, fl, bs, bo}" if "G q = Some n" for q n
    using that d(2) at(5) [of q] by auto
  then show "live G \<subseteq> live ?M" by (auto simp: live_def)
  have "region p m \<inter> region q n = {}" if "p \<in> {B, fl, bs, bo}" "?M p = Some m" "G q = Some n" for p m q n
    using live_ok_disjoint [OF l that(2) G(1) [OF that(3)]] G(2) [OF that(3)] that(1) by blast
  then show "buddy_heap B D fl bs bo \<inter> live G = {}"
    using at(1-4) unfolding buddy_heap_def live_def by blast
qed

lemma buddy_over_step:
  assumes J: "buddy_over a Inv G B D fl bs bo s L" and I: "buddy_inv B D fl bs bo s' L'"
    and e: "env s' = env s" and k: "\<And>x. x \<notin> buddy_heap B D fl bs bo \<Longrightarrow> mem s' x = mem s x"
  shows "buddy_over a Inv G B D fl bs bo s' L'"
proof -
  have c: "self_ctx s' = self_ctx s" using e by (simp add: self_ctx_def)
  have "Inv (child_state s') (buddy_grants True B D fl bs bo G)"
    by (rule client_write [OF buddy_overD(4) [OF J]]) (use e k buddy_over_heap(1) [OF J] in auto)
  then show ?thesis using J I by (simp add: buddy_over_def buddy_backed_def c)
qed

lemma buddy_over_exact:
  "exact_allocator buddy_allo (buddy_over a Inv G B D fl bs bo) (heap - live G) (2 ^ 63)"
proof unfold_locales
  show "(2 :: nat) ^ 63 \<le> 2 ^ 63" by simp
next
  fix s :: "'e buddy_machine" and L :: live_map and n m :: size_t and p :: ptr
  assume J: "buddy_over a Inv G B D fl bs bo s L"
  note I = buddy_overD(1) [OF J] and g = buddy_overD(5) [OF J]
  note h = buddy_over_heap [OF J]
  have sub: "buddy_heap B D fl bs bo \<subseteq> heap - live G" using h(2,3) by blast
  have km: "kept (heap - live G) K x y" if "kept (buddy_heap B D fl bs bo) K x y" for K x y
    using that sub by (rule kept_mono [OF _ order_refl])
  have out: "y z = x z" if "kept (buddy_heap B D fl bs bo) K x y" "z \<notin> buddy_heap B D fl bs bo" for K x y z
    using that by (simp add: kept_def)
  note step = buddy_over_step [OF J]
  note lb = buddy_mem.buddy_live_ok [OF g I]
  then show "live_ok (heap - live G) L" using sub by (auto simp: live_ok_def)
  show "buddy_over a Inv G B D fl bs bo s' L" if e: "env s' = env s"
    and w: "\<And>x. x \<in> heap - live G \<Longrightarrow> x \<notin> live L \<Longrightarrow> mem s' x = mem s x" for s'
  proof -
    have "buddy_inv B D fl bs bo s' L" using e w sub by (intro buddy_mem.buddy_inv_write [OF g I]) blast+
    moreover have "Inv (child_state s') (buddy_grants True B D fl bs bo G)"
      using e w h(1,4) live_ok_heap [OF lb] by (intro client_write [OF buddy_overD(4) [OF J]]) auto
    ultimately show ?thesis
      using J e by (simp add: buddy_over_def buddy_backed_def self_ctx_def)
  qed
  show "\<exists>p s'. vt_alloc buddy_allo n s = Some (p, s') \<and>
      alloc_post (buddy_over a Inv G B D fl bs bo) (heap - live G) L n s p s'"
    using buddy_mem.buddy_alloc_law [OF g I, of n] step km out
    by (fastforce simp: buddy_allo_def alloc_post_def split: if_splits)
  show "\<exists>q s'. vt_realloc buddy_allo p n m s = Some (q, s') \<and>
      realloc_post (buddy_over a Inv G B D fl bs bo) (heap - live G) L p n m s q s'"
    if "L p = Some n" "m \<noteq> 0"
    using buddy_mem.buddy_realloc_law [OF g I that] step km out
    by (fastforce simp: buddy_allo_def realloc_post_def split: if_splits)
  show "\<exists>s'. vt_free_mem buddy_allo p n s = Some ((), s') \<and>
      free_post (buddy_over a Inv G B D fl bs bo) (heap - live G) L p s s'" if "L p = Some n"
    using buddy_mem.buddy_free_law [OF g I that] step km out
    by (fastforce simp: buddy_allo_def free_post_def)
  show "\<exists>s'. vt_free_mem buddy_allo NULL n s = Some ((), s') \<and> buddy_over a Inv G B D fl bs bo s' L \<and>
      kept (heap - live G) L (mem s) (mem s')"
    using J by (simp add: buddy_allo_def buddy_free_fn_def)
  show "\<exists>r. allo_contains buddy_allo p s = Some (r, s) \<and> (p \<in> dom L \<longrightarrow> r \<noteq> ALLO_CONTAINS_NO) \<and>
      (r = ALLO_CONTAINS_YES \<longrightarrow> p \<in> heap - live G)"
    using buddy.contains_law [OF I, of p] sub by blast
  show "allo_contains buddy_allo p s \<noteq> Some (ALLO_CONTAINS_UNKNOWN, s)"
    by (rule buddy.contains_exact [OF I])
qed

end

end
