(* ===== verification/PageRegistry.thy ===== *)
theory PageRegistry
  imports Page
begin

text \<open>
  The registry of the page allocator as a list of (address, size) pairs: searching, adding,
  replacing and the removal that moves the last entry into the gap.
\<close>

section \<open>Lists of entries\<close>

type_synonym entries = "(ptr \<times> size_t) list"

definition reg_rep :: "memory \<Rightarrow> ptr \<Rightarrow> entries \<Rightarrow> bool" where
  "reg_rep m R es \<longleftrightarrow> (\<forall>i<length es. load64 m (entry R (word_of_nat i)) = fst (es ! i) \<and>
     load64 m (entry R (word_of_nat i) + 8) = snd (es ! i))"

text \<open>The first position whose entry passes a test.\<close>

definition find_pos :: "('a \<Rightarrow> bool) \<Rightarrow> 'a list \<Rightarrow> nat option" where
  "find_pos P xs = (if \<exists>x\<in>set xs. P x then Some (length (takeWhile (\<lambda>x. \<not> P x) xs)) else None)"

lemma find_pos_Some:
  assumes "find_pos P xs = Some i"
  shows "i < length xs" "P (xs ! i)"
proof -
  have "\<exists>x\<in>set xs. P x" and i: "i = length (takeWhile (\<lambda>x. \<not> P x) xs)"
    using assms by (auto simp: find_pos_def split: if_splits)
  then have "\<not> (\<forall>x\<in>set xs. \<not> P x)" by simp
  then have "takeWhile (\<lambda>x. \<not> P x) xs \<noteq> xs" by (metis set_takeWhileD)
  then show l: "i < length xs"
    using i by (metis length_takeWhile_le le_neq_implies_less takeWhile_eq_take take_all_iff order_refl)
  show "P (xs ! i)" using nth_length_takeWhile [of "\<lambda>x. \<not> P x" xs] l i by simp
qed

lemma find_pos_None: "find_pos P xs = None \<longleftrightarrow> (\<forall>x\<in>set xs. \<not> P x)"
  by (simp add: find_pos_def)

text \<open>Removal: the last entry takes the place of the removed one.\<close>

definition swap_remove :: "nat \<Rightarrow> 'a list \<Rightarrow> 'a list" where
  "swap_remove i xs = butlast (xs[i := last xs])"

lemma swap_remove_set:
  assumes "distinct xs" "i < length xs"
  shows "set (swap_remove i xs) = set xs - {xs ! i}" "distinct (swap_remove i xs)"
    "length (swap_remove i xs) = length xs - 1"
proof -
  obtain ys l where xs: "xs = ys @ [l]" using assms(2) by (cases xs rule: rev_cases) auto
  have d: "distinct ys" "l \<notin> set ys" using assms(1) by (auto simp: xs)
  show "length (swap_remove i xs) = length xs - 1" by (simp add: swap_remove_def)
  have "set (swap_remove i xs) = set xs - {xs ! i} \<and> distinct (swap_remove i xs)"
  proof (cases "i < length ys")
    case True
    have r: "swap_remove i xs = ys[i := l]"
      unfolding swap_remove_def xs by (simp add: list_update_append True)
    have st: "set (ys[i := l]) = insert l (set ys - {ys ! i})"
      using d(1) True by (rule set_update_distinct)
    have "ys ! i \<noteq> l" using d(2) nth_mem [OF True] by blast
    moreover have "xs ! i = ys ! i" using True by (simp add: xs nth_append)
    ultimately have "set (swap_remove i xs) = set xs - {xs ! i}"
      unfolding r st using d(2) by (auto simp: xs)
    moreover have "distinct (swap_remove i xs)" unfolding r using d by (intro distinct_list_update) auto
    ultimately show ?thesis by simp
  next
    case False
    then have "i = length ys" using assms(2) by (simp add: xs)
    then have "swap_remove i xs = ys" "xs ! i = l" by (simp_all add: swap_remove_def xs)
    then show ?thesis using d by (auto simp: xs)
  qed
  then show "set (swap_remove i xs) = set xs - {xs ! i}" "distinct (swap_remove i xs)" by simp_all
qed

section \<open>Entries in memory\<close>

text \<open>Room for \<open>c\<close> entries at an aligned address.\<close>

definition reg_room :: "ptr \<Rightarrow> nat \<Rightarrow> bool" where
  "reg_room R c \<longleftrightarrow> 8 dvd unat R \<and> unat R + 16 * c < 2 ^ 64"

lemma unat_entry:
  assumes "reg_room R c" "i < c"
  shows "unat (entry R (word_of_nat i)) = unat R + 16 * i"
    "unat (entry R (word_of_nat i) + 8) = unat R + 16 * i + 8"
proof -
  have nw: "unat R + 16 * i + 16 < 2 ^ 64" using assms by (simp add: reg_room_def)
  then have "unat (word_of_nat i :: size_t) = i" by (intro unat_of_nat64) linarith
  then have "unat (16 * word_of_nat i :: size_t) = 16 * i" using nw by (simp add: unat_mult64)
  then show e: "unat (entry R (word_of_nat i)) = unat R + 16 * i"
    using nw by (simp add: entry_def unat_add64)
  then show "unat (entry R (word_of_nat i) + 8) = unat R + 16 * i + 8"
    using nw by (subst unat_add64) simp_all
qed

lemma entry_aligned:
  assumes "reg_room R c" "i < c"
  shows "8 dvd unat (entry R (word_of_nat i))" "8 dvd unat (entry R (word_of_nat i) + 8)"
  using assms unat_entry [OF assms] by (simp_all add: reg_room_def)

text \<open>Writing an entry.\<close>

definition put_entry :: "ptr \<Rightarrow> nat \<Rightarrow> ptr \<Rightarrow> size_t \<Rightarrow> memory \<Rightarrow> memory" where
  "put_entry R i a n m = store64 (entry R (word_of_nat i) + 8) n (store64 (entry R (word_of_nat i)) a m)"

lemma put_entry_load:
  assumes r: "reg_room R c" "i < c" "j < c"
  shows "load64 (put_entry R i a n m) (entry R (word_of_nat j)) =
      (if j = i then a else load64 m (entry R (word_of_nat j)))"
    "load64 (put_entry R i a n m) (entry R (word_of_nat j) + 8) =
      (if j = i then n else load64 m (entry R (word_of_nat j) + 8))"
proof -
  note al = entry_aligned [OF r(1,2)] entry_aligned [OF r(1,3)]
  note u = unat_entry [OF r(1,2)] unat_entry [OF r(1,3)]
  have ne: "16 * i + 8 \<noteq> 16 * j" "16 * i \<noteq> 16 * j + 8" by presburger+
  have eq: "(entry R (word_of_nat i) = entry R (word_of_nat j)) = (i = j)"
    "entry R (word_of_nat i) + 8 \<noteq> entry R (word_of_nat j)"
    "entry R (word_of_nat i) \<noteq> entry R (word_of_nat j) + 8"
    unfolding word_eq_iff_unat u using ne by auto
  show "load64 (put_entry R i a n m) (entry R (word_of_nat j)) =
      (if j = i then a else load64 m (entry R (word_of_nat j)))"
    "load64 (put_entry R i a n m) (entry R (word_of_nat j) + 8) =
      (if j = i then n else load64 m (entry R (word_of_nat j) + 8))"
    using eq by (auto simp: put_entry_def load64_store64 al)
qed

lemma put_entry_frame:
  assumes r: "reg_room R c" "i < c" and b: "unat b = 16 * c" "x \<notin> region R b"
  shows "put_entry R i a n m x = m x"
proof -
  note u = unat_entry [OF r]
  have nw: "unat R + 16 * i + 16 < 2 ^ 64" using r by (simp add: reg_room_def)
  have "x \<notin> region (entry R (word_of_nat i)) 8" "x \<notin> region (entry R (word_of_nat i) + 8) 8"
    using b r(2) by (auto simp: mem_region u)
  then show ?thesis
    unfolding put_entry_def using nw u by (subst store64_other, simp, simp)+ simp
qed

lemma reg_rep_put:
  assumes R: "reg_rep m R es" and r: "reg_room R c" "length es \<le> c"
  shows "i < length es \<Longrightarrow> reg_rep (put_entry R i a n m) R (es[i := (a, n)])"
    "length es < c \<Longrightarrow> reg_rep (put_entry R (length es) a n m) R (es @ [(a, n)])"
proof -
  show "reg_rep (put_entry R i a n m) R (es[i := (a, n)])" if i: "i < length es"
    unfolding reg_rep_def
  proof (intro allI impI)
    fix j assume j: "j < length (es[i := (a, n)])"
    have "i < c" "j < c" using i j r(2) by simp_all
    then show "load64 (put_entry R i a n m) (entry R (word_of_nat j)) = fst (es[i := (a, n)] ! j) \<and>
        load64 (put_entry R i a n m) (entry R (word_of_nat j) + 8) = snd (es[i := (a, n)] ! j)"
      using R i j by (simp add: put_entry_load [OF r(1)] reg_rep_def nth_list_update)
  qed
  show "reg_rep (put_entry R (length es) a n m) R (es @ [(a, n)])" if l: "length es < c"
    unfolding reg_rep_def
  proof (intro allI impI)
    fix j assume j: "j < length (es @ [(a, n)])"
    then have "j < c" using l by simp
    then show "load64 (put_entry R (length es) a n m) (entry R (word_of_nat j)) = fst ((es @ [(a, n)]) ! j) \<and>
        load64 (put_entry R (length es) a n m) (entry R (word_of_nat j) + 8) = snd ((es @ [(a, n)]) ! j)"
      using R l j by (auto simp: put_entry_load [OF r(1)] reg_rep_def nth_append less_Suc_eq)
  qed
qed

lemma reg_rep_take: "reg_rep m R es \<Longrightarrow> reg_rep m R (take k es)"
  by (simp add: reg_rep_def)

lemma reg_rep_remove:
  assumes R: "reg_rep m R es" and r: "reg_room R c" "length es \<le> c" and i: "i < length es"
  shows "reg_rep (put_entry R i (fst (last es)) (snd (last es)) m) R (swap_remove i es)"
proof -
  have "reg_rep (put_entry R i (fst (last es)) (snd (last es)) m) R (es[i := last es])"
    using reg_rep_put(1) [OF R r i, of "fst (last es)" "snd (last es)"] by simp
  then show ?thesis unfolding swap_remove_def butlast_conv_take by (rule reg_rep_take)
qed

lemma reg_rep_cong:
  assumes R: "reg_rep m R es" and r: "reg_room R c" "length es \<le> c" and b: "unat b = 16 * c"
    and eq: "\<And>x. x \<in> region R b \<Longrightarrow> m' x = m x"
  shows "reg_rep m' R es"
  unfolding reg_rep_def
proof (intro allI impI)
  fix i assume i: "i < length es"
  then have ic: "i < c" using r(2) by simp
  note u = unat_entry [OF r(1) ic]
  have nw: "unat R + 16 * i + 16 < 2 ^ 64" using r ic by (simp add: reg_room_def)
  have "load64 m' (entry R (word_of_nat i)) = load64 m (entry R (word_of_nat i))"
    "load64 m' (entry R (word_of_nat i) + 8) = load64 m (entry R (word_of_nat i) + 8)"
    using nw u ic b by (intro load64_cong eq; auto simp: mem_region)+
  then show "load64 m' (entry R (word_of_nat i)) = fst (es ! i) \<and>
      load64 m' (entry R (word_of_nat i) + 8) = snd (es ! i)"
    using R i by (simp add: reg_rep_def)
qed

section \<open>Searching\<close>

lemma registry_find_from:
  assumes R: "reg_rep m R es" and n: "unat n = length es" and i: "unat i \<le> length es"
  shows "registry_find test m R i n =
    map_option (\<lambda>j. i + word_of_nat j) (find_pos (\<lambda>e. test (fst e) (snd e)) (drop (unat i) es))"
  using i
proof (induction "length es - unat i" arbitrary: i)
  case 0
  then have "\<not> i < n" using n by (simp add: word_less_nat_alt)
  with 0 show ?case by (simp add: registry_find.simps find_pos_def)
next
  case (Suc k)
  then have lt: "unat i < length es" "i < n" using n by (simp_all add: word_less_nat_alt)
  have u: "unat (i + 1) = Suc (unat i)" by (rule unat_Suc64 [OF lt(2)])
  have d: "drop (unat i) es = es ! unat i # drop (Suc (unat i)) es" using lt(1) by (rule Cons_nth_drop_Suc [symmetric])
  have e: "load64 m (entry R i) = fst (es ! unat i)" "load64 m (entry R i + 8) = snd (es ! unat i)"
    using R lt(1) by (auto simp: reg_rep_def dest: spec [of _ "unat i"])
  have IH: "registry_find test m R (i + 1) n = map_option (\<lambda>j. i + 1 + word_of_nat j)
      (find_pos (\<lambda>e. test (fst e) (snd e)) (drop (Suc (unat i)) es))"
    using Suc.hyps(1) [of "i + 1"] Suc.hyps(2) lt u by simp
  show ?case
    unfolding registry_find.simps [of test m R i n] d e IH
    using lt(2) by (auto simp: find_pos_def add.assoc)
qed

lemma registry_find_eq:
  assumes "reg_rep m R es" "unat n = length es"
  shows "registry_find test m R 0 n = map_option word_of_nat (find_pos (\<lambda>e. test (fst e) (snd e)) es)"
  using registry_find_from [OF assms, of 0] by simp

end
