(* ===== verification/PageContract.thy ===== *)
theory PageContract
  imports PageRegistry
begin

text \<open>
  What the page allocator relies on from the operating system, its invariant, and its contract.
\<close>

section \<open>The operating system\<close>

text \<open>
  \<open>OInv s M\<close>: exactly the mappings \<open>M\<close> exist. A system call that fails (\<open>MAP_FAILED\<close>) changes
  nothing; \<open>mmap\<close> gives a page-aligned mapping apart from all others; \<open>mremap\<close> keeps the contents up
  to the smaller length. Lengths are multiples of the page size, a power of two from 16 bytes on.
\<close>

locale os_pages =
  fixes os :: "'e os"
    and OInv :: "'e machine \<Rightarrow> live_map \<Rightarrow> bool"
    and osheap :: "ptr set"
    and k :: nat
  assumes page_k: "4 \<le> k" "k \<le> 32"
    and page_size: "sys_pagesize os = 2 ^ k"
    and os_live: "OInv s M \<Longrightarrow> live_ok osheap M"
    and os_aligned: "OInv s M \<Longrightarrow> M p = Some n \<Longrightarrow> 2 ^ k dvd unat p"
    and os_write: "OInv s M \<Longrightarrow> env s' = env s \<Longrightarrow>
      (\<And>x. x \<in> osheap \<Longrightarrow> x \<notin> live M \<Longrightarrow> mem s' x = mem s x) \<Longrightarrow> OInv s' M"
    and mmap_law: "OInv s M \<Longrightarrow> 2 ^ k dvd unat n \<Longrightarrow> sys_mmap os n s = (p, s') \<Longrightarrow>
      p \<noteq> NULL \<and> alloc_post OInv osheap M n s (if p = MAP_FAILED then NULL else p) s'"
    and munmap_law: "OInv s M \<Longrightarrow> M p = Some n \<Longrightarrow> free_post OInv osheap M p s (snd (sys_munmap os p n s))"
    and mremap_law: "OInv s M \<Longrightarrow> M p = Some n \<Longrightarrow> 2 ^ k dvd unat m \<Longrightarrow> sys_mremap os p n m s = (q, s') \<Longrightarrow>
      q \<noteq> NULL \<and> realloc_post OInv osheap M p n m s (if q = MAP_FAILED then NULL else q) s'"
begin

lemma mmap_cases:
  assumes I: "OInv s M" and n: "2 ^ k dvd unat n"
  obtains (fail) s' where "allo_os_mmap os n s = (NULL, s')" "OInv s' M" "kept osheap M (mem s) (mem s')"
    | (ok) p s' where "allo_os_mmap os n s = (p, s')" "p \<noteq> NULL" "p \<notin> dom M" "OInv s' (M(p \<mapsto> n))"
      "kept osheap M (mem s) (mem s')"
proof -
  obtain p s' where r: "sys_mmap os n s = (p, s')" by (cases "sys_mmap os n s") auto
  note law = mmap_law [OF I n r]
  show thesis
  proof (cases "p = MAP_FAILED")
    case True
    with law r show thesis by (intro fail [of s']) (simp_all add: allo_os_mmap_def alloc_post_def)
  next
    case False
    with law r show thesis by (intro ok [of p s']) (simp_all add: allo_os_mmap_def alloc_post_def)
  qed
qed

lemma munmap_ok:
  assumes I: "OInv s M" and p: "M p = Some n"
  obtains r s' where "allo_os_munmap os p n s = (r, s')" "OInv s' (M(p := None))"
    "kept osheap (M(p := None)) (mem s) (mem s')"
  using munmap_law [OF I p] that [of "fst (sys_munmap os p n s)" "snd (sys_munmap os p n s)"]
  by (simp add: allo_os_munmap_def free_post_def)

lemma mremap_cases:
  assumes I: "OInv s M" and p: "M p = Some n" and m: "2 ^ k dvd unat m"
  obtains (fail) s' where "allo_os_mremap os p n m s = (NULL, s')" "OInv s' M" "kept osheap M (mem s) (mem s')"
    | (ok) q s' where "allo_os_mremap os p n m s = (q, s')" "q \<noteq> NULL" "q = p \<or> q \<notin> dom M"
      "OInv s' (M(p := None, q \<mapsto> m))" "kept osheap (M(p := None)) (mem s) (mem s')"
      "same_bytes (mem s) p (mem s') q (min n m)"
proof -
  obtain q s' where r: "sys_mremap os p n m s = (q, s')" by (cases "sys_mremap os p n m s") auto
  note law = mremap_law [OF I p m r]
  show thesis
  proof (cases "q = MAP_FAILED")
    case True
    with law r show thesis by (intro fail [of s']) (simp_all add: allo_os_mremap_def realloc_post_def)
  next
    case False
    with law r show thesis by (intro ok [of q s']) (simp_all add: allo_os_mremap_def realloc_post_def)
  qed
qed

text \<open>Rounding a size to pages.\<close>

lemma page_round_props:
  assumes "unat n < 2 ^ 63"
  shows "unat n \<le> unat (page_round (2 ^ k) n)" "2 ^ k dvd unat (page_round (2 ^ k) n)"
    "unat (page_round (2 ^ k) n) < unat n + 2 ^ k"
proof -
  have "(2 :: nat) ^ k \<le> 2 ^ 32" using page_k by (intro power_increasing) simp_all
  then have nw: "unat n + 2 ^ k \<le> 2 ^ 64" using assms by simp
  have "page_round (2 ^ k) n = allo_align_up n (2 ^ k)" by (simp add: page_round_def allo_align_up_def)
  then have eq: "unat (page_round (2 ^ k) n) = (unat n + 2 ^ k - 1) div 2 ^ k * 2 ^ k"
    using allo_align_up_pow2 [of k n] page_k nw by simp
  let ?x = "unat n + 2 ^ k - 1"
  have "?x div 2 ^ k * 2 ^ k + ?x mod 2 ^ k = ?x" by (rule div_mult_mod_eq)
  moreover have "?x mod 2 ^ k < 2 ^ k" "0 < (2 :: nat) ^ k" by simp_all
  ultimately show "unat n \<le> unat (page_round (2 ^ k) n)" "unat (page_round (2 ^ k) n) < unat n + 2 ^ k"
    unfolding eq by linarith+
  show "2 ^ k dvd unat (page_round (2 ^ k) n)" unfolding eq by simp
qed

lemma unat_page: "unat (2 ^ k :: size_t) = 2 ^ k"
  using page_k by (intro unat_pow64) simp

end

section \<open>Invariant\<close>

text \<open>\<open>F\<close>: the mappings of others; the rest are the registry and one mapping per entry.\<close>

definition page_maps :: "live_map \<Rightarrow> ptr \<Rightarrow> size_t \<Rightarrow> entries \<Rightarrow> live_map" where
  "page_maps F R c es = (F ++ map_of es)(R \<mapsto> c)"

definition page_ctx_ok :: "nat \<Rightarrow> live_map \<Rightarrow> page_context_t \<Rightarrow> entries \<Rightarrow> bool" where
  "page_ctx_ok k F c es \<longleftrightarrow> pg_page_size c = 2 ^ k \<and> length es = unat (pg_count c) \<and>
     length es \<le> unat (pg_capacity c) \<and> unat (pg_capacity c) * 16 < 2 ^ 63 \<and>
     2 ^ k dvd unat (pg_capacity c) * 16 \<and> distinct (pg_registry c # map fst es) \<and>
     set (pg_registry c # map fst es) \<inter> dom F = {}"

text \<open>The live blocks are the entries, with the sizes that were asked for.\<close>

definition page_used :: "nat \<Rightarrow> entries \<Rightarrow> live_map \<Rightarrow> bool" where
  "page_used k es L \<longleftrightarrow> dom L = fst ` set es \<and>
     (\<forall>p n. L p = Some n \<longrightarrow> n \<noteq> 0 \<and> unat n < 2 ^ 63 \<and> (p, page_round (2 ^ k) n) \<in> set es)"

definition page_rep :: "('e machine \<Rightarrow> live_map \<Rightarrow> bool) \<Rightarrow> nat \<Rightarrow> live_map \<Rightarrow> 'e page_machine \<Rightarrow> entries \<Rightarrow> bool" where
  "page_rep OInv k F s es \<longleftrightarrow> page_ctx_ok k F (self_ctx s) es \<and>
     reg_rep (mem s) (pg_registry (self_ctx s)) es \<and>
     OInv (child_state s) (page_maps F (pg_registry (self_ctx s)) (pg_capacity (self_ctx s) * 16) es)"

definition page_inv ::
  "('e machine \<Rightarrow> live_map \<Rightarrow> bool) \<Rightarrow> nat \<Rightarrow> live_map \<Rightarrow> 'e page_machine \<Rightarrow> live_map \<Rightarrow> bool" where
  "page_inv OInv k F s L \<longleftrightarrow> (\<exists>es. page_rep OInv k F s es \<and> page_used k es L)"

context os_pages
begin

lemma page_repD:
  assumes R: "page_rep OInv k F s es"
  defines "c \<equiv> self_ctx s"
  defines "M \<equiv> page_maps F (pg_registry c) (pg_capacity c * 16) es"
  shows "pg_page_size c = 2 ^ k" "unat (pg_count c) = length es" "length es \<le> unat (pg_capacity c)"
    "unat (pg_capacity c * 16) = 16 * unat (pg_capacity c)" "distinct (map fst es)" "distinct es"
    "pg_registry c \<notin> fst ` set es" "pg_registry c \<notin> dom F" "\<And>x. x \<in> fst ` set es \<Longrightarrow> x \<notin> dom F"
    "reg_rep (mem s) (pg_registry c) es" "OInv (child_state s) M" "M (pg_registry c) = Some (pg_capacity c * 16)"
    "\<And>p n. (p, n) \<in> set es \<Longrightarrow> M p = Some n" "reg_room (pg_registry c) (unat (pg_capacity c))"
    "live_ok osheap M" "2 ^ k dvd unat (pg_capacity c * 16)" "F \<subseteq>\<^sub>m M" "unat (pg_capacity c) * 16 < 2 ^ 63"
proof -
  have ok: "page_ctx_ok k F c es" using R by (simp add: page_rep_def c_def)
  then show f: "pg_page_size c = 2 ^ k" "unat (pg_count c) = length es" "length es \<le> unat (pg_capacity c)"
    "distinct (map fst es)" "pg_registry c \<notin> fst ` set es" "pg_registry c \<notin> dom F"
    "\<And>x. x \<in> fst ` set es \<Longrightarrow> x \<notin> dom F" "unat (pg_capacity c) * 16 < 2 ^ 63"
    unfolding page_ctx_ok_def by auto
  show cap: "unat (pg_capacity c * 16) = 16 * unat (pg_capacity c)"
    using f(8) by (simp add: unat_mult64 mult.commute)
  with ok show "2 ^ k dvd unat (pg_capacity c * 16)" by (simp add: page_ctx_ok_def mult.commute)
  show "distinct es" using f(4) by (simp add: distinct_map)
  show "reg_rep (mem s) (pg_registry c) es" using R by (simp add: page_rep_def c_def)
  show I: "OInv (child_state s) M" using R by (simp add: page_rep_def c_def M_def)
  show at: "M (pg_registry c) = Some (pg_capacity c * 16)" by (simp add: M_def page_maps_def)
  show "M p = Some n" if "(p, n) \<in> set es" for p n
  proof -
    have "p \<noteq> pg_registry c" using that f(5) by force
    moreover have "map_of es p = Some n" using f(4) that by simp
    ultimately show ?thesis by (simp add: M_def page_maps_def)
  qed
  show l: "live_ok osheap M" by (rule os_live [OF I])
  show "reg_room (pg_registry c) (unat (pg_capacity c))"
    using live_okD(1) [OF l at] by (simp add: reg_room_def block_ok_def cap)
  show "F \<subseteq>\<^sub>m M"
    unfolding map_le_def
  proof
    fix a assume a: "a \<in> dom F"
    then have "a \<noteq> pg_registry c" "a \<notin> fst ` set es" using f(6,7) by auto
    then show "F a = M a" by (simp add: M_def page_maps_def map_add_dom_app_simps(3) dom_map_of_conv_image_fst)
  qed
qed

end

end
