(* ===== verification/PageProof.thy ===== *)
theory PageProof
  imports PageContract
begin

text \<open>
  The page allocator against the operating system's laws: what each operation does to the registry
  and to the mappings, and from that the contract.
\<close>

section \<open>Maps of mappings\<close>

lemma map_of_at:
  assumes "distinct (map fst es)" "distinct (map fst es')" "\<And>m. (q, m) \<in> set es' \<longleftrightarrow> (q, m) \<in> set es"
  shows "map_of es' q = map_of es q"
  using assms by (metis map_of_eq_Some_iff option.exhaust)

lemma page_maps_add:
  assumes "p \<notin> fst ` set es" "p \<noteq> R"
  shows "page_maps F R c (es @ [(p, n)]) = (page_maps F R c es)(p \<mapsto> n)"
proof
  have "p \<notin> dom (map_of es)" using assms(1) by (simp add: dom_map_of_conv_image_fst)
  then have "map_of (es @ [(p, n)]) = (map_of es)(p \<mapsto> n)" by (simp add: map_add_upd_left)
  then show "page_maps F R c (es @ [(p, n)]) q = ((page_maps F R c es)(p \<mapsto> n)) q" for q
    using assms(2) by (simp add: page_maps_def)
qed

lemma key_unique: "distinct (map fst es) \<Longrightarrow> (p, n) \<in> set es \<Longrightarrow> (p, m) \<in> set es \<Longrightarrow> m = n"
  by (meson eq_key_imp_eq_value)

lemma page_maps_del:
  assumes d: "distinct (map fst es)" "distinct (map fst es')" and s: "set es' = set es - {(p, n)}"
    and p: "(p, n) \<in> set es" "p \<noteq> R" "p \<notin> dom F"
  shows "page_maps F R c es' = (page_maps F R c es)(p := None)"
proof
  fix q
  show "page_maps F R c es' q = ((page_maps F R c es)(p := None)) q"
  proof (cases "q = p")
    case True
    have "p \<notin> fst ` set es'" using key_unique [OF d(1) p(1)] by (force simp: s)
    then have "map_of es' p = None" by (simp add: map_of_eq_None_iff)
    then show ?thesis using True p by (simp add: page_maps_def map_add_def domIff)
  next
    case False
    then have "map_of es' q = map_of es q" using d by (intro map_of_at) (auto simp: s)
    then show ?thesis using False by (simp add: page_maps_def map_add_def)
  qed
qed

lemma page_maps_move:
  assumes d: "distinct (map fst es)" and i: "i < length es" "es ! i = (p, n)"
    and p: "p \<noteq> R" "p \<notin> dom F" and q: "q = p \<or> q \<notin> fst ` set es" "q \<noteq> R"
  shows "distinct (map fst (es[i := (q, m)]))"
    "set (es[i := (q, m)]) = insert (q, m) (set es - {(p, n)})"
    "page_maps F R c (es[i := (q, m)]) = (page_maps F R c es)(p := None, q \<mapsto> m)"
proof -
  have mem: "(p, n) \<in> set es" using i by (metis nth_mem)
  show s: "set (es[i := (q, m)]) = insert (q, m) (set es - {(p, n)})"
    using set_update_distinct [of es i "(q, m)"] d i by (simp add: distinct_map)
  have "distinct ((map fst es)[i := q])"
    using q(1) i by (intro distinct_list_update [OF d]) auto
  then show d': "distinct (map fst (es[i := (q, m)]))" by (simp add: map_update)
  show "page_maps F R c (es[i := (q, m)]) = (page_maps F R c es)(p := None, q \<mapsto> m)"
  proof
    fix x
    consider "x = q" | "x \<noteq> q" "x = p" | "x \<noteq> q" "x \<noteq> p" by blast
    then show "page_maps F R c (es[i := (q, m)]) x = ((page_maps F R c es)(p := None, q \<mapsto> m)) x"
    proof cases
      case 1
      have "map_of (es[i := (q, m)]) q = Some m" using d' by (intro map_of_is_SomeI) (simp_all add: s)
      then show ?thesis using 1 q by (simp add: page_maps_def)
    next
      case 2
      have "p \<notin> fst ` set (es[i := (q, m)])" using key_unique [OF d mem] 2 by (force simp: s)
      then have "map_of (es[i := (q, m)]) p = None" by (simp add: map_of_eq_None_iff)
      then show ?thesis using 2 p by (simp add: page_maps_def map_add_def domIff)
    next
      case 3
      then have "map_of (es[i := (q, m)]) x = map_of es x" using d d' by (intro map_of_at) (auto simp: s)
      then show ?thesis using 3 by (simp add: page_maps_def map_add_def)
    qed
  qed
qed

section \<open>Moving the registry\<close>

lemma load64_move:
  assumes "\<And>j. j < 8 \<Longrightarrow> m' (q + j) = m (p + j)"
  shows "load64 m' q = load64 m p"
  using assms [of 0] assms [of 1] assms [of 2] assms [of 3] assms [of 4] assms [of 5] assms [of 6] assms [of 7]
  by (simp add: load64_def)

lemma reg_rep_move:
  assumes R: "reg_rep m R es" and c: "length es \<le> c" "unat b = 16 * c" and sb: "same_bytes m R m' R' b"
  shows "reg_rep m' R' es"
  unfolding reg_rep_def
proof (intro allI impI)
  fix i assume i: "i < length es"
  have ui: "unat (word_of_nat i :: size_t) = i" using i c unat64_less [of b] by (intro unat_of_nat64) simp
  have u16: "unat (16 * word_of_nat i :: size_t) = 16 * i"
    using i c unat64_less [of b] by (subst unat_mult64) (simp_all add: ui)
  have off: "16 * word_of_nat i + (d + j) < b" if "j < 8" "unat d \<le> 8" for d j
  proof -
    have j: "unat j < 8" using that(1) by (simp add: word_less_nat_alt)
    then have "unat (d + j) = unat d + unat j" using that(2) by (intro unat_add64) simp
    moreover have "16 * i + (unat d + unat j) < 2 ^ 64"
      by (rule le_less_trans [of _ "unat b"]) (use i c j that(2) in linarith, simp)
    ultimately have "unat (16 * word_of_nat i + (d + j)) = 16 * i + (unat d + unat j)"
      by (subst unat_add64) (simp_all add: u16)
    then show ?thesis using j that(2) i c by (simp add: word_less_nat_alt)
  qed
  have "load64 m' (entry R' (word_of_nat i) + d) = load64 m (entry R (word_of_nat i) + d)" if "unat d \<le> 8" for d
    using sb off [OF _ that] unfolding same_bytes_def entry_def by (intro load64_move) (simp add: add.assoc)
  from this [of 0] this [of 8]
  show "load64 m' (entry R' (word_of_nat i)) = fst (es ! i) \<and>
      load64 m' (entry R' (word_of_nat i) + 8) = snd (es ! i)"
    using R i by (simp add: reg_rep_def)
qed

section \<open>The registry in its mapping\<close>

text \<open>All mappings but the registry's.\<close>

abbreviation page_blocks :: "live_map \<Rightarrow> entries \<Rightarrow> live_map" where
  "page_blocks F es \<equiv> F ++ map_of es"

context os_pages
begin

lemma pow_k: "(2 :: nat) ^ k \<le> 2 ^ 32" "16 dvd (2 :: nat) ^ k" "(16 :: nat) \<le> 2 ^ k"
proof -
  show "(2 :: nat) ^ k \<le> 2 ^ 32" using page_k by (intro power_increasing) simp_all
  show d: "16 dvd (2 :: nat) ^ k" using le_imp_power_dvd [OF page_k(1), of "2 :: nat"] by simp
  show "(16 :: nat) \<le> 2 ^ k" using d by (rule dvd_imp_le) simp
qed

lemma page_blocks_eq:
  assumes "R \<notin> fst ` set es" "R \<notin> dom F"
  shows "(page_maps F R c es)(R := None) = page_blocks F es" "page_blocks F es \<subseteq>\<^sub>m page_maps F R c es"
proof -
  have "R \<notin> dom (page_blocks F es)" using assms by (simp add: dom_map_of_conv_image_fst)
  then show "(page_maps F R c es)(R := None) = page_blocks F es"
    "page_blocks F es \<subseteq>\<^sub>m page_maps F R c es"
    by (auto simp: page_maps_def fun_eq_iff map_le_def domIff)
qed

lemma entry_foreign: "page_rep OInv k F s es \<Longrightarrow> (a, b) \<in> set es \<Longrightarrow> F a = None"
  using page_repD(9) [of F s es a] by (force simp: domIff)

lemma reg_kept:
  assumes R: "page_rep OInv k F s es" and M: "M' (pg_registry (self_ctx s)) = Some (pg_capacity (self_ctx s) * 16)"
    and k: "kept osheap M' (mem s) m'"
  shows "reg_rep m' (pg_registry (self_ctx s)) es"
proof (rule reg_rep_cong)
  show "m' x = mem s x" if "x \<in> region (pg_registry (self_ctx s)) (pg_capacity (self_ctx s) * 16)" for x
    using k liveI [of M', OF M that] by (simp add: kept_def)
qed (rule page_repD [OF R])+

lemma reg_kept_maps:
  assumes R: "page_rep OInv k F s es"
    and k: "kept osheap (page_maps F (pg_registry (self_ctx s)) (pg_capacity (self_ctx s) * 16) es) (mem s) m'"
  shows "reg_rep m' (pg_registry (self_ctx s)) es"
  by (rule reg_kept [OF R _ k]) (rule page_repD(12) [OF R])

text \<open>Writes into the registry's mapping.\<close>

lemma page_write:
  assumes I: "OInv t M" and M: "M R = Some b" and e: "env t' = env t"
    and out: "\<And>x. x \<notin> region R b \<Longrightarrow> mem t' x = mem t x"
  shows "OInv t' M"
  using I e
proof (rule os_write)
  fix x assume "x \<notin> live M"
  then show "mem t' x = mem t x" using liveI [of M, OF M] by (intro out) blast
qed

lemma put_entry_outside:
  assumes "reg_room R c" "i < c" "unat b = 16 * c" "x \<notin> region R b"
  shows "mem (wr64 (entry R (word_of_nat i) + 8) n (wr64 (entry R (word_of_nat i)) a s)) x = mem s x"
  using put_entry_frame [OF assms] by (simp add: put_entry_def)

lemma ensure_cases:
  assumes R: "page_rep OInv k F s es"
  obtains (fail) s' where "registry_ensure_capacity os s = (False, s')" "page_rep OInv k F s' es"
      "kept osheap (page_blocks F es) (mem s) (mem s')"
    | (ok) s' where "registry_ensure_capacity os s = (True, s')" "page_rep OInv k F s' es"
      "kept osheap (page_blocks F es) (mem s) (mem s')" "length es < unat (pg_capacity (self_ctx s'))"
proof (cases "pg_count (self_ctx s) = pg_capacity (self_ctx s)")
  case False
  then have "length es < unat (pg_capacity (self_ctx s))"
    using page_repD(2,3) [OF R] by (metis le_neq_implies_less word_unat_eq_iff)
  with False R show thesis by (intro ok [of s]) (simp_all add: registry_ensure_capacity_def)
next
  case True
  note D = page_repD [OF R]
  define c where "c = self_ctx s"
  define new where "new = pg_capacity c * 16 + 2 ^ k"
  let ?M = "page_maps F (pg_registry c) (pg_capacity c * 16) es"
  note B = page_blocks_eq [OF D(7,8), of "pg_capacity c * 16"]
  have uo: "unat (pg_capacity c * 16) = 16 * unat (pg_capacity c)" using D(4) by (simp add: c_def)
  have un: "unat new = 16 * unat (pg_capacity c) + 2 ^ k"
    unfolding new_def using D(18) pow_k(1) by (subst unat_add64) (simp_all add: uo [unfolded c_def] unat_page c_def)
  have dn: "2 ^ k dvd unat new"
    using D(16) unfolding un by (simp add: uo [unfolded c_def] c_def)
  have eq: "registry_ensure_capacity os s =
      (let (new_reg, s') = os_call (allo_os_mremap os (pg_registry c) (pg_capacity c * 16) new) s
       in if new_reg = NULL then (False, s')
          else (True, set_ctx (c\<lparr>pg_registry := new_reg, pg_capacity := new div 16\<rparr>) s'))"
    unfolding new_def c_def using True D(1) by (simp add: registry_ensure_capacity_def Let_def)
  have keepb: "kept osheap ?M m m' \<Longrightarrow> kept osheap (page_blocks F es) m m'" for m m'
    by (erule kept_mono) (use B(2) in \<open>simp_all add: live_mono c_def\<close>)
  show thesis
  proof (cases rule: mremap_cases [OF D(11) D(12) dn, folded c_def])
    case (1 t)
    have "page_rep OInv k F (with_child c t) es"
      using R 1 reg_kept_maps [OF R, of "mem t"] by (simp add: page_rep_def c_def)
    then show thesis using 1 by (intro fail [of "with_child c t"]) (simp_all add: eq os_call_def c_def keepb [unfolded c_def])
  next
    case (2 q t)
    define c' where "c' = c\<lparr>pg_registry := q, pg_capacity := new div 16\<rparr>"
    define s' where "s' = set_ctx c' (with_child c t)"
    have mb: "?M(pg_registry c := None) = page_blocks F es" using B(1) by (simp add: c_def)
    have q: "q \<notin> dom (page_blocks F es)"
      using 2(3) mb by (metis domIff fun_upd_apply)
    then have q': "q \<notin> fst ` set es" "q \<notin> dom F" by (auto simp: dom_map_of_conv_image_fst)
    have M': "page_maps F q new es = (page_blocks F es)(q \<mapsto> new)" by (simp add: page_maps_def)
    have OI: "OInv t (page_maps F q new es)" using 2(4) unfolding M' mb .
    have at: "page_maps F q new es q = Some new" by (simp add: M')
    have bn: "block_ok q new" by (rule live_okD(1) [OF os_live [OF OI] at])
    then have n63: "unat new < 2 ^ 63" by (simp add: block_ok_def size_ok_def)
    have d16: "16 dvd unat new" using dn pow_k(2) by (rule dvd_trans [rotated])
    have uc: "unat (new div 16) * 16 = unat new" using d16 by (simp add: unat_div)
    have cap: "new div 16 * 16 = new" using uc by (simp add: word_eq_iff_unat unat_mult64)
    have big: "length es < unat (new div 16)"
    proof -
      have "16 * length es < 16 * unat (new div 16)" using uc un D(3) pow_k(3) by (simp add: c_def)
      then show ?thesis by simp
    qed
    have reg: "reg_rep (mem t) q es"
    proof (rule reg_rep_move [of _ "pg_registry c" _ "unat (pg_capacity c)" "pg_capacity c * 16"])
      have "unat (pg_capacity c * 16) \<le> unat new" by (simp add: uo un)
      then have "min (pg_capacity c * 16) new = pg_capacity c * 16" by (simp add: min_def word_le_nat_alt)
      then show "same_bytes (mem s) (pg_registry c) (mem t) q (pg_capacity c * 16)" using 2(6) by simp
    qed (use D in \<open>simp_all add: c_def\<close>)
    have "page_ctx_ok k F c' es"
      using D(1,2,5) big n63 uc dn q' entry_foreign [OF R] by (auto simp: page_ctx_ok_def c'_def c_def)
    then have "page_rep OInv k F s' es"
      using reg OI cap by (simp add: page_rep_def s'_def c'_def)
    moreover have "kept osheap (page_blocks F es) (mem s) (mem s')" using 2(5) mb by (simp add: s'_def)
    moreover have "registry_ensure_capacity os s = (True, s')"
      using 2(1,2) by (simp add: eq os_call_def s'_def c'_def flip: c_def)
    moreover have "length es < unat (pg_capacity (self_ctx s'))" using big by (simp add: s'_def c'_def)
    ultimately show thesis by (blast intro: ok)
  qed
qed

text \<open>Adding an entry for a new mapping; removing one.\<close>

lemma registry_add_ok:
  assumes R: "page_rep OInv k F s es" and lt: "length es < unat (pg_capacity (self_ctx s))"
  defines "R \<equiv> pg_registry (self_ctx s)" and "b \<equiv> pg_capacity (self_ctx s) * 16"
  assumes I: "OInv t ((page_maps F R b es)(p \<mapsto> r))" and p: "p \<notin> dom (page_maps F R b es)"
    and kt: "kept osheap (page_maps F R b es) (mem s) (mem t)"
  shows "page_rep OInv k F (registry_add p r (with_child (self_ctx s) t)) (es @ [(p, r)])"
    "x \<notin> region R b \<Longrightarrow> mem (registry_add p r (with_child (self_ctx s) t)) x = mem t x"
proof -
  note D = page_repD [OF R, folded R_def b_def]
  have at: "page_maps F R b es R = Some b" by (rule D(12))
  have pR: "p \<noteq> R" using p at by auto
  have pe: "p \<notin> fst ` set es" using p D(13) by (force simp: domIff)
  have pF: "p \<notin> dom F" using p map_le_implies_dom_le [OF D(17)] by blast
  define c where "c = self_ctx s"
  define s1 where "s1 = with_child c t"
  define s2 where "s2 = wr64 (entry R (word_of_nat (length es)) + 8) r (wr64 (entry R (word_of_nat (length es))) p s1)"
  have cnt: "pg_count c = word_of_nat (length es)" by (simp add: c_def flip: D(2))
  have eq: "registry_add p r s1 = set_ctx (c\<lparr>pg_count := pg_count c + 1\<rparr>) s2"
    by (simp add: registry_add_def s2_def s1_def R_def cnt Let_def flip: c_def)
  have m2: "mem s2 = put_entry R (length es) p r (mem t)" by (simp add: s2_def s1_def put_entry_def)
  have out: "mem s2 x = mem t x" if "x \<notin> region R b" for x
    unfolding m2 using D(4) lt that by (intro put_entry_frame [OF D(14)]) (simp_all add: b_def)
  then show "x \<notin> region R b \<Longrightarrow> mem (registry_add p r (with_child (self_ctx s) t)) x = mem t x"
    using eq by (simp add: s1_def c_def)
  have reg: "reg_rep (mem s2) R (es @ [(p, r)])"
    unfolding m2 using reg_kept_maps [OF R, of "mem t"] kt lt
    by (intro reg_rep_put(2) [OF _ D(14)]) (simp_all add: R_def b_def)
  have "OInv (child_state s2) ((page_maps F R b es)(p \<mapsto> r))"
    using I
  proof (rule page_write)
    show "((page_maps F R b es)(p \<mapsto> r)) R = Some b" using at pR by simp
    show "env (child_state s2) = env t" by (simp add: s2_def s1_def)
  qed (simp add: out)
  then have "OInv (child_state s2) (page_maps F R b (es @ [(p, r)]))"
    by (simp add: page_maps_add [OF pe pR])
  moreover have "unat (pg_count c + 1) = Suc (length es)"
    using D(2) lt unat_Suc64 [of "pg_count c" "pg_capacity c"] by (simp add: c_def word_less_nat_alt)
  moreover have "page_ctx_ok k F c es" using R by (simp add: page_rep_def c_def)
  ultimately show "page_rep OInv k F (registry_add p r (with_child (self_ctx s) t)) (es @ [(p, r)])"
    using reg lt pR pe pF eq by (simp add: page_rep_def page_ctx_ok_def R_def b_def s1_def c_def)
qed

lemma find_entry:
  assumes R: "page_rep OInv k F s es" and e: "(p, n) \<in> set es" and m: "reg_rep m (pg_registry (self_ctx s)) es"
  obtains i where "i < length es" "es ! i = (p, n)"
    "registry_find (\<lambda>a _. a = p) m (pg_registry (self_ctx s)) 0 (pg_count (self_ctx s)) = Some (word_of_nat i)"
proof -
  obtain i where f: "find_pos (\<lambda>x. fst x = p) es = Some i"
    using e by (cases "find_pos (\<lambda>x. fst x = p) es") (auto simp: find_pos_None)
  have i: "i < length es" "fst (es ! i) = p" using find_pos_Some [OF f] by simp_all
  moreover have "es ! i = (p, n)"
    using key_unique [OF page_repD(5) [OF R] e, of "snd (es ! i)"] i nth_mem [OF i(1)] by (metis prod.collapse)
  ultimately show thesis
    using that [of i] registry_find_eq [OF m page_repD(2) [OF R], of "\<lambda>a _. a = p"] f by simp
qed

lemma registry_remove_ok:
  assumes R: "page_rep OInv k F s es" and e: "(p, n) \<in> set es"
  defines "R \<equiv> pg_registry (self_ctx s)" and "b \<equiv> pg_capacity (self_ctx s) * 16"
  obtains s' es' where "registry_remove p s = s'" "OInv (child_state s') (page_maps F R b es)"
    "set es' = set es - {(p, n)}" "distinct (map fst es')" "reg_rep (mem s') R es'"
    "page_ctx_ok k F (self_ctx s') es'" "\<forall>x. x \<notin> region R b \<longrightarrow> mem s' x = mem s x"
    "pg_registry (self_ctx s') = R" "pg_capacity (self_ctx s') * 16 = b" "pg_page_size (self_ctx s') = 2 ^ k"
proof -
  note D = page_repD [OF R, folded R_def b_def]
  define c where "c = self_ctx s"
  obtain i where i: "i < length es" and ei: "es ! i = (p, n)"
    and fd: "registry_find (\<lambda>a _. a = p) (mem s) R 0 (pg_count c) = Some (word_of_nat i)"
    using D(10) by (elim find_entry [OF R e, of "mem s", folded R_def c_def])
  have ne: "es \<noteq> []" using i by auto
  define j where "j = length es - 1"
  have j: "j < length es" "last es = es ! j" using ne by (simp_all add: j_def last_conv_nth)
  have cw: "pg_count c - 1 = word_of_nat j"
  proof -
    have "unat (pg_count c) = length es" using D(2) by (simp add: c_def)
    then have "unat (pg_count c - 1) = j" using ne by (subst unat_pred64) (auto simp: j_def)
    then show ?thesis by (simp flip: \<open>unat (pg_count c - 1) = j\<close>)
  qed
  define s' where "s' = set_ctx (c\<lparr>pg_count := word_of_nat j\<rparr>)
    (wr64 (entry R (word_of_nat i) + 8) (snd (last es)) (wr64 (entry R (word_of_nat i)) (fst (last es)) s))"
  have ld: "rd64 s (entry R (word_of_nat j)) = fst (last es)" "rd64 s (entry R (word_of_nat j) + 8) = snd (last es)"
    using D(10) j by (simp_all add: reg_rep_def rd64_def)
  have eq: "registry_remove p s = s'"
    using ld cw fd by (simp add: registry_remove_def s'_def Let_def c_def R_def)
  have m: "mem s' = put_entry R i (fst (last es)) (snd (last es)) (mem s)"
    by (simp add: s'_def put_entry_def)
  have out: "mem s' x = mem s x" if "x \<notin> region R b" for x
    unfolding m using D(3,4) i that by (intro put_entry_frame [OF D(14)]) (simp_all add: b_def)
  have OI: "OInv (child_state s') (page_maps F R b es)"
  proof (rule page_write)
    show "OInv (child_state s) (page_maps F R b es)" by (rule D(11))
    show "page_maps F R b es R = Some b" by (rule D(12))
    show "env (child_state s') = env (child_state s)" by (simp add: s'_def)
  qed (simp add: out)
  note sw = swap_remove_set [OF D(6) i, unfolded ei]
  have dk: "distinct (map fst (swap_remove i es))"
    using sw(1,2) D(5) by (auto simp: distinct_map intro: inj_on_subset)
  have "unat (word_of_nat j :: size_t) = j"
    using j(1) D(3) by (intro unat_of_nat64 le_less_trans [of j "unat (pg_capacity (self_ctx s))"]) simp_all
  then have "page_ctx_ok k F (self_ctx s') (swap_remove i es)"
    using R sw dk by (auto simp: page_rep_def page_ctx_ok_def s'_def c_def j_def)
  then show thesis
    using reg_rep_remove [OF D(10) D(14) D(3) i] eq OI sw(1) dk out
    by (intro that [of s' "swap_remove i es"]) (simp_all add: m, simp_all add: s'_def c_def R_def b_def D(1) page_repD(1) [OF R])
qed

section \<open>Live blocks and mappings\<close>

lemma live_le:
  assumes "\<And>q n. L q = Some n \<Longrightarrow> \<exists>r. M q = Some r \<and> unat n \<le> unat r"
  shows "live L \<subseteq> live M"
proof
  fix x assume "x \<in> live L"
  then obtain q n where q: "L q = Some n" "x \<in> region q n" by (rule liveE)
  obtain r where "M q = Some r" "unat n \<le> unat r" using assms [OF q(1)] by blast
  then show "x \<in> live M" using q(2) region_mono [of n r q] by (intro liveI [of M q r]) auto
qed

lemma page_rep_same:
  assumes R: "page_rep OInv k F s es" and m: "mem s' = mem s" and e: "env s' = env s"
  shows "page_rep OInv k F s' es"
proof -
  have c: "self_ctx s' = self_ctx s" using e by (simp add: self_ctx_def)
  have "OInv (child_state s') (page_maps F (pg_registry (self_ctx s)) (pg_capacity (self_ctx s) * 16) es)"
    by (rule os_write [OF page_repD(11) [OF R]]) (simp_all add: m e)
  then show ?thesis using R by (simp add: page_rep_def c m)
qed

lemma page_liveD:
  assumes R: "page_rep OInv k F s es" and U: "page_used k es L" and p: "L p = Some n"
  shows "n \<noteq> 0" "unat n < 2 ^ 63" "(p, page_round (2 ^ k) n) \<in> set es" "unat n \<le> unat (page_round (2 ^ k) n)"
    "page_maps F (pg_registry (self_ctx s)) (pg_capacity (self_ctx s) * 16) es p = Some (page_round (2 ^ k) n)"
    "page_blocks F es p = Some (page_round (2 ^ k) n)" "block_ok p n" "region p n \<subseteq> osheap"
proof -
  show u: "n \<noteq> 0" "unat n < 2 ^ 63" "(p, page_round (2 ^ k) n) \<in> set es"
    using U p unfolding page_used_def by blast+
  show le: "unat n \<le> unat (page_round (2 ^ k) n)" using page_round_props(1) [OF u(2)] .
  show M: "page_maps F (pg_registry (self_ctx s)) (pg_capacity (self_ctx s) * 16) es p = Some (page_round (2 ^ k) n)"
    by (rule page_repD(13) [OF R u(3)])
  show "page_blocks F es p = Some (page_round (2 ^ k) n)"
    using page_repD(5) [OF R] u(3) by (simp add: map_add_def)
  have b: "block_ok p (page_round (2 ^ k) n)" "region p (page_round (2 ^ k) n) \<subseteq> osheap"
    using live_okD [OF page_repD(15) [OF R] M] by simp_all
  then show "block_ok p n" using u le by (auto simp: block_ok_def size_ok_def)
  show "region p n \<subseteq> osheap" using region_mono [OF le, of p] b(2) by blast
qed

lemma page_blocks_live:
  assumes R: "page_rep OInv k F s es" and U: "page_used k es L"
  shows "live L \<subseteq> live (page_blocks F es)" "live F \<subseteq> live (page_blocks F es)"
proof -
  show "live L \<subseteq> live (page_blocks F es)"
    using page_liveD(4,6) [OF R U] by (intro live_le) blast
  have "page_blocks F es q = Some n" if q: "F q = Some n" for q n
  proof -
    have "q \<notin> dom (map_of es)" using page_repD(9) [OF R, of q] q by (auto simp: dom_map_of_conv_image_fst)
    with q show ?thesis by (simp add: map_add_dom_app_simps)
  qed
  then show "live F \<subseteq> live (page_blocks F es)" by (intro live_le) blast
qed

lemma page_kept:
  assumes "page_rep OInv k F s es" "page_used k es L" "kept osheap (page_blocks F es) m m'"
  shows "kept (osheap - live F) L m m'"
  using assms(3) page_blocks_live [OF assms(1,2)] by (auto simp: kept_def)

lemma page_live_ok:
  assumes R: "page_rep OInv k F s es" and U: "page_used k es L"
  shows "live_ok (osheap - live F) L"
proof -
  note M = page_repD(15) [OF R]
  have in_os: "block_ok p n \<and> region p n \<subseteq> osheap - live F" if p: "L p = Some n" for p n
  proof -
    note D = page_liveD [OF R U p]
    have "p \<notin> dom F" using page_repD(9) [OF R, of p] D(3) by force
    have "region p n \<inter> region q m = {}" if q: "F q = Some m" for q m
    proof -
      have "page_maps F (pg_registry (self_ctx s)) (pg_capacity (self_ctx s) * 16) es q = Some m"
        using page_repD(17) [OF R] q by (auto simp: map_le_def dest: bspec [of _ _ q])
      then have "region p (page_round (2 ^ k) n) \<inter> region q m = {}"
        using live_ok_disjoint [OF M D(5)] q \<open>p \<notin> dom F\<close> by blast
      then show ?thesis using region_mono [OF D(4), of p] by blast
    qed
    then have "region p n \<inter> live F = {}" by (auto simp: live_def)
    then show ?thesis using D(7,8) by blast
  qed
  have "region p n \<inter> region q m = {}" if p: "L p = Some n" and q: "L q = Some m" and ne: "p \<noteq> q" for p n q m
  proof -
    note D = page_liveD [OF R U p] page_liveD [OF R U q]
    have "region p (page_round (2 ^ k) n) \<inter> region q (page_round (2 ^ k) m) = {}"
      by (rule live_ok_disjoint [OF M D(5) D(13) ne])
    then show ?thesis using region_mono [OF D(4), of p] region_mono [OF D(12), of q] by blast
  qed
  with in_os show ?thesis unfolding live_ok_def by blast
qed

lemma page_client_write:
  assumes R: "page_rep OInv k F s es" and U: "page_used k es L" and e: "env s' = env s"
    and out: "\<And>x. x \<in> osheap - live F \<Longrightarrow> x \<notin> live L \<Longrightarrow> mem s' x = mem s x"
  shows "page_rep OInv k F s' es"
proof -
  note D = page_repD [OF R]
  let ?R = "pg_registry (self_ctx s)" and ?b = "pg_capacity (self_ctx s) * 16"
  let ?M = "page_maps F ?R ?b es"
  note B = page_blocks_eq [OF D(7,8), of ?b]
  have subs: "live L \<subseteq> live ?M" "live F \<subseteq> live ?M"
    using page_blocks_live [OF R U] live_mono [OF B(2)] by blast+
  have c: "self_ctx s' = self_ctx s" using e by (simp add: self_ctx_def)
  have sep: "region ?R ?b \<inter> live (page_blocks F es) = {}"
    using live_del_disjoint [OF D(15) D(12)] B(1) by simp
  have "reg_rep (mem s') ?R es"
  proof (rule reg_rep_cong [OF D(10) D(14) D(3) D(4)])
    fix x assume x: "x \<in> region ?R ?b"
    then have "x \<in> osheap" using live_okD(2) [OF D(15) D(12)] by blast
    then show "mem s' x = mem s x" using sep x page_blocks_live [OF R U] by (intro out) blast+
  qed
  moreover have "OInv (child_state s') ?M"
    using subs by (intro os_write [OF D(11)]) (auto simp: e intro: out)
  ultimately show ?thesis using R by (simp add: page_rep_def c)
qed

section \<open>The operations\<close>

lemma reg_write_kept:
  assumes R: "page_rep OInv k F s es" and r: "pg_registry (self_ctx s) = R" "pg_capacity (self_ctx s) * 16 = b"
    and out: "\<And>x. x \<notin> region R b \<Longrightarrow> m' x = m x"
  shows "kept osheap (page_blocks F es) m m'"
proof -
  note D = page_repD [OF R]
  have "region R b \<inter> live (page_blocks F es) = {}"
    using live_del_disjoint [OF D(15) D(12)] page_blocks_eq(1) [OF D(7,8)] r by simp
  then show ?thesis using live_okD(2) [OF D(15) D(12)] out r by (intro kept_write) auto
qed

lemma maps_kept:
  assumes R: "page_rep OInv k F s es" and r: "pg_registry (self_ctx s) = R"
    and k: "kept osheap (page_maps F R b es) m m'"
  shows "kept osheap (page_blocks F es) m m'"
  using k live_mono [OF page_blocks_eq(2) [OF page_repD(7,8) [OF R]], of b] r by (auto simp: kept_def)

lemma page_used_add:
  assumes U: "page_used k es L" and p: "p \<notin> fst ` set es" and n: "n \<noteq> 0" "unat n < 2 ^ 63"
  shows "page_used k (es @ [(p, page_round (2 ^ k) n)]) (L(p \<mapsto> n))"
  using U n by (auto simp: page_used_def)

lemma page_used_del:
  assumes U: "page_used k es L" and d: "distinct (map fst es)" and s: "set es' = set es - {(p, r)}" and p: "(p, r) \<in> set es"
  shows "page_used k es' (L(p := None))"
proof -
  have "fst ` set es' = fst ` set es - {p}" using key_unique [OF d p] by (force simp: s image_iff)
  then show ?thesis using U unfolding page_used_def by (auto simp: s)
qed

lemma page_alloc_law:
  assumes J: "page_inv OInv k F s L" and n: "unat n < 2 ^ 63"
  shows "\<exists>p s'. page_alloc_fn os n s = Some (p, s') \<and>
    alloc_post (page_inv OInv k F) (osheap - live F) L n s p s'"
proof -
  obtain es where R: "page_rep OInv k F s es" and U: "page_used k es L"
    using J by (auto simp: page_inv_def)
  show ?thesis
  proof (cases "n = 0")
    case True
    with J show ?thesis by (simp add: page_alloc_fn_def alloc_post_def)
  next
    case nz: False
    show ?thesis
    proof (cases rule: ensure_cases [OF R])
      case (1 s1)
      then show ?thesis using nz page_kept [OF R U 1(3)] U
        by (auto simp: page_alloc_fn_def alloc_post_def page_inv_def)
    next
      case (2 s1)
      note D = page_repD [OF 2(2)]
      define r where "r = page_round (2 ^ k) n"
      let ?M = "page_maps F (pg_registry (self_ctx s1)) (pg_capacity (self_ctx s1) * 16) es"
      have dr: "2 ^ k dvd unat r" using page_round_props(2) [OF n] by (simp add: r_def)
      note keepb = maps_kept [OF 2(2) refl]
      show ?thesis
      proof (cases rule: mmap_cases [OF D(11) dr])
        case (1 t)
        have "page_rep OInv k F (with_child (self_ctx s1) t) es"
          using 2(2) 1(2) reg_kept_maps [OF 2(2), of "mem t"] 1(3) by (simp add: page_rep_def)
        moreover have "kept (osheap - live F) L (mem s) (mem t)"
          using kept_trans [OF 2(3), of "mem t"] keepb [OF 1(3)] by (intro page_kept [OF R U]) simp
        moreover have "page_alloc_fn os n s = Some (NULL, with_child (self_ctx s1) t)"
          using nz 2(1) 1(1) D(1) by (simp add: page_alloc_fn_def os_call_def r_def)
        ultimately show ?thesis using U by (auto simp: alloc_post_def page_inv_def)
      next
        case m: (2 p t)
        define s3 where "s3 = registry_add p r (with_child (self_ctx s1) t)"
        have kt: "kept osheap ?M (mem s1) (mem t)" using m(5) by simp
        note add = registry_add_ok [OF 2(2,4) m(4,3) kt, folded s3_def]
        have pe: "p \<notin> fst ` set es" using m(3) D(13) by (force simp: domIff)
        define s' where "s' = ALLOC_UNPOISON p n (ALLOC_POISON p r s3)"
        have "page_rep OInv k F s' (es @ [(p, r)])"
          by (rule page_rep_same [OF add(1)]) (simp_all add: s'_def)
        moreover have "page_used k (es @ [(p, r)]) (L(p \<mapsto> n))"
          unfolding r_def by (rule page_used_add [OF U pe nz n])
        ultimately have I: "page_inv OInv k F s' (L(p \<mapsto> n))" by (auto simp: page_inv_def)
        have "kept osheap (page_blocks F es) (mem t) (mem s')"
          using add(2) by (intro reg_write_kept [OF 2(2) refl refl]) (simp add: s'_def)
        then have "kept (osheap - live F) L (mem s) (mem s')"
          using kept_trans [OF kept_trans [OF 2(3) keepb [OF kt]]] by (intro page_kept [OF R U]) blast
        moreover have "p \<notin> dom L" using pe U by (simp add: page_used_def)
        moreover have "page_alloc_fn os n s = Some (p, s')"
          using nz 2(1) m(1,2) D(1) by (simp add: page_alloc_fn_def os_call_def r_def s'_def s3_def Let_def)
        ultimately show ?thesis using I m(2) by (simp add: alloc_post_def)
      qed
    qed
  qed
qed

lemma page_free_law:
  assumes J: "page_inv OInv k F s L" and p: "L p = Some n"
  shows "\<exists>s'. page_free_fn os p n s = Some ((), s') \<and>
    free_post (page_inv OInv k F) (osheap - live F) L p s s'"
proof -
  obtain es where R: "page_rep OInv k F s es" and U: "page_used k es L"
    using J by (auto simp: page_inv_def)
  note D = page_repD [OF R]
  note l = page_liveD [OF R U p]
  define r where "r = page_round (2 ^ k) n"
  have e: "(p, r) \<in> set es" using l(3) by (simp add: r_def)
  have pR: "p \<noteq> pg_registry (self_ctx s)" "p \<notin> dom F" using e D(7) D(9) [of p] by force+
  let ?R = "pg_registry (self_ctx s)" and ?b = "pg_capacity (self_ctx s) * 16"
  obtain s1 es' where rm: "registry_remove p s = s1" "OInv (child_state s1) (page_maps F ?R ?b es)"
    "set es' = set es - {(p, r)}" "distinct (map fst es')" "reg_rep (mem s1) ?R es'"
    "page_ctx_ok k F (self_ctx s1) es'" "\<forall>x. x \<notin> region ?R ?b \<longrightarrow> mem s1 x = mem s x"
    "pg_registry (self_ctx s1) = ?R" "pg_capacity (self_ctx s1) * 16 = ?b" "pg_page_size (self_ctx s1) = 2 ^ k"
    by (rule registry_remove_ok [OF R e])
  define s2 where "s2 = ALLOC_UNPOISON p r s1"
  have I: "OInv (child_state s2) (page_maps F ?R ?b es)"
    by (rule os_write [OF rm(2)]) (simp_all add: s2_def)
  have M: "page_maps F ?R ?b es p = Some r" by (rule D(13) [OF e])
  note del = page_maps_del [OF D(5) rm(4,3) e pR, of ?b]
  obtain u t where um: "allo_os_munmap os p r (child_state s2) = (u, t)"
    "OInv t (page_maps F ?R ?b es')" "kept osheap (page_maps F ?R ?b es') (mem (child_state s2)) (mem t)"
    by (rule munmap_ok [OF I M, folded del])
  define s' where "s' = with_child (self_ctx s1) t"
  have reg: "reg_rep (mem s') ?R es'"
  proof (rule reg_rep_cong [OF rm(5) D(14)])
    show "length es' \<le> unat (pg_capacity (self_ctx s))"
      using distinct_card [of es'] rm(3,4) D(3) distinct_card [OF D(6)] card_mono [of "set es" "set es'"]
      by (auto simp: distinct_map)
    show "unat ?b = 16 * unat (pg_capacity (self_ctx s))" by (rule D(4))
    fix x assume "x \<in> region ?R ?b"
    moreover have "page_maps F ?R ?b es' ?R = Some ?b" by (simp add: page_maps_def)
    ultimately have "x \<in> live (page_maps F ?R ?b es')" by (intro liveI [of _ ?R ?b])
    then show "mem s' x = mem s1 x" using um(3) by (simp add: kept_def s'_def s2_def)
  qed
  have R': "page_rep OInv k F s' es'" using reg rm(6,8,9) um(2) by (simp add: page_rep_def s'_def)
  have U': "page_used k es' (L(p := None))" by (rule page_used_del [OF U D(5) rm(3) e])
  have reg_eq: "pg_registry (self_ctx s') = ?R" "pg_capacity (self_ctx s') * 16 = ?b"
    using rm(8,9) by (simp_all add: s'_def)
  have "kept osheap (page_blocks F es') (mem s) (mem s1)" by (rule reg_write_kept [OF R' reg_eq]) (use rm(7) in blast)
  moreover have "kept osheap (page_blocks F es') (mem s1) (mem s')"
    using um(3) by (intro maps_kept [OF R' reg_eq(1)]) (simp add: s'_def s2_def)
  ultimately have "kept (osheap - live F) (L(p := None)) (mem s) (mem s')"
    by (intro page_kept [OF R' U']) (rule kept_trans)
  moreover have "page_inv OInv k F s' (L(p := None))" using R' U' by (auto simp: page_inv_def)
  moreover have "page_free_fn os p n s = Some ((), s')"
    using l(7) rm(1,10) um(1) D(1)
    by (simp add: page_free_fn_def os_call_def s2_def s'_def r_def Let_def block_ok_def)
  ultimately show ?thesis by (simp add: free_post_def)
qed

lemma page_resize:
  assumes "page_used k es L" "L p = Some n" "m \<noteq> 0" "unat m < 2 ^ 63" "page_round (2 ^ k) m = page_round (2 ^ k) n"
  shows "page_used k es (L(p \<mapsto> m))"
  using assms unfolding page_used_def by (auto split: if_splits)

lemma page_used_move:
  assumes U: "page_used k es L" and d: "distinct (map fst es)" and p: "(p, r) \<in> set es"
    and s: "set es' = insert (q, page_round (2 ^ k) m) (set es - {(p, r)})" and m: "m \<noteq> 0" "unat m < 2 ^ 63"
  shows "page_used k es' (L(p := None, q \<mapsto> m))"
proof -
  have "fst ` set es' = insert q (fst ` set es - {p})" using key_unique [OF d p] by (force simp: s image_iff)
  then show ?thesis using U m unfolding page_used_def by (auto simp: s)
qed

lemma page_moved_kept:
  assumes R: "page_rep OInv k F s es" and U: "page_used k es L" and p: "p \<in> fst ` set es"
    and kt: "kept osheap ((page_maps F (pg_registry (self_ctx s)) (pg_capacity (self_ctx s) * 16) es)(p := None)) m m'"
  shows "kept (osheap - live F) (L(p := None)) m m'"
proof -
  let ?M = "page_maps F (pg_registry (self_ctx s)) (pg_capacity (self_ctx s) * 16) es"
  have pF: "p \<notin> dom F" by (rule page_repD(9) [OF R p])
  have "(?M(p := None)) q = Some n" if q: "F q = Some n" for q n
  proof -
    have "q \<noteq> p" using pF q by auto
    moreover have "?M q = Some n" using page_repD(17) [OF R] q by (metis domI map_le_def)
    ultimately show ?thesis by simp
  qed
  then have "live F \<subseteq> live (?M(p := None))" by (intro live_le) blast
  moreover have "live (L(p := None)) \<subseteq> live (?M(p := None))"
    using page_liveD(4,5) [OF R U] by (intro live_le) (auto split: if_splits)
  ultimately show ?thesis using kt by (auto simp: kept_def)
qed

text \<open>The mapping has moved: the entry follows it.\<close>

lemma page_retarget_ok:
  assumes R: "page_rep OInv k F s es" and e: "(p, r) \<in> set es"
  defines "R \<equiv> pg_registry (self_ctx s)" and "b \<equiv> pg_capacity (self_ctx s) * 16"
  assumes q: "q = p \<or> q \<notin> dom (page_maps F R b es)"
    and I: "OInv t ((page_maps F R b es)(p := None, q \<mapsto> r'))"
    and kt: "kept osheap ((page_maps F R b es)(p := None)) (mem s) (mem t)"
  defines "s' \<equiv> page_retarget p q r' (with_child (self_ctx s) t)"
  obtains es' where "page_rep OInv k F s' es'" "set es' = insert (q, r') (set es - {(p, r)})"
    "\<forall>x. x \<notin> region R b \<longrightarrow> mem s' x = mem t x" "self_ctx s' = self_ctx s"
proof -
  note D = page_repD [OF R, folded R_def b_def]
  define c where "c = self_ctx s"
  have pR: "p \<noteq> R" "p \<notin> dom F" using e D(7) D(9) [of p] by force+
  have at: "((page_maps F R b es)(p := None)) R = Some b" using D(12) pR by simp
  have reg: "reg_rep (mem t) R es" using reg_kept [OF R _ kt] at by (simp add: R_def b_def)
  obtain i where i: "i < length es" "es ! i = (p, r)"
    and fd: "registry_find (\<lambda>a _. a = p) (mem t) R 0 (pg_count c) = Some (word_of_nat i)"
    using reg by (elim find_entry [OF R e, of "mem t", folded R_def c_def])
  have q': "q = p \<or> q \<notin> fst ` set es" "q \<noteq> R" "q \<notin> dom F"
    using q D(12,13) pR map_le_implies_dom_le [OF D(17)] by (force simp: domIff)+
  note mv = page_maps_move [OF D(5) i pR q'(1,2)]
  have s': "s' = wr64 (entry R (word_of_nat i) + 8) r' (wr64 (entry R (word_of_nat i)) q (with_child c t))"
    using fd by (simp add: s'_def page_retarget_def R_def c_def)
  have m: "mem s' = put_entry R i q r' (mem t)" by (simp add: s' put_entry_def)
  have out: "mem s' x = mem t x" if "x \<notin> region R b" for x
    unfolding m using D(3,4) i(1) that by (intro put_entry_frame [OF D(14)]) simp_all
  have c': "self_ctx s' = c" by (simp add: s')
  have at': "((page_maps F R b es)(p := None, q \<mapsto> r')) R = Some b" using at q'(2) by simp
  have "OInv (child_state s') ((page_maps F R b es)(p := None, q \<mapsto> r'))"
    by (rule page_write [OF I at']) (simp_all add: out, simp add: s')
  moreover have "reg_rep (mem s') R (es[i := (q, r')])"
    unfolding m using reg_rep_put(1) [OF reg D(14) D(3) i(1)] .
  moreover have "page_ctx_ok k F c (es[i := (q, r')])"
  proof -
    have "fst ` set (es[i := (q, r')]) \<subseteq> insert q (fst ` set es)" unfolding mv(2) by auto
    then have "R \<notin> fst ` set (es[i := (q, r')])" "fst ` set (es[i := (q, r')]) \<inter> dom F = {}"
      using q' D(7,9) by blast+
    then show ?thesis using R mv(1) by (auto simp: page_rep_def page_ctx_ok_def c_def R_def)
  qed
  ultimately have "page_rep OInv k F s' (es[i := (q, r')])"
    using mv(3) by (simp add: page_rep_def c' flip: R_def b_def) (simp add: c_def R_def b_def)
  then show thesis using mv(2) out c' by (intro that) (auto simp: c_def)
qed

lemma page_moved_post:
  assumes R: "page_rep OInv k F s es" and U: "page_used k es L" and p: "L p = Some n"
    and R': "page_rep OInv k F s' es'" and U': "page_used k es' (L(p := None, q \<mapsto> m))"
    and c: "self_ctx s' = self_ctx s"
  defines "R \<equiv> pg_registry (self_ctx s)" and "b \<equiv> pg_capacity (self_ctx s) * 16"
  assumes q0: "q \<noteq> 0" and q: "q = p \<or> q \<notin> dom (page_maps F R b es)"
    and kt: "kept osheap ((page_maps F R b es)(p := None)) (mem s) (mem t)"
    and sb: "same_bytes (mem s) p (mem t) q (min (page_round (2 ^ k) n) (page_round (2 ^ k) m))"
    and out: "\<forall>x. x \<notin> region R b \<longrightarrow> mem s' x = mem t x"
  shows "realloc_post (page_inv OInv k F) (osheap - live F) L p n m s q s'"
proof -
  note l = page_liveD [OF R U p]
  have q': "(L(p := None, q \<mapsto> m)) q = Some m" by simp
  note l' = page_liveD [OF R' U' q']
  have qL: "q = p \<or> q \<notin> dom L" using q page_liveD(5) [OF R U] by (auto simp: domIff R_def b_def)
  have reg_eq: "pg_registry (self_ctx s') = R" "pg_capacity (self_ctx s') * 16 = b"
    by (simp_all add: c R_def b_def)
  have kw: "kept osheap (page_blocks F es') (mem t) (mem s')"
    by (rule reg_write_kept [OF R' reg_eq]) (simp add: out)
  have "p \<in> fst ` set es" using l(3) by force
  then have "kept (osheap - live F) (L(p := None)) (mem s) (mem t)"
    using kt by (intro page_moved_kept [OF R U]) (simp_all add: R_def b_def)
  moreover have "kept (osheap - live F) (L(p := None)) (mem t) (mem s')"
    using page_kept [OF R' U' kw]
    by (rule kept_mono) (use qL in \<open>auto intro!: live_mono simp: map_le_def split: if_splits\<close>)
  ultimately have "kept (osheap - live F) (L(p := None)) (mem s) (mem s')" by (rule kept_trans)
  moreover have "same_bytes (mem s) p (mem s') q (min n m)"
    unfolding same_bytes_def
  proof (intro allI impI)
    fix i assume i: "i < min n m"
    then have i': "i < min (page_round (2 ^ k) n) (page_round (2 ^ k) m)"
      using l(4) l'(4) by (auto simp: min_less_iff_conj word_less_nat_alt min_def word_le_nat_alt split: if_splits)
    have "q + i \<in> region q m" using i l'(7) by (intro region_offset) (auto simp: block_ok_def)
    then have "q + i \<in> live (page_blocks F es')"
      using page_blocks_live(1) [OF R' U'] liveI [of "L(p := None, q \<mapsto> m)" q m, OF q'] by blast
    then have "mem s' (q + i) = mem t (q + i)" using kw by (simp add: kept_def)
    then show "mem s' (q + i) = mem s (p + i)" using sb i' by (simp add: same_bytes_def)
  qed
  moreover have "page_inv OInv k F s' (L(p := None, q \<mapsto> m))" using R' U' by (auto simp: page_inv_def)
  ultimately show ?thesis using q0 qL by (simp add: realloc_post_def)
qed

lemma page_realloc_law:
  assumes J: "page_inv OInv k F s L" and p: "L p = Some n" and m: "unat m < 2 ^ 63" "m \<noteq> 0"
  shows "\<exists>q s'. page_realloc_fn os p n m s = Some (q, s') \<and>
    realloc_post (page_inv OInv k F) (osheap - live F) L p n m s q s'"
proof -
  obtain es where R: "page_rep OInv k F s es" and U: "page_used k es L"
    using J by (auto simp: page_inv_def)
  note D = page_repD [OF R]
  note l = page_liveD [OF R U p]
  have p0: "p \<noteq> NULL" using l(7) by (simp add: block_ok_def)
  define r where "r = page_round (2 ^ k) n"
  define r' where "r' = page_round (2 ^ k) m"
  have e: "(p, r) \<in> set es" using l(3) by (simp add: r_def)
  have pR: "p \<noteq> pg_registry (self_ctx s)" "p \<notin> dom F" "p \<in> fst ` set es" using e D(7) D(9) [of p] by force+
  let ?R = "pg_registry (self_ctx s)" and ?b = "pg_capacity (self_ctx s) * 16"
  let ?M = "page_maps F ?R ?b es"
  show ?thesis
  proof (cases "r = r'")
    case True
    define s' where "s' = (if m > n then ALLOC_UNPOISON (p + n) (m - n) s else ALLOC_POISON (p + m) (n - m) s)"
    have "page_realloc_fn os p n m s = Some (p, s')"
      using True p0 D(1) by (simp add: page_realloc_fn_def s'_def r_def r'_def Let_def)
    moreover have "page_rep OInv k F s' es" by (rule page_rep_same [OF R]) (simp_all add: s'_def)
    then have "page_inv OInv k F s' (L(p \<mapsto> m))"
      using page_resize [OF U p m(2,1)] True by (auto simp: page_inv_def r_def r'_def)
    then have "realloc_post (page_inv OInv k F) (osheap - live F) L p n m s p s'"
      by (intro realloc_post_same [OF page_live_ok [OF R U] p]) (simp_all add: s'_def)
    ultimately show ?thesis by blast
  next
    case False
    define s1 where "s1 = ALLOC_UNPOISON p r s"
    have c1: "self_ctx s1 = self_ctx s" "mem s1 = mem s" by (simp_all add: s1_def)
    have R1: "page_rep OInv k F s1 es" by (rule page_rep_same [OF R]) (simp_all add: s1_def)
    have I: "OInv (child_state s1) ?M" using page_repD(11) [OF R1] by (simp add: c1)
    have M: "?M p = Some r" by (rule D(13) [OF e])
    have dr: "2 ^ k dvd unat r'" using page_round_props(2) [OF m(1)] by (simp add: r'_def)
    show ?thesis
    proof (cases rule: mremap_cases [OF I M dr])
      case (1 t)
      define s' where "s' = ALLOC_POISON (p + n) (r - n) (with_child (self_ctx s) t)"
      have "page_rep OInv k F (with_child (self_ctx s) t) es"
        using R 1(2,3) reg_kept_maps [OF R, of "mem t"] by (simp add: page_rep_def c1)
      then have "page_rep OInv k F s' es" by (rule page_rep_same) (simp_all add: s'_def)
      moreover have "kept (osheap - live F) L (mem s) (mem s')"
        using 1(3) by (intro page_kept [OF R U] maps_kept [OF R refl]) (simp add: s'_def c1)
      moreover have "page_realloc_fn os p n m s = Some (NULL, s')"
        using False p0 D(1) 1(1) c1 by (simp add: page_realloc_fn_def os_call_def s1_def s'_def r_def r'_def Let_def)
      ultimately show ?thesis using U by (auto simp: realloc_post_def page_inv_def)
    next
      case (2 q t)
      define s2 where "s2 = page_retarget p q r' (with_child (self_ctx s) t)"
      obtain es' where rt: "page_rep OInv k F s2 es'" "set es' = insert (q, r') (set es - {(p, r)})"
        "\<forall>x. x \<notin> region ?R ?b \<longrightarrow> mem s2 x = mem t x" "self_ctx s2 = self_ctx s"
        using 2(3,4,5) unfolding s2_def by (elim page_retarget_ok [OF R e]) (simp_all add: c1)
      define s' where "s' = ALLOC_UNPOISON q m (ALLOC_POISON q r' s2)"
      have "page_realloc_fn os p n m s = Some (q, s')"
        using False p0 D(1) 2(1,2) c1
        by (simp add: page_realloc_fn_def os_call_def s1_def s'_def s2_def r_def r'_def Let_def)
      moreover have R': "page_rep OInv k F s' es'" by (rule page_rep_same [OF rt(1)]) (simp_all add: s'_def)
      have U': "page_used k es' (L(p := None, q \<mapsto> m))"
        using page_used_move [OF U D(5) e] rt(2) m by (simp add: r'_def)
      have "realloc_post (page_inv OInv k F) (osheap - live F) L p n m s q s'"
        by (rule page_moved_post [OF R U p R' U', of t]) (use 2 rt(3,4) c1 in \<open>simp_all add: s'_def r_def r'_def\<close>)
      ultimately show ?thesis by blast
    qed
  qed
qed

lemma page_contains_eq:
  assumes R: "page_rep OInv k F s es"
  shows "page_contains_fn p s = Some (if \<exists>e\<in>set es. p \<in> region (fst e) (snd e)
    then ALLO_CONTAINS_YES else ALLO_CONTAINS_NO, s)"
proof -
  note D = page_repD [OF R]
  have in_entry: "p \<ge> a \<and> p < a + n \<longleftrightarrow> p \<in> region a n" if "(a, n) \<in> set es" for a n
  proof -
    have "block_ok a n" by (rule live_okD(1) [OF D(15) D(13) [OF that]])
    then have "unat (a + n) = unat a + unat n" by (simp add: block_ok_def unat_add64)
    then show ?thesis by (simp add: mem_region word_le_nat_alt word_less_nat_alt)
  qed
  have "find_pos (\<lambda>e. p \<ge> fst e \<and> p < fst e + snd e) es = None \<longleftrightarrow> \<not> (\<exists>e\<in>set es. p \<in> region (fst e) (snd e))"
    using in_entry by (auto simp: find_pos_None)
  then show ?thesis
    unfolding page_contains_fn_def Let_def registry_find_eq [OF D(10) D(2)] by (auto split: option.split)
qed

lemma page_exact: "exact_allocator (page_allo os) (page_inv OInv k F) (osheap - live F) (2 ^ 63)"
proof unfold_locales
  show "(2 :: nat) ^ 63 \<le> 2 ^ 63" by simp
next
  fix s :: "'e page_machine" and L :: live_map and n m :: size_t and p :: ptr
  assume J: "page_inv OInv k F s L"
  then obtain es where R: "page_rep OInv k F s es" and U: "page_used k es L"
    by (auto simp: page_inv_def)
  note D = page_repD [OF R]
  show "live_ok (osheap - live F) L" by (rule page_live_ok [OF R U])
  show "page_inv OInv k F s' L" if "env s' = env s"
    "\<And>x. x \<in> osheap - live F \<Longrightarrow> x \<notin> live L \<Longrightarrow> mem s' x = mem s x" for s'
    using page_client_write [OF R U that] U by (auto simp: page_inv_def)
  show "\<exists>p s'. vt_alloc (page_allo os) n s = Some (p, s') \<and>
      alloc_post (page_inv OInv k F) (osheap - live F) L n s p s'" if "unat n < 2 ^ 63"
    using page_alloc_law [OF J that] by (simp add: page_allo_def)
  show "\<exists>q s'. vt_realloc (page_allo os) p n m s = Some (q, s') \<and>
      realloc_post (page_inv OInv k F) (osheap - live F) L p n m s q s'"
    if "L p = Some n" "unat m < 2 ^ 63" "m \<noteq> 0"
    using page_realloc_law [OF J that] by (simp add: page_allo_def)
  show "\<exists>s'. vt_free_mem (page_allo os) p n s = Some ((), s') \<and>
      free_post (page_inv OInv k F) (osheap - live F) L p s s'" if "L p = Some n"
    using page_free_law [OF J that] by (simp add: page_allo_def)
  show "\<exists>s'. vt_free_mem (page_allo os) NULL n s = Some ((), s') \<and> page_inv OInv k F s' L \<and>
      kept (osheap - live F) L (mem s) (mem s')"
    using J by (simp add: page_allo_def page_free_fn_def)
  have yes: "p \<in> osheap - live F" if e: "e \<in> set es" "p \<in> region (fst e) (snd e)" for e
  proof -
    have M: "page_maps F (pg_registry (self_ctx s)) (pg_capacity (self_ctx s) * 16) es (fst e) = Some (snd e)"
      using D(13) [of "fst e" "snd e"] e(1) by simp
    have "p \<notin> region q m" if q: "F q = Some m" for q m
    proof -
      have "page_maps F (pg_registry (self_ctx s)) (pg_capacity (self_ctx s) * 16) es q = Some m"
        using D(17) q by (metis domI map_le_def)
      moreover have "fst e \<noteq> q" using D(9) [of "fst e"] e(1) q by auto
      ultimately show ?thesis using live_ok_disjoint [OF D(15) M] e(2) by blast
    qed
    then show ?thesis using live_okD(2) [OF D(15) M] e(2) by (auto simp: live_def)
  qed
  have "\<exists>e\<in>set es. p \<in> region (fst e) (snd e)" if pd: "p \<in> dom L"
  proof -
    obtain n where n: "L p = Some n" using pd by blast
    note l = page_liveD [OF R U n]
    have "p \<in> region p (page_round (2 ^ k) n)" using l(1,4) unat_pos64 [OF l(1)] by (auto simp: mem_region)
    then show ?thesis using l(3) by force
  qed
  with yes show "\<exists>r. allo_contains (page_allo os) p s = Some (r, s) \<and> (p \<in> dom L \<longrightarrow> r \<noteq> ALLO_CONTAINS_NO) \<and>
      (r = ALLO_CONTAINS_YES \<longrightarrow> p \<in> osheap - live F)"
    by (auto simp: allo_contains_def page_allo_def page_contains_eq [OF R])
  show "allo_contains (page_allo os) p s \<noteq> Some (ALLO_CONTAINS_UNKNOWN, s)"
    by (simp add: allo_contains_def page_allo_def page_contains_eq [OF R])
qed

text \<open>Blocks start at pages.\<close>

lemma page_block_aligned:
  assumes J: "page_inv OInv k F s L" and p: "p \<in> dom L"
  shows "2 ^ k dvd unat p"
proof -
  obtain es where R: "page_rep OInv k F s es" and U: "page_used k es L"
    using J by (auto simp: page_inv_def)
  obtain n where n: "L p = Some n" using p by blast
  show ?thesis by (rule os_aligned [OF page_repD(11) [OF R] page_liveD(5) [OF R U n]])
qed

lemma page_block_apart:
  assumes J: "page_inv OInv k F s L" and p: "L p = Some n" and q: "L q = Some m" "p \<noteq> q"
  shows "unat n \<le> unat (page_round (2 ^ k) n)" "unat (page_round (2 ^ k) n) < unat n + 2 ^ k"
    "region p (page_round (2 ^ k) n) \<inter> region q m = {}"
proof -
  obtain es where R: "page_rep OInv k F s es" and U: "page_used k es L"
    using J by (auto simp: page_inv_def)
  note l = page_liveD [OF R U p] and l' = page_liveD [OF R U q(1)]
  show "unat n \<le> unat (page_round (2 ^ k) n)" "unat (page_round (2 ^ k) n) < unat n + 2 ^ k"
    using page_round_props [OF l(2)] by simp_all
  have "region p (page_round (2 ^ k) n) \<inter> region q (page_round (2 ^ k) m) = {}"
    by (rule live_ok_disjoint [OF page_repD(15) [OF R] l(5) l'(5) q(2)])
  then show "region p (page_round (2 ^ k) n) \<inter> region q m = {}" using region_mono [OF l'(4), of q] by blast
qed

section \<open>Destroying and making\<close>

lemma page_unmap_all:
  assumes I: "OInv s (page_maps F R b (drop i es))" and reg: "reg_rep (mem s) R es" and r: "reg_room R c"
    and n: "length es \<le> c" "unat b = 16 * c" and d: "distinct (map fst es)" "R \<notin> fst ` set es" "fst ` set es \<inter> dom F = {}"
    and i: "i \<le> length es"
  shows "OInv (page_unmap_loop os R (word_of_nat i) (word_of_nat (length es)) s) (F(R \<mapsto> b)) \<and>
    kept osheap (F(R \<mapsto> b)) (mem s) (mem (page_unmap_loop os R (word_of_nat i) (word_of_nat (length es)) s))"
  using I reg i
proof (induction "length es - i" arbitrary: i s)
  case 0
  then show ?case by (simp add: page_unmap_loop.simps page_maps_def)
next
  case (Suc j)
  have c64: "16 * c < 2 ^ 64" using n(2) unat64_less [of b] by (simp del: unat64_less)
  have il: "i < length es" using Suc.hyps(2) by simp
  have u: "unat (word_of_nat i :: size_t) = i" "unat (word_of_nat (length es) :: size_t) = length es"
    using il n(1) c64 by (simp_all add: unat_of_nat64)
  have lt: "(word_of_nat i :: size_t) < word_of_nat (length es)" using il u by (simp add: word_less_nat_alt)
  obtain a m where e: "es ! i = (a, m)" by (cases "es ! i") auto
  have ld: "rd64 s (entry R (word_of_nat i)) = a" "rd64 s (entry R (word_of_nat i) + 8) = m"
    using Suc.prems(2) il e by (simp_all add: reg_rep_def rd64_def)
  have dr: "drop i es = (a, m) # drop (Suc i) es" using il e by (metis Cons_nth_drop_Suc)
  have mem: "(a, m) \<in> set es" using il e by (metis nth_mem)
  have dd: "distinct (map fst (drop i es))" "distinct (map fst (drop (Suc i) es))"
    using d(1) by (simp_all flip: drop_map)
  have a: "a \<noteq> R" "a \<notin> dom F" using d(2,3) mem by force+
  have na: "(a, x) \<notin> set (drop (Suc i) es)" for x
  proof
    assume x: "(a, x) \<in> set (drop (Suc i) es)"
    have "a \<notin> fst ` set (drop (Suc i) es)" using dd(1) unfolding dr by simp
    then show False using x by force
  qed
  have M: "page_maps F R b (drop i es) a = Some m" using a by (simp add: page_maps_def dr)
  have del: "page_maps F R b (drop (Suc i) es) = (page_maps F R b (drop i es))(a := None)"
    by (rule page_maps_del [OF dd _ _ a]) (use na in \<open>auto simp: dr\<close>)
  obtain v t where um: "allo_os_munmap os a m s = (v, t)" "OInv t (page_maps F R b (drop (Suc i) es))"
    "kept osheap (page_maps F R b (drop (Suc i) es)) (mem s) (mem t)"
    by (rule munmap_ok [OF Suc.prems(1) M, folded del])
  have reg: "reg_rep (mem t) R es"
  proof (rule reg_rep_cong [OF Suc.prems(2) r n])
    fix x assume "x \<in> region R b"
    then have "x \<in> live (page_maps F R b (drop (Suc i) es))"
      by (intro liveI [of _ R b]) (simp_all add: page_maps_def)
    then show "mem t x = mem s x" using um(3) by (simp add: kept_def)
  qed
  have le: "F(R \<mapsto> b) \<subseteq>\<^sub>m page_maps F R b (drop (Suc i) es)"
    unfolding map_le_def
  proof
    fix q assume q: "q \<in> dom (F(R \<mapsto> b))"
    show "(F(R \<mapsto> b)) q = page_maps F R b (drop (Suc i) es) q"
    proof (cases "q = R")
      case False
      then have "q \<notin> fst ` set (drop (Suc i) es)" using q d(3) by (auto dest!: in_set_dropD)
      then have "q \<notin> dom (map_of (drop (Suc i) es))" by (simp add: dom_map_of_conv_image_fst)
      with False show ?thesis by (simp add: page_maps_def map_add_dom_app_simps)
    qed (simp add: page_maps_def)
  qed
  have st: "page_unmap_loop os R (word_of_nat i) (word_of_nat (length es)) s =
      page_unmap_loop os R (word_of_nat (Suc i)) (word_of_nat (length es)) t"
    by (subst page_unmap_loop.simps) (simp add: lt ld um(1) add.commute)
  have "kept osheap (F(R \<mapsto> b)) (mem s) (mem t)"
    using um(3) live_mono [OF le] by (auto simp: kept_def)
  then show ?case
    unfolding st using Suc.hyps(1) [of "Suc i" t] Suc.hyps(2) um(2) reg il by (auto intro: kept_trans)
qed

lemma page_destroy_ok:
  assumes J: "page_inv OInv k F s L"
  shows "\<exists>s'. allo_destroy (page_allo os) s = Some ((), s') \<and> OInv (child_state s') F \<and>
    kept osheap F (mem s) (mem s')"
proof -
  obtain es where R: "page_rep OInv k F s es" using J by (auto simp: page_inv_def)
  note D = page_repD [OF R]
  let ?R = "pg_registry (self_ctx s)" and ?b = "pg_capacity (self_ctx s) * 16"
  have cnt: "pg_count (self_ctx s) = word_of_nat (length es)" by (simp flip: D(2))
  define t where "t = page_unmap_loop os ?R 0 (pg_count (self_ctx s)) (child_state s)"
  have dj: "fst ` set es \<inter> dom F = {}" using D(9) by blast
  have t: "OInv t (F(?R \<mapsto> ?b))" "kept osheap (F(?R \<mapsto> ?b)) (mem s) (mem t)"
    using page_unmap_all [of "child_state s" F ?R ?b 0 es "unat (pg_capacity (self_ctx s))"] D dj
    by (simp_all add: t_def cnt)
  obtain u t' where um: "allo_os_munmap os ?R ?b t = (u, t')" "OInv t' F" "kept osheap F (mem t) (mem t')"
  proof (rule munmap_ok [OF t(1), of ?R ?b])
    have "(F(?R \<mapsto> ?b))(?R := None) = F" using D(8) by (auto simp: fun_eq_iff domIff)
    then show "allo_os_munmap os ?R ?b t = (u, t') \<Longrightarrow> OInv t' ((F(?R \<mapsto> ?b))(?R := None)) \<Longrightarrow>
      kept osheap ((F(?R \<mapsto> ?b))(?R := None)) (mem t) (mem t') \<Longrightarrow> thesis" for u t' using that by simp
  qed simp
  have "F \<subseteq>\<^sub>m F(?R \<mapsto> ?b)" using D(8) by (auto simp: map_le_def)
  then have "kept osheap F (mem s) (mem t)" using t(2) live_mono by (fastforce simp: kept_def)
  then have "kept osheap F (mem s) (mem t')" using um(3) by (rule kept_trans)
  moreover have "allo_destroy (page_allo os) s = Some ((), with_child (self_ctx s) t')"
    using um(1) by (simp add: allo_destroy_def page_allo_def page_destroy_fn_def os_call_def t_def)
  ultimately show ?thesis using um(2) by simp
qed

lemma make_page_ok:
  assumes I: "OInv s F" and out: "out \<noteq> NULL"
  obtains (fail) s' where "make_page_allocator os out s = Inl (ALLO_ERR_NOMEM, s')" "OInv s' F"
      "kept osheap F (mem s) (mem s')"
    | (ok) s' where "make_page_allocator os out s = Inr s'" "page_inv OInv k F s' Map.empty"
      "kept osheap F (mem s) (mem s')"
proof -
  have ps: "allo_os_get_page_size os = 2 ^ k" by (simp add: allo_os_get_page_size_def page_size)
  have d: "2 ^ k dvd unat (2 ^ k :: size_t)" by (simp add: unat_page)
  show thesis
  proof (cases rule: mmap_cases [OF I d])
    case (1 s')
    then show thesis using out ps by (intro fail [of s']) (simp_all add: make_page_allocator_def Let_def)
  next
    case (2 R s')
    define c where "c = \<lparr>pg_page_size = 2 ^ k, pg_registry = R, pg_count = 0, pg_capacity = 2 ^ k div 16\<rparr>"
    have uc: "unat ((2 ^ k :: size_t) div 16) * 16 = 2 ^ k"
      using pow_k(2) by (simp add: unat_div unat_page)
    then have cap: "(2 ^ k :: size_t) div 16 * 16 = 2 ^ k"
      using pow_k(1) by (simp add: word_eq_iff_unat unat_mult64 unat_page)
    have "page_rep OInv k F (with_child c s') []"
      using 2 uc pow_k(1) by (auto simp: page_rep_def page_ctx_ok_def c_def reg_rep_def cap page_maps_def)
    moreover have "page_used k [] Map.empty" by (simp add: page_used_def)
    ultimately have "page_inv OInv k F (with_child c s') Map.empty" by (auto simp: page_inv_def)
    then show thesis
      using 2 out ps by (intro ok [of "with_child c s'"]) (simp_all add: make_page_allocator_def c_def Let_def)
  qed
qed

end

sublocale os_pages \<subseteq> page: exact_allocator "page_allo os" "page_inv OInv k F" "osheap - live F" "2 ^ 63" for F
  by (rule page_exact)

end
