(* ===== verification/Gen.thy ===== *)
theory Gen
  imports Pool BuddyOver PageProof
begin

text \<open>
  The general purpose allocator, \<open>src/allo_gen.c\<close>: eight pools for requests of up to 2048 bytes, a
  buddy allocator for those up to 1 MiB, and pages for the rest. The pools' buffers are blocks of
  the buddy allocator, whose buffer and metadata are blocks of the page allocator, which also has
  the block the structure \<open>gen_state_t\<close> lies in. As everywhere, the contexts of the allocators are
  in \<open>env\<close>: the pools' in the context of this allocator, then the buddy allocator's, the page
  allocator's and the operating system's state.
\<close>

section \<open>Tables\<close>

definition POOL_COUNT :: nat where
  "POOL_COUNT = 8"

definition BUDDY_TOTAL_SIZE :: size_t where
  "BUDDY_TOTAL_SIZE = 16 * 1024 * 1024"

definition SMALL_OBJ_LIMIT :: size_t where
  "SMALL_OBJ_LIMIT = 2048"

definition MEDIUM_OBJ_LIMIT :: size_t where
  "MEDIUM_OBJ_LIMIT = 1024 * 1024"

definition pool_sizes :: "size_t list" where
  "pool_sizes = [16, 32, 64, 128, 256, 512, 1024, 2048]"

definition pool_blocks :: "size_t list" where
  "pool_blocks = [4096, 2048, 1024, 512, 256, 128, 64, 32]"

definition pool_index_table :: "nat list" where
  "pool_index_table = [0] @ [1] @ replicate 2 2 @ replicate 4 3 @ replicate 8 4 @ replicate 16 5 @
     replicate 32 6 @ replicate 64 7"

definition get_pool_index :: "size_t \<Rightarrow> nat" where
  "get_pool_index n =
     (if n = 0 then 0
      else
        (let idx = drop_bit 4 (n - 1) in
         if idx > 127 then 7 else pool_index_table ! unat idx))"

section \<open>State\<close>

type_synonym 'e page_env = "page_context_t \<times> 'e"
type_synonym 'e tier_env = "'e page_env buddy_context_t \<times> 'e page_env"

record 'e gen_context_t =
  gen_state :: ptr
  gen_pools :: "'e tier_env pool_context_t list"

type_synonym 'e gen_machine = "('e gen_context_t \<times> 'e tier_env) machine"

text \<open>\<open>&s->pools[i]\<close>, \<open>&s->buddy\<close> and \<open>&s->page\<close>: which context an operation runs on.\<close>

definition pool_state :: "nat \<Rightarrow> 'e gen_machine \<Rightarrow> 'e tier_env pool_machine" where
  "pool_state i s = with_child (gen_pools (self_ctx s) ! i) (child_state s)"

definition with_pool :: "nat \<Rightarrow> 'e gen_machine \<Rightarrow> 'e tier_env pool_machine \<Rightarrow> 'e gen_machine" where
  "with_pool i s t = with_child
     ((self_ctx s)\<lparr>gen_pools := (gen_pools (self_ctx s))[i := self_ctx t]\<rparr>) (child_state t)"

definition on_pool ::
  "nat \<Rightarrow> ('e tier_env pool_machine \<Rightarrow> ('r \<times> 'e tier_env pool_machine) option) \<Rightarrow>
     'e gen_machine \<Rightarrow> ('r \<times> 'e gen_machine) option" where
  "on_pool i f s = (case f (pool_state i s) of
     None \<Rightarrow> None | Some (r, t) \<Rightarrow> Some (r, with_pool i s t))"

definition on_buddy ::
  "('e tier_env machine \<Rightarrow> ('r \<times> 'e tier_env machine) option) \<Rightarrow>
     'e gen_machine \<Rightarrow> ('r \<times> 'e gen_machine) option" where
  "on_buddy f s = call_child f s"

definition on_page ::
  "('e page_env machine \<Rightarrow> ('r \<times> 'e page_env machine) option) \<Rightarrow>
     'e gen_machine \<Rightarrow> ('r \<times> 'e gen_machine) option" where
  "on_page f s = call_child (call_child f) s"

section \<open>Operations\<close>

definition gen_alloc_fn :: "'e os \<Rightarrow> size_t \<Rightarrow> 'e gen_machine \<Rightarrow> (ptr \<times> 'e gen_machine) option" where
  "gen_alloc_fn os n s =
     (if n = 0 then Some (NULL, s)
      else if n \<le> SMALL_OBJ_LIMIT then on_pool (get_pool_index n) (allo_alloc pool_allo n) s
      else if n \<le> MEDIUM_OBJ_LIMIT then on_buddy (allo_alloc buddy_allo n) s
      else on_page (allo_alloc (page_allo os) n) s)"

definition gen_free_fn :: "'e os \<Rightarrow> ptr \<Rightarrow> size_t \<Rightarrow> 'e gen_machine \<Rightarrow> (unit \<times> 'e gen_machine) option" where
  "gen_free_fn os p n s =
     (if p = NULL then Some ((), s)
      else if n \<le> SMALL_OBJ_LIMIT then on_pool (get_pool_index n) (allo_free pool_allo p n) s
      else if n \<le> MEDIUM_OBJ_LIMIT then on_buddy (allo_free buddy_allo p n) s
      else on_page (allo_free (page_allo os) p n) s)"

text \<open>Crossing tiers, or from one pool to another: allocate, copy, free.\<close>

definition gen_move ::
  "'e os \<Rightarrow> ptr \<Rightarrow> size_t \<Rightarrow> size_t \<Rightarrow> 'e gen_machine \<Rightarrow> (ptr \<times> 'e gen_machine) option" where
  "gen_move os p old_size new_size s = do {
     (new_ptr, s) \<leftarrow> gen_alloc_fn os new_size s;
     if new_ptr = NULL then Some (NULL, s)
     else do {
       let copy_size = (if old_size < new_size then old_size else new_size);
       (_, s) \<leftarrow> allo_memcpy new_ptr p copy_size s;
       (_, s) \<leftarrow> gen_free_fn os p old_size s;
       Some (new_ptr, s)
     }
   }"

definition gen_realloc_fn ::
  "'e os \<Rightarrow> ptr \<Rightarrow> size_t \<Rightarrow> size_t \<Rightarrow> 'e gen_machine \<Rightarrow> (ptr \<times> 'e gen_machine) option" where
  "gen_realloc_fn os p old_size new_size s =
     (if p = NULL then gen_alloc_fn os new_size s
      else if new_size = 0 then do {
        (_, s) \<leftarrow> gen_free_fn os p old_size s;
        Some (NULL, s)
      }
      else if old_size \<le> SMALL_OBJ_LIMIT \<and> new_size \<le> SMALL_OBJ_LIMIT then
        (let old_idx = get_pool_index old_size;
             new_idx = get_pool_index new_size
         in if old_idx = new_idx
            then on_pool old_idx (allo_realloc pool_allo p old_size new_size) s
            else gen_move os p old_size new_size s)
      else if old_size > SMALL_OBJ_LIMIT \<and> old_size \<le> MEDIUM_OBJ_LIMIT \<and>
          new_size > SMALL_OBJ_LIMIT \<and> new_size \<le> MEDIUM_OBJ_LIMIT then
        on_buddy (allo_realloc buddy_allo p old_size new_size) s
      else if old_size > MEDIUM_OBJ_LIMIT \<and> new_size > MEDIUM_OBJ_LIMIT then
        on_page (allo_realloc (page_allo os) p old_size new_size) s
      else gen_move os p old_size new_size s)"

text \<open>The loop over the pools, in the factory's error path and in the destroy function.\<close>

primrec destroy_pools ::
  "'e tier_env pool_context_t list \<Rightarrow> 'e tier_env machine \<Rightarrow> (unit \<times> 'e tier_env machine) option" where
  "destroy_pools [] s = Some ((), s)"
| "destroy_pools (c # cs) s = do {
     (_, t) \<leftarrow> allo_destroy pool_allo (with_child c s);
     destroy_pools cs (child_state t)
   }"

definition gen_destroy_fn :: "'e os \<Rightarrow> 'e gen_machine \<Rightarrow> (unit \<times> 'e gen_machine) option" where
  "gen_destroy_fn os s = do {
     (_, s) \<leftarrow> on_buddy (destroy_pools (gen_pools (self_ctx s))) s;
     (_, s) \<leftarrow> on_buddy (allo_destroy buddy_allo) s;
     on_page (allo_destroy (page_allo os)) s
   }"

primrec gen_contains_pools :: "ptr \<Rightarrow> nat list \<Rightarrow> 'e gen_machine \<Rightarrow> (allo_contains_t \<times> 'e gen_machine) option" where
  "gen_contains_pools p [] s = Some (ALLO_CONTAINS_NO, s)"
| "gen_contains_pools p (i # is) s = do {
     (r, s) \<leftarrow> on_pool i (allo_contains pool_allo p) s;
     if r = ALLO_CONTAINS_YES then Some (ALLO_CONTAINS_YES, s) else gen_contains_pools p is s
   }"

definition gen_contains_fn ::
  "'e os \<Rightarrow> ptr \<Rightarrow> 'e gen_machine \<Rightarrow> (allo_contains_t \<times> 'e gen_machine) option" where
  "gen_contains_fn os p s = do {
     (r, s) \<leftarrow> gen_contains_pools p [0..<POOL_COUNT] s;
     if r = ALLO_CONTAINS_YES then Some (ALLO_CONTAINS_YES, s)
     else do {
       (r, s) \<leftarrow> on_buddy (allo_contains buddy_allo p) s;
       if r = ALLO_CONTAINS_YES then Some (ALLO_CONTAINS_YES, s)
       else do {
         (r, s) \<leftarrow> on_page (allo_contains (page_allo os) p) s;
         if r = ALLO_CONTAINS_YES then Some (ALLO_CONTAINS_YES, s) else Some (ALLO_CONTAINS_NO, s)
       }
     }
   }"

definition gen_allo :: "'e os \<Rightarrow> ('e gen_context_t \<times> 'e tier_env) allo" where
  "gen_allo os = \<lparr>vt_alloc = gen_alloc_fn os, vt_realloc = gen_realloc_fn os,
     vt_free_mem = gen_free_fn os, vt_destroy = Some (gen_destroy_fn os),
     vt_contains = Some (gen_contains_fn os)\<rparr>"

section \<open>Factory\<close>

text \<open>\<open>gen_state_t\<close> has ten \<open>allo_t\<close> of 168 bytes: page, buddy, then the pools.\<close>

definition sizeof_gen_state :: size_t where
  "sizeof_gen_state = 1680"

function make_gen_pools ::
  "nat \<Rightarrow> ptr \<Rightarrow> 'e tier_env pool_context_t list \<Rightarrow> 'e tier_env machine \<Rightarrow>
     ((allo_error_t \<times> 'e tier_env pool_context_t list \<times> 'e tier_env machine) +
      ('e tier_env pool_context_t list \<times> 'e tier_env machine)) option" where
  "make_gen_pools i st pools s =
     (if i < POOL_COUNT then do {
        r \<leftarrow> make_pool_allocator (st + 336 + 168 * word_of_nat i) (Some buddy_allo) NULL
               (pool_sizes ! i) (pool_blocks ! i) s;
        (case r of
           Inl (err, s) \<Rightarrow> Some (Inl (err, pools, s))
         | Inr t \<Rightarrow> make_gen_pools (i + 1) st (pools @ [self_ctx t]) (child_state t))
      }
      else Some (Inr (pools, s)))"
  by pat_completeness auto
termination by (relation "measure (\<lambda>(i, st, pools, s). POOL_COUNT - i)") auto

declare make_gen_pools.simps [simp del]

text \<open>
  \<open>st\<close> is the block the structure is put in, and \<open>s->page\<close>, the page allocator's own table and
  context, is a part of it. The two error branches below the state block call
  \<open>allo_free(&s->page, s, ...)\<close>, which unmaps that block, and then \<open>allo_destroy(&s->page)\<close>, which
  reads it: an access to memory that is not mapped any more. The process does not come back from
  there (\<open>use_after_unmap\<close>).
\<close>

definition use_after_unmap :: "'r option" where
  "use_after_unmap = None"

definition make_gen_allocator ::
  "'e os \<Rightarrow> ptr \<Rightarrow> 'e machine \<Rightarrow> ((allo_error_t \<times> 'e machine) + 'e gen_machine) option" where
  "make_gen_allocator os out s =
     (if out = NULL then Some (Inl (ALLO_ERR_INVAL, s))
      else
        (case make_page_allocator os out s of
           Inl (err, s) \<Rightarrow> Some (Inl (err, s))
         | Inr s \<Rightarrow> do {
             (st, s) \<leftarrow> allo_alloc (page_allo os) sizeof_gen_state s;
             if st = NULL then do {
               (_, s) \<leftarrow> allo_destroy (page_allo os) s;
               Some (Inl (ALLO_ERR_NOMEM, child_state s))
             }
             else do {
               r \<leftarrow> make_buddy_allocator (st + 168) (Some (page_allo os)) NULL BUDDY_TOTAL_SIZE s;
               (case r of
                  Inl (err, s) \<Rightarrow> do {
                    (_, s) \<leftarrow> allo_free (page_allo os) st sizeof_gen_state s;
                    use_after_unmap
                  }
                | Inr s \<Rightarrow> do {
                    r \<leftarrow> make_gen_pools 0 st [] s;
                    (case r of
                       Inl (err, pools, s) \<Rightarrow> do {
                         (_, s) \<leftarrow> destroy_pools pools s;
                         (_, s) \<leftarrow> allo_destroy buddy_allo s;
                         (_, s) \<leftarrow> allo_free (page_allo os) st sizeof_gen_state (child_state s);
                         use_after_unmap
                       }
                     | Inr (pools, s) \<Rightarrow>
                         Some (Inr (with_child \<lparr>gen_state = st, gen_pools = pools\<rparr> s)))
                  })
             }
           }))"

end
