(* ===== verification/GenRep.thy ===== *)
theory GenRep
  imports Gen
begin

text \<open>
  The general purpose allocator's representation: every live block belongs to the tier its size
  selects, and the tiers own zones of memory that do not meet. The zones are nested in the code
  (pools in the buddy allocator, that in pages) and apart here: each is taken without what is
  handed to the tier above.
\<close>

section \<open>The tier of a size\<close>

lemma pool_index_table_ok:
  "\<forall>k\<in>set [0..<128]. pool_index_table ! k < 8 \<and>
     16 * k + 16 \<le> unat (pool_sizes ! (pool_index_table ! k)) \<and>
     (pool_index_table ! k \<noteq> 0 \<longrightarrow> unat (pool_sizes ! (pool_index_table ! k - 1)) \<le> 16 * k)"
  by code_simp

lemma pool_tables:
  assumes "i < 8"
  shows "pool_block_round (pool_sizes ! i) = pool_sizes ! i" "pool_sizes ! i * pool_blocks ! i = 65536"
    "unat (pool_sizes ! i) * unat (pool_blocks ! i) = 65536" "pool_sizes ! i \<noteq> 0" "pool_blocks ! i \<noteq> 0"
    "unat (pool_sizes ! i) \<le> 2048"
proof -
  have "i = 0 \<or> i = 1 \<or> i = 2 \<or> i = 3 \<or> i = 4 \<or> i = 5 \<or> i = 6 \<or> i = 7" using assms by arith
  then have "pool_block_round (pool_sizes ! i) = pool_sizes ! i \<and> pool_sizes ! i * pool_blocks ! i = 65536 \<and>
      unat (pool_sizes ! i) * unat (pool_blocks ! i) = 65536 \<and> pool_sizes ! i \<noteq> 0 \<and> pool_blocks ! i \<noteq> 0 \<and>
      unat (pool_sizes ! i) \<le> 2048"
    by (elim disjE) (simp_all add: pool_sizes_def pool_blocks_def pool_block_round_def allo_align_up_def)
  then show "pool_block_round (pool_sizes ! i) = pool_sizes ! i" "pool_sizes ! i * pool_blocks ! i = 65536"
    "unat (pool_sizes ! i) * unat (pool_blocks ! i) = 65536" "pool_sizes ! i \<noteq> 0" "pool_blocks ! i \<noteq> 0"
    "unat (pool_sizes ! i) \<le> 2048" by blast+
qed

lemma get_pool_index_small:
  assumes n: "n \<noteq> 0" "n \<le> SMALL_OBJ_LIMIT"
  shows "get_pool_index n < 8" "unat n \<le> unat (pool_sizes ! get_pool_index n)"
    "j < get_pool_index n \<Longrightarrow> unat (pool_sizes ! j) < unat n"
proof -
  define k where "k = (unat n - 1) div 16"
  have n0: "0 < unat n" "unat n \<le> 2048" using n unat_pos64 by (auto simp: SMALL_OBJ_LIMIT_def word_le_nat_alt)
  have kd: "unat (drop_bit 4 (n - 1)) = k" using n by (simp add: unat_drop_bit64 unat_pred64 k_def)
  have k: "k < 128" "16 * k < unat n" "unat n \<le> 16 * k + 16" using n0 by (auto simp: k_def)
  have i: "get_pool_index n = pool_index_table ! k"
    using n k(1) kd by (simp add: get_pool_index_def Let_def word_less_nat_alt)
  have t: "pool_index_table ! k < 8" "16 * k + 16 \<le> unat (pool_sizes ! (pool_index_table ! k))"
    "pool_index_table ! k \<noteq> 0 \<Longrightarrow> unat (pool_sizes ! (pool_index_table ! k - 1)) \<le> 16 * k"
    using pool_index_table_ok k(1) by simp_all
  show "get_pool_index n < 8" "unat n \<le> unat (pool_sizes ! get_pool_index n)" using t k(3) i by simp_all
  assume j: "j < get_pool_index n"
  have "\<forall>i\<in>set [0..<8]. \<forall>j\<in>set [0..<i]. unat (pool_sizes ! j) \<le> unat (pool_sizes ! (i - 1))" by code_simp
  then have "unat (pool_sizes ! j) \<le> unat (pool_sizes ! (get_pool_index n - 1))"
    using j t(1) i by simp
  then show "unat (pool_sizes ! j) < unat n" using t(3) j i k(2) by simp
qed

definition tier :: "size_t \<Rightarrow> nat" where
  "tier n = (if n \<le> SMALL_OBJ_LIMIT then get_pool_index n else if n \<le> MEDIUM_OBJ_LIMIT then 8 else 9)"

lemma tier_cases:
  assumes "n \<noteq> 0"
  obtains (pool) "n \<le> SMALL_OBJ_LIMIT" "tier n = get_pool_index n" "tier n < 8"
    | (buddy) "\<not> n \<le> SMALL_OBJ_LIMIT" "n \<le> MEDIUM_OBJ_LIMIT" "tier n = 8"
    | (page) "\<not> n \<le> SMALL_OBJ_LIMIT" "\<not> n \<le> MEDIUM_OBJ_LIMIT" "tier n = 9"
  using get_pool_index_small(1) [OF assms] by (force simp: tier_def)

lemma tier_le: "n \<noteq> 0 \<Longrightarrow> tier n \<le> 9"
  by (erule tier_cases) simp_all

text \<open>The live blocks of one tier.\<close>

definition tier_map :: "live_map \<Rightarrow> nat \<Rightarrow> live_map" where
  "tier_map L j = (\<lambda>p. case L p of None \<Rightarrow> None | Some n \<Rightarrow> if tier n = j then Some n else None)"

lemma tier_map_Some: "tier_map L j p = Some n \<longleftrightarrow> L p = Some n \<and> tier n = j"
  by (auto simp: tier_map_def split: option.splits if_splits)

lemma tier_map_empty [simp]: "tier_map Map.empty j = Map.empty"
  by (simp add: tier_map_def)

lemma tier_map_dom: "dom (tier_map L j) \<subseteq> dom L"
  by (auto simp: tier_map_Some domIff tier_map_def split: option.splits)

lemma tier_map_put:
  "p \<notin> dom L \<Longrightarrow> tier_map (L(p \<mapsto> n)) j = (if tier n = j then (tier_map L j)(p \<mapsto> n) else tier_map L j)"
  by (rule ext) (auto simp: tier_map_def domIff)

lemma tier_map_del:
  "L p = Some n \<Longrightarrow> tier_map (L(p := None)) j = (if tier n = j then (tier_map L j)(p := None) else tier_map L j)"
  by (rule ext) (auto simp: tier_map_def)

lemma tier_map_move:
  assumes "L p = Some n" "q = p \<or> q \<notin> dom L" "tier m = tier n"
  shows "tier_map (L(p := None, q \<mapsto> m)) j =
    (if tier n = j then (tier_map L j)(p := None, q \<mapsto> m) else tier_map L j)"
  using assms by (intro ext) (auto simp: tier_map_def domIff)

lemma tier_map_live: "live (tier_map L j) \<subseteq> live L"
  by (auto simp: live_def tier_map_Some)

lemma live_tier:
  assumes "x \<in> live L"
  obtains p n where "L p = Some n" "x \<in> region p n" "x \<in> live (tier_map L (tier n))"
proof -
  obtain p n where p: "L p = Some n" "x \<in> region p n" using assms by (rule liveE)
  then have "tier_map L (tier n) p = Some n" by (simp add: tier_map_Some)
  then have "x \<in> live (tier_map L (tier n))" using p(2) liveI [of "tier_map L (tier n)" p n x] by blast
  with p show thesis by (rule that)
qed

text \<open>Maps that are well-formed tier by tier, in zones that do not meet, are well-formed.\<close>

lemma tiers_live_ok:
  assumes z: "\<And>j. live_ok (Z j) (tier_map L j)" "\<And>i j. i \<noteq> j \<Longrightarrow> Z i \<inter> Z j = {}" "\<And>j. Z j \<subseteq> H"
  shows "live_ok H L"
proof -
  have one: "block_ok p n \<and> region p n \<subseteq> Z (tier n)" if "L p = Some n" for p n
    using live_okD [OF z(1) [of "tier n"], of p n] that by (simp add: tier_map_Some)
  have "region p n \<inter> region q m = {}" if p: "L p = Some n" and q: "L q = Some m" and ne: "p \<noteq> q" for p n q m
  proof (cases "tier n = tier m")
    case True
    show ?thesis
      by (rule live_ok_disjoint [OF z(1) [of "tier n"] _ _ ne]) (use p q True in \<open>simp_all add: tier_map_Some\<close>)
  next
    case False
    then show ?thesis using one [OF p] one [OF q] z(2) by blast
  qed
  with one z(3) show ?thesis unfolding live_ok_def by blast
qed

lemma tiers_kept:
  assumes z: "\<And>j. live (tier_map L j) \<subseteq> Z j" "\<And>i j. i \<noteq> j \<Longrightarrow> Z i \<inter> Z j = {}" "\<And>j. Z j \<subseteq> H"
    and k: "kept (Z j) (tier_map L j) m m'"
  shows "kept H L m m'"
  unfolding kept_def
proof (intro allI impI)
  fix x assume "x \<in> live L \<or> x \<notin> H"
  then show "m' x = m x"
  proof
    assume "x \<in> live L"
    then obtain p n where x: "x \<in> live (tier_map L (tier n))" by (rule live_tier)
    then have "x \<in> live (tier_map L j) \<or> x \<notin> Z j" using z(1) [of "tier n"] z(2) [of "tier n" j] by blast
    with k show ?thesis by (auto simp: kept_def)
  next
    assume "x \<notin> H"
    with k z(3) [of j] show ?thesis by (auto simp: kept_def)
  qed
qed

section \<open>Representation\<close>

record layout =
  l_state :: ptr
  l_buf :: ptr
  l_fl :: ptr
  l_bs :: ptr
  l_bo :: ptr
  l_pools :: "ptr list"

text \<open>The blocks of the page allocator beside the buddy allocator's, and of the buddy allocator.\<close>

definition page_part :: "layout \<Rightarrow> live_map \<Rightarrow> live_map" where
  "page_part l L = (tier_map L 9)(l_state l \<mapsto> sizeof_gen_state)"

definition pool_bufs :: "layout \<Rightarrow> live_map" where
  "pool_bufs l = (\<lambda>q. if q \<in> set (l_pools l) then Some 65536 else None)"

definition buddy_part :: "layout \<Rightarrow> live_map \<Rightarrow> live_map" where
  "buddy_part l L = tier_map L 8 ++ pool_bufs l"

definition pool_ok :: "layout \<Rightarrow> nat \<Rightarrow> 'e tier_env pool_machine \<Rightarrow> live_map \<Rightarrow> bool" where
  "pool_ok l i t K \<longleftrightarrow> pool_inv (l_pools l ! i) (pool_sizes ! i) (pool_blocks ! i) t K \<and>
     pool_own_buffer (self_ctx t) \<and> pool_child (self_ctx t) = Some buddy_allo"

definition gen_shape :: "layout \<Rightarrow> 'e gen_machine \<Rightarrow> live_map \<Rightarrow> bool" where
  "gen_shape l s L \<longleftrightarrow> length (l_pools l) = 8 \<and> distinct (l_pools l) \<and>
     length (gen_pools (self_ctx s)) = 8 \<and> gen_state (self_ctx s) = l_state l \<and>
     l_state l \<notin> dom (tier_map L 9) \<and> set (l_pools l) \<inter> dom (tier_map L 8) = {} \<and>
     (\<forall>p n. L p = Some n \<longrightarrow> n \<noteq> 0)"

abbreviation lay_buddy_heap :: "layout \<Rightarrow> ptr set" where
  "lay_buddy_heap l \<equiv> buddy_heap (l_buf l) 19 (l_fl l) (l_bs l) (l_bo l)"

definition gen_buddy ::
  "'e os \<Rightarrow> ('e machine \<Rightarrow> live_map \<Rightarrow> bool) \<Rightarrow> nat \<Rightarrow> live_map \<Rightarrow> layout \<Rightarrow> live_map \<Rightarrow>
     'e tier_env machine \<Rightarrow> live_map \<Rightarrow> bool" where
  "gen_buddy os OInv k F l G = buddy_over (page_allo os) (page_inv OInv k F) G
     (l_buf l) 19 (l_fl l) (l_bs l) (l_bo l)"

definition gen_rep ::
  "'e os \<Rightarrow> ('e machine \<Rightarrow> live_map \<Rightarrow> bool) \<Rightarrow> nat \<Rightarrow> live_map \<Rightarrow> layout \<Rightarrow> 'e gen_machine \<Rightarrow> live_map \<Rightarrow> bool" where
  "gen_rep os OInv k F l s L \<longleftrightarrow> gen_shape l s L \<and>
     gen_buddy os OInv k F l (page_part l L) (child_state s) (buddy_part l L) \<and>
     (\<forall>i<8. pool_ok l i (pool_state i s) (tier_map L i))"

section \<open>Zones\<close>

definition zone :: "layout \<Rightarrow> ptr set \<Rightarrow> nat \<Rightarrow> ptr set" where
  "zone l H j = (if j < 8 then region (l_pools l ! j) 65536
     else if j = 8 then lay_buddy_heap l - live (pool_bufs l)
     else if j = 9 then H - lay_buddy_heap l else {})"

lemma pool_bufs_at:
  "i < length (l_pools l) \<Longrightarrow> pool_bufs l (l_pools l ! i) = Some 65536"
  by (simp add: pool_bufs_def)

lemma pool_bufs_live:
  assumes "length (l_pools l) = 8"
  shows "live (pool_bufs l) = (\<Union>i<8. region (l_pools l ! i) 65536)"
  using assms by (auto simp: live_def pool_bufs_def in_set_conv_nth split: if_splits)

end
