(* ===== verification/GenProof.thy ===== *)
theory GenProof
  imports GenRep
begin

text \<open>
  The general purpose allocator over any operating system with the laws of \<open>os_pages\<close>: the zones of
  the tiers, what an operation on one tier does to the whole, and the contract.
\<close>

section \<open>Zones\<close>

lemma with_child_eta [simp]: "with_child (self_ctx t) (child_state t) = t"
  by (cases t) (simp add: with_child_def self_ctx_def child_state_def)

lemma live_ok_outside:
  assumes l: "live_ok h A" and x: "live A \<inter> X = {}"
  shows "live_ok (h - X) A"
proof -
  have "region p n \<inter> X = {}" if "A p = Some n" for p n
    using liveI [of A, OF that] x by blast
  then show ?thesis using l unfolding live_ok_def by blast
qed

lemma live_ok_part:
  assumes l: "live_ok h M" and s: "A \<subseteq>\<^sub>m M" "C \<subseteq>\<^sub>m M" "dom A \<inter> dom C = {}"
  shows "live_ok (h - live C) A"
proof -
  have A: "M p = Some n" if "A p = Some n" for p n using s(1) that by (metis domI map_le_def)
  have C: "M p = Some n" if "C p = Some n" for p n using s(2) that by (metis domI map_le_def)
  have "region p n \<inter> region q m = {}" if "A p = Some n" "C q = Some m" for p n q m
    using live_ok_disjoint [OF l A C] that s(3) by blast
  then have "region p n \<inter> live C = {}" if "A p = Some n" for p n
    using that by (auto elim!: liveE) blast
  then show ?thesis using l A unfolding live_ok_def by blast
qed

context os_pages
begin

abbreviation gen_heap :: "live_map \<Rightarrow> ptr set" where
  "gen_heap F \<equiv> osheap - live F"

lemma gen_repD:
  assumes R: "gen_rep os OInv k F l s L"
  shows "gen_shape l s L" "gen_buddy os OInv k F l (page_part l L) (child_state s) (buddy_part l L)"
    "\<And>i. i < 8 \<Longrightarrow> pool_ok l i (pool_state i s) (tier_map L i)"
    "length (l_pools l) = 8" "length (gen_pools (self_ctx s)) = 8"
    "\<And>p n. L p = Some n \<Longrightarrow> n \<noteq> 0" "l_state l \<notin> dom (tier_map L 9)" "set (l_pools l) \<inter> dom (tier_map L 8) = {}"
  using R by (auto simp: gen_rep_def gen_shape_def)

lemma gen_buddyD:
  assumes "gen_buddy os OInv k F l G t K"
  shows "buddy_inv (l_buf l) 19 (l_fl l) (l_bs l) (l_bo l) t K" "live_ok (lay_buddy_heap l) K"
    "page_inv OInv k F (child_state t) (buddy_grants True (l_buf l) 19 (l_fl l) (l_bs l) (l_bo l) G)"
    "lay_buddy_heap l \<subseteq> live (buddy_grants True (l_buf l) 19 (l_fl l) (l_bs l) (l_bo l) G)"
    "lay_buddy_heap l \<inter> live G = {}" "lay_buddy_heap l \<subseteq> gen_heap F"
    "live G \<subseteq> live (buddy_grants True (l_buf l) 19 (l_fl l) (l_bs l) (l_bo l) G)"
    "{l_buf l, l_fl l, l_bs l, l_bo l} \<inter> dom G = {}" "distinct [l_buf l, l_fl l, l_bs l, l_bo l]"
proof -
  have J: "buddy_over (page_allo os) (page_inv OInv k F) G (l_buf l) 19 (l_fl l) (l_bs l) (l_bo l) t K"
    using assms by (simp add: gen_buddy_def)
  show "buddy_inv (l_buf l) 19 (l_fl l) (l_bs l) (l_bo l) t K"
    "page_inv OInv k F (child_state t) (buddy_grants True (l_buf l) 19 (l_fl l) (l_bs l) (l_bo l) G)"
    using buddy_overD [OF J] by simp_all
  show "live_ok (lay_buddy_heap l) K" by (rule buddy.live_inv [OF buddy_overD(1) [OF J]])
  show "lay_buddy_heap l \<subseteq> live (buddy_grants True (l_buf l) 19 (l_fl l) (l_bs l) (l_bo l) G)"
    "lay_buddy_heap l \<inter> live G = {}" "lay_buddy_heap l \<subseteq> gen_heap F"
    "live G \<subseteq> live (buddy_grants True (l_buf l) 19 (l_fl l) (l_bs l) (l_bo l) G)"
    using page.buddy_over_heap [OF J] by simp_all
  show "{l_buf l, l_fl l, l_bs l, l_bo l} \<inter> dom G = {}" "distinct [l_buf l, l_fl l, l_bs l, l_bo l]"
    using buddy_over_distinct [OF J] by simp_all
qed

lemma buddy_part_sub:
  assumes "set (l_pools l) \<inter> dom (tier_map L 8) = {}"
  shows "pool_bufs l \<subseteq>\<^sub>m buddy_part l L" "tier_map L 8 \<subseteq>\<^sub>m buddy_part l L" "dom (pool_bufs l) = set (l_pools l)"
proof -
  show d: "dom (pool_bufs l) = set (l_pools l)" by (auto simp: pool_bufs_def split: if_splits)
  show "pool_bufs l \<subseteq>\<^sub>m buddy_part l L" by (simp add: buddy_part_def)
  show "tier_map L 8 \<subseteq>\<^sub>m buddy_part l L"
    unfolding buddy_part_def map_le_def
  proof
    fix p assume "p \<in> dom (tier_map L 8)"
    then have "p \<notin> dom (pool_bufs l)" using assms d by blast
    then show "tier_map L 8 p = (tier_map L 8 ++ pool_bufs l) p" by (simp add: map_add_dom_app_simps)
  qed
qed

lemma gen_zones:
  assumes R: "gen_rep os OInv k F l s L"
  shows "live_ok (zone l (gen_heap F) j) (tier_map L j)" "zone l (gen_heap F) j \<subseteq> gen_heap F"
    "i \<noteq> j \<Longrightarrow> zone l (gen_heap F) i \<inter> zone l (gen_heap F) j = {}" "live (pool_bufs l) \<subseteq> lay_buddy_heap l"
    "i < 8 \<Longrightarrow> region (l_pools l ! i) 65536 \<subseteq> lay_buddy_heap l"
proof -
  note D = gen_repD [OF R] and G = gen_buddyD [OF gen_repD(2) [OF R]]
  note sub = buddy_part_sub [OF D(8)]
  show pb: "live (pool_bufs l) \<subseteq> lay_buddy_heap l"
    using live_mono [OF sub(1)] live_ok_heap [OF G(2)] by blast
  show pr: "region (l_pools l ! i) 65536 \<subseteq> lay_buddy_heap l" if "i < 8" for i
    using pb that by (auto simp: pool_bufs_live [OF D(4)])
  have pp: "region (l_pools l ! i) 65536 \<inter> region (l_pools l ! j) 65536 = {}" if "i < 8" "j < 8" "i \<noteq> j" for i j
  proof (rule live_ok_disjoint [OF G(2)])
    show "buddy_part l L (l_pools l ! i) = Some 65536" "buddy_part l L (l_pools l ! j) = Some 65536"
      using that D(4) by (simp_all add: buddy_part_def pool_bufs_at map_add_def)
    show "l_pools l ! i \<noteq> l_pools l ! j"
      using D(1,4) that by (simp add: gen_shape_def nth_eq_iff_index_eq)
  qed
  show "zone l (gen_heap F) i \<inter> zone l (gen_heap F) j = {}" if "i \<noteq> j" for i j
    using that pr [of i] pr [of j] pp [of i j] by (auto simp: zone_def pool_bufs_live [OF D(4)])
  show "zone l (gen_heap F) j \<subseteq> gen_heap F"
    using pr [of j] G(6) by (auto simp: zone_def)
  consider "j < 8" | "j = 8" | "j = 9" | "9 < j" by linarith
  then show "live_ok (zone l (gen_heap F) j) (tier_map L j)"
  proof cases
    case 1
    then have "pool_inv (l_pools l ! j) (pool_sizes ! j) (pool_blocks ! j) (pool_state j s) (tier_map L j)"
      using D(3) by (simp add: pool_ok_def)
    from pool.live_inv [OF this] show ?thesis using 1 by (simp add: zone_def pool_tables)
  next
    case 2
    have "dom (tier_map L 8) \<inter> dom (pool_bufs l) = {}" using D(8) sub(3) by blast
    from live_ok_part [OF G(2) sub(2,1) this] show ?thesis using 2 by (simp add: zone_def)
  next
    case 3
    have "tier_map L 9 \<subseteq>\<^sub>m page_part l L" using D(7) by (auto simp: page_part_def map_le_def)
    moreover have "page_part l L \<subseteq>\<^sub>m buddy_grants True (l_buf l) 19 (l_fl l) (l_bs l) (l_bo l) (page_part l L)"
      by (rule buddy_grants_sub [OF G(9,8)])
    ultimately have le: "tier_map L 9 \<subseteq>\<^sub>m buddy_grants True (l_buf l) 19 (l_fl l) (l_bs l) (l_bo l) (page_part l L)"
      and "live (tier_map L 9) \<subseteq> live (page_part l L)" by (auto intro: map_le_trans dest: live_mono)
    note l = page.live_inv [OF G(3)]
    have "live_ok (gen_heap F - live Map.empty) (tier_map L 9)"
      by (rule live_ok_part [OF l le]) simp_all
    then have "live_ok (gen_heap F) (tier_map L 9)" by simp
    moreover have "live (tier_map L 9) \<inter> lay_buddy_heap l = {}"
      using G(5) \<open>live (tier_map L 9) \<subseteq> live (page_part l L)\<close> by blast
    ultimately have "live_ok (gen_heap F - lay_buddy_heap l) (tier_map L 9)" by (rule live_ok_outside)
    then show ?thesis using 3 by (simp add: zone_def)
  next
    case 4
    have "tier_map L j p = None" for p
    proof (rule ccontr)
      assume "tier_map L j p \<noteq> None"
      then obtain n where "tier_map L j p = Some n" by blast
      then show False using D(6) tier_le [of n] 4 by (auto simp: tier_map_Some)
    qed
    then have "tier_map L j = Map.empty" by blast
    then show ?thesis using 4 by (simp add: zone_def)
  qed
qed

lemma gen_live_ok: "gen_rep os OInv k F l s L \<Longrightarrow> live_ok (gen_heap F) L"
  by (rule tiers_live_ok [of "zone l (gen_heap F)"]) (use gen_zones in blast)+

lemma gen_kept:
  assumes R: "gen_rep os OInv k F l s L" and k: "kept (zone l (gen_heap F) j) (tier_map L j) m m'"
  shows "kept (gen_heap F) L m m'"
  by (rule tiers_kept [of L "zone l (gen_heap F)" _ j, OF _ _ _ k])
    (use gen_zones [OF R] live_ok_heap [OF gen_zones(1) [OF R]] in blast)+

section \<open>An operation on one tier\<close>

lemma pool_state_simps:
  "mem (pool_state i s) = mem s" "child_state (pool_state i s) = child_state s"
  "self_ctx (pool_state i s) = gen_pools (self_ctx s) ! i"
  by (simp_all add: pool_state_def)

lemma pool_ok_cong:
  assumes P: "pool_ok l i t K" and i: "i < 8" and c: "self_ctx t' = self_ctx t"
    and m: "\<And>x. x \<in> region (l_pools l ! i) 65536 \<Longrightarrow> x \<notin> live K \<Longrightarrow> mem t' x = mem t x"
  shows "pool_ok l i t' K"
proof -
  have J: "pool_inv (l_pools l ! i) (pool_sizes ! i) (pool_blocks ! i) t K" using P by (simp add: pool_ok_def)
  have "pool_inv (l_pools l ! i) (pool_sizes ! i) (pool_blocks ! i) t' K"
    by (rule pool_inv_cong [OF J c]) (use m pool_tables(2) [OF i] in simp)
  then show ?thesis using P c by (simp add: pool_ok_def)
qed

lemma gen_pool_step:
  assumes R: "gen_rep os OInv k F l s L" and i: "i < 8" and P: "pool_ok l i t (tier_map L' i)"
    and out: "\<And>x. x \<notin> region (l_pools l ! i) 65536 \<Longrightarrow> mem t x = mem s x"
    and e: "snd (env t) = snd (env s)"
    and L': "\<And>j. j \<noteq> i \<Longrightarrow> tier_map L' j = tier_map L j" "\<And>p n. L' p = Some n \<Longrightarrow> n \<noteq> 0"
  shows "gen_rep os OInv k F l (with_pool i s t) L'"
proof -
  note D = gen_repD [OF R] and G = gen_buddyD [OF gen_repD(2) [OF R]]
  have parts: "page_part l L' = page_part l L" "buddy_part l L' = buddy_part l L"
    using L'(1) i by (simp_all add: page_part_def buddy_part_def)
  have "gen_shape l (with_pool i s t) L'"
    using D(1) L' i by (simp add: gen_shape_def with_pool_def)
  moreover have "gen_buddy os OInv k F l (page_part l L) (child_state t) (buddy_part l L)"
    unfolding gen_buddy_def
  proof (rule allocator.client_write [OF exact_allocator.axioms(1) [OF page.buddy_over_exact]])
    show "buddy_over (page_allo os) (page_inv OInv k F) (page_part l L) (l_buf l) 19 (l_fl l) (l_bs l) (l_bo l)
        (child_state s) (buddy_part l L)" using D(2) by (simp add: gen_buddy_def)
    show "env (child_state t) = env (child_state s)" using e by simp
    fix x assume "x \<notin> live (buddy_part l L)"
    then have "x \<notin> live (pool_bufs l)" using live_mono [OF buddy_part_sub(1) [OF D(8)]] by blast
    then show "mem (child_state t) x = mem (child_state s) x"
      using i out by (simp add: pool_bufs_live [OF D(4)])
  qed
  moreover have "pool_ok l j (pool_state j (with_pool i s t)) (tier_map L' j)" if j: "j < 8" for j
  proof (cases "j = i")
    case True
    then have "pool_state j (with_pool i s t) = t" using D(5) i by (simp add: pool_state_def with_pool_def)
    with P True show ?thesis by simp
  next
    case False
    have z: "region (l_pools l ! j) 65536 \<inter> region (l_pools l ! i) 65536 = {}"
      using gen_zones(3) [OF R, of j i] False i j by (simp add: zone_def)
    have "pool_ok l j (pool_state j (with_pool i s t)) (tier_map L j)"
      using D(3) [OF j] j
    proof (rule pool_ok_cong)
      show "self_ctx (pool_state j (with_pool i s t)) = self_ctx (pool_state j s)"
        using False by (simp add: pool_state_def with_pool_def)
      show "mem (pool_state j (with_pool i s t)) x = mem (pool_state j s) x"
        if "x \<in> region (l_pools l ! j) 65536" for x
        using out [of x] z that by (auto simp: pool_state_def with_pool_def)
    qed
    then show ?thesis using L'(1) False by simp
  qed
  ultimately show ?thesis by (simp add: gen_rep_def parts with_pool_def)
qed

lemma gen_buddy_step:
  assumes R: "gen_rep os OInv k F l s L"
    and B: "gen_buddy os OInv k F l (page_part l L) t (buddy_part l L')"
    and out: "\<And>x. x \<in> live (pool_bufs l) \<Longrightarrow> mem t x = mem s x"
    and L': "\<And>j. j \<noteq> 8 \<Longrightarrow> tier_map L' j = tier_map L j" "\<And>p n. L' p = Some n \<Longrightarrow> n \<noteq> 0"
      "set (l_pools l) \<inter> dom (tier_map L' 8) = {}"
  shows "gen_rep os OInv k F l (with_child (self_ctx s) t) L'"
proof -
  note D = gen_repD [OF R]
  have "page_part l L' = page_part l L" using L'(1) by (simp add: page_part_def)
  moreover have "gen_shape l (with_child (self_ctx s) t) L'"
    using D(1) L' by (simp add: gen_shape_def)
  moreover have "pool_ok l j (pool_state j (with_child (self_ctx s) t)) (tier_map L' j)" if j: "j < 8" for j
  proof -
    have "pool_ok l j (pool_state j (with_child (self_ctx s) t)) (tier_map L j)"
      using D(3) [OF j] j
      by (rule pool_ok_cong) (use out j in \<open>auto simp: pool_state_def pool_bufs_live [OF D(4)]\<close>)
    then show ?thesis using L'(1) j by simp
  qed
  ultimately show ?thesis using B by (simp add: gen_rep_def)
qed

lemma gen_page_step:
  assumes R: "gen_rep os OInv k F l s L"
    and P: "page_inv OInv k F t (buddy_grants True (l_buf l) 19 (l_fl l) (l_bs l) (l_bo l) (page_part l L'))"
    and out: "\<And>x. x \<in> lay_buddy_heap l \<Longrightarrow> mem t x = mem s x"
    and L': "\<And>j. j \<noteq> 9 \<Longrightarrow> tier_map L' j = tier_map L j" "\<And>p n. L' p = Some n \<Longrightarrow> n \<noteq> 0"
      "l_state l \<notin> dom (tier_map L' 9)" "{l_buf l, l_fl l, l_bs l, l_bo l} \<inter> dom (tier_map L' 9) = {}"
  shows "gen_rep os OInv k F l (with_child (self_ctx s) (with_child (self_ctx (child_state s)) t)) L'"
proof -
  note D = gen_repD [OF R] and G = gen_buddyD [OF gen_repD(2) [OF R]]
  let ?b = "with_child (self_ctx (child_state s)) t"
  let ?s = "with_child (self_ctx s) ?b"
  have same: "buddy_part l L' = buddy_part l L" using L'(1) by (simp add: buddy_part_def)
  have "gen_shape l ?s L'" using D(1) L' by (simp add: gen_shape_def)
  moreover have "gen_buddy os OInv k F l (page_part l L') ?b (buddy_part l L)"
  proof -
    have "buddy_inv (l_buf l) 19 (l_fl l) (l_bs l) (l_bo l) ?b (buddy_part l L)"
      by (rule buddy_mem.buddy_inv_cong [OF buddy_geometry [OF G(1)] G(1)]) (simp_all add: out)
    moreover have "buddy_backed (page_allo os) (page_inv OInv k F) (page_part l L) (l_buf l) 19 (l_fl l) (l_bs l) (l_bo l)
        (child_state s)" "bd_own_buffer (self_ctx (child_state s))"
      using D(2) by (simp_all add: gen_buddy_def buddy_over_def)
    ultimately show ?thesis
      using P L'(4) G(8) by (auto simp: gen_buddy_def buddy_over_def buddy_backed_def page_part_def)
  qed
  moreover have "pool_ok l j (pool_state j ?s) (tier_map L' j)" if j: "j < 8" for j
  proof -
    have "pool_ok l j (pool_state j ?s) (tier_map L j)"
      using D(3) [OF j] j
    proof (rule pool_ok_cong)
      show "mem (pool_state j ?s) x = mem (pool_state j s) x" if "x \<in> region (l_pools l ! j) 65536" for x
        using gen_zones(5) [OF R j] that out by (auto simp: pool_state_def)
    qed (simp add: pool_state_def)
    then show ?thesis using L'(1) j by simp
  qed
  ultimately show ?thesis by (simp add: gen_rep_def same)
qed

text \<open>Memory of the clients and the contexts: writes into live blocks.\<close>

lemma tier_parts_live:
  assumes R: "gen_rep os OInv k F l s L" and x: "x \<in> live L"
  shows "x \<in> live (buddy_grants True (l_buf l) 19 (l_fl l) (l_bs l) (l_bo l) (page_part l L))"
    "x \<in> lay_buddy_heap l \<Longrightarrow> x \<in> live (buddy_part l L)"
    "i < 8 \<Longrightarrow> x \<in> region (l_pools l ! i) 65536 \<Longrightarrow> x \<in> live (tier_map L i)"
    "x \<notin> lay_buddy_heap l \<Longrightarrow> x \<in> live (page_part l L)"
proof -
  note D = gen_repD [OF R] and G = gen_buddyD [OF gen_repD(2) [OF R]] and Z = gen_zones [OF R]
  note sub = buddy_part_sub [OF D(8)]
  obtain p n where p: "L p = Some n" "x \<in> region p n" "x \<in> live (tier_map L (tier n))"
    using x by (rule live_tier)
  have z: "x \<in> zone l (gen_heap F) (tier n)" using live_ok_heap [OF Z(1)] p(3) by blast
  have other: "x \<notin> zone l (gen_heap F) j" if "j \<noteq> tier n" for j using Z(3) [OF that] z by blast
  have t9: "tier_map L 9 \<subseteq>\<^sub>m page_part l L" using D(7) by (auto simp: page_part_def map_le_def)
  have pl: "x \<in> live (page_part l L)" if "tier n = 9" using p(3) that live_mono [OF t9] by auto
  consider "tier n < 8" | "tier n = 8" | "tier n = 9" using tier_le [OF D(6) [OF p(1)]] by linarith
  note c = this
  show "x \<in> live (buddy_grants True (l_buf l) 19 (l_fl l) (l_bs l) (l_bo l) (page_part l L))"
  proof (cases rule: c)
    case 3
    then show ?thesis using pl G(7) by blast
  qed (use z Z(5) G(4) in \<open>auto simp: zone_def\<close>)
  show "x \<in> live (buddy_part l L)" if h: "x \<in> lay_buddy_heap l"
  proof (cases rule: c)
    case 1
    then have "x \<in> live (pool_bufs l)" using z by (auto simp: pool_bufs_live [OF D(4)] zone_def)
    then show ?thesis using live_mono [OF sub(1)] by blast
  next
    case 2
    then show ?thesis using p(3) live_mono [OF sub(2)] by auto
  next
    case 3
    then show ?thesis using pl G(5) h by blast
  qed
  show "x \<in> live (page_part l L)" if h: "x \<notin> lay_buddy_heap l"
  proof (cases rule: c)
    case 3
    then show ?thesis by (rule pl)
  qed (use h z Z(5) in \<open>auto simp: zone_def\<close>)
  show "x \<in> live (tier_map L i)" if "i < 8" "x \<in> region (l_pools l ! i) 65536"
  proof (cases "i = tier n")
    case False
    then show ?thesis using other [of i] that by (simp add: zone_def)
  qed (use p(3) in simp)
qed

lemma gen_client_write:
  assumes R: "gen_rep os OInv k F l s L" and e: "env s' = env s"
    and w: "\<And>x. x \<in> gen_heap F \<Longrightarrow> x \<notin> live L \<Longrightarrow> mem s' x = mem s x"
  shows "gen_rep os OInv k F l s' L"
proof -
  note D = gen_repD [OF R] and G = gen_buddyD [OF gen_repD(2) [OF R]] and Z = gen_zones [OF R]
  note T = tier_parts_live [OF R]
  have c: "self_ctx s' = self_ctx s" "self_ctx (child_state s') = self_ctx (child_state s)"
    using e by (simp_all add: self_ctx_def)
  have "buddy_inv (l_buf l) 19 (l_fl l) (l_bs l) (l_bo l) (child_state s') (buddy_part l L)"
    by (rule buddy_mem.buddy_inv_cong [OF buddy_geometry [OF G(1)] G(1) c(2)]) (use w T(2) G(6) in auto)
  moreover have "page_inv OInv k F (child_state (child_state s'))
      (buddy_grants True (l_buf l) 19 (l_fl l) (l_bs l) (l_bo l) (page_part l L))"
    by (rule page.client_write [OF G(3)]) (use e w T(1) in auto)
  ultimately have "gen_buddy os OInv k F l (page_part l L) (child_state s') (buddy_part l L)"
    using D(2) c(2) by (simp add: gen_buddy_def buddy_over_def buddy_backed_def)
  moreover have "pool_ok l j (pool_state j s') (tier_map L j)" if j: "j < 8" for j
    using D(3) [OF j] j
    by (rule pool_ok_cong) (use w T(3) [OF _ j] Z(5) [OF j] G(6) in \<open>auto simp: pool_state_def c(1)\<close>)
  moreover have "gen_shape l s' L" using D(1) c(1) by (simp add: gen_shape_def)
  ultimately show ?thesis by (simp add: gen_rep_def)
qed

end

end
