(* ===== verification/GenOps.thy ===== *)
theory GenOps
  imports GenProof
begin

text \<open>
  The operations of the general purpose allocator, tier by tier, and its contract.
\<close>

section \<open>From the tiers to the whole\<close>

lemma with_pool_self: "i < length (gen_pools (self_ctx s)) \<Longrightarrow> with_pool i s (pool_state i s) = s"
  by (simp add: with_pool_def pool_state_def)

lemma buddy_part_put:
  assumes "p \<notin> set (l_pools l)" "p \<notin> dom L" "tier n = 8"
  shows "buddy_part l (L(p \<mapsto> n)) = (buddy_part l L)(p \<mapsto> n)"
  using assms by (simp add: buddy_part_def tier_map_put map_add_upd_left pool_bufs_def domIff)

lemma buddy_part_del:
  assumes "p \<notin> set (l_pools l)" "L p = Some n" "tier n = 8"
  shows "buddy_part l (L(p := None)) = (buddy_part l L)(p := None)"
  using assms by (auto simp: buddy_part_def tier_map_del map_add_def pool_bufs_def fun_eq_iff)

lemma buddy_part_move:
  assumes "p \<notin> set (l_pools l)" "q \<notin> set (l_pools l)" "L p = Some n" "tier n = 8" "tier m = 8" "q = p \<or> q \<notin> dom L"
  shows "buddy_part l (L(p := None, q \<mapsto> m)) = (buddy_part l L)(p := None, q \<mapsto> m)"
  using assms tier_map_move [OF assms(3,6), of m 8]
  by (auto simp: buddy_part_def map_add_def pool_bufs_def fun_eq_iff)

lemma grants_put:
  assumes "p \<notin> {B, fl, bs, bo}"
  shows "buddy_grants True B D fl bs bo (G(p \<mapsto> n)) = (buddy_grants True B D fl bs bo G)(p \<mapsto> n)"
    "buddy_grants True B D fl bs bo (G(p := None)) = (buddy_grants True B D fl bs bo G)(p := None)"
  using assms by (auto simp: buddy_grants_def fun_eq_iff)

lemma page_part_put:
  assumes "p \<noteq> l_state l" "p \<notin> dom L" "tier n = 9"
  shows "page_part l (L(p \<mapsto> n)) = (page_part l L)(p \<mapsto> n)"
  using assms by (simp add: page_part_def tier_map_put fun_upd_twist)

lemma page_part_del:
  assumes "p \<noteq> l_state l" "L p = Some n" "tier n = 9"
  shows "page_part l (L(p := None)) = (page_part l L)(p := None)"
  using assms by (simp add: page_part_def tier_map_del fun_upd_twist)

lemma page_part_move:
  assumes "p \<noteq> l_state l" "q \<noteq> l_state l" "L p = Some n" "tier n = 9" "tier m = 9" "q = p \<or> q \<notin> dom L"
  shows "page_part l (L(p := None, q \<mapsto> m)) = (page_part l L)(p := None, q \<mapsto> m)"
  using assms tier_map_move [OF assms(3,6), of m 9] by (auto simp: page_part_def fun_eq_iff)

context os_pages
begin

text \<open>A block that is new in its tier is new.\<close>

lemma gen_fresh:
  assumes R: "gen_rep os OInv k F l s L" and p: "p \<in> zone l (gen_heap F) j" "p \<notin> dom (tier_map L j)"
  shows "p \<notin> dom L"
proof
  assume "p \<in> dom L"
  then obtain m where m: "L p = Some m" by blast
  then have t: "tier_map L (tier m) p = Some m" by (simp add: tier_map_Some)
  note l = gen_zones(1) [OF R, of "tier m"]
  have "p \<in> region p m" using live_okD(1) [OF l t] by (intro region_self) (simp add: block_ok_def)
  then have "p \<in> zone l (gen_heap F) (tier m)" using live_okD(2) [OF l t] by blast
  then show False using gen_zones(3) [OF R, of "tier m" j] p t by auto
qed

lemma gen_buddy_kept:
  assumes R: "gen_rep os OInv k F l s L" and kb: "kept (gen_heap F - live (page_part l L)) (buddy_part l L) m m'"
  shows "kept (gen_heap F) L m m'"
  using kb tier_parts_live(2,4) [OF R] unfolding kept_def by blast

lemma gen_page_kept:
  assumes R: "gen_rep os OInv k F l s L"
    and kp: "kept (gen_heap F) (buddy_grants True (l_buf l) 19 (l_fl l) (l_bs l) (l_bo l) (page_part l L)) m m'"
  shows "kept (gen_heap F) L m m'"
  using kp tier_parts_live(1) [OF R] unfolding kept_def by blast

lemma gen_pool_kept:
  assumes R: "gen_rep os OInv k F l s L" and i: "i < 8"
    and kp: "kept (region (l_pools l ! i) 65536) (tier_map L i) m m'"
  shows "kept (gen_heap F) L m m'"
  by (rule gen_kept [OF R, of i]) (use kp i in \<open>simp add: zone_def\<close>)

text \<open>The buddy allocator and the pages below it, as one allocator, with the other pages fixed.\<close>

lemma gen_buddy_exact:
  "exact_allocator buddy_allo (gen_buddy os OInv k F l G) (gen_heap F - live G) (2 ^ 63)"
  unfolding gen_buddy_def by (rule page.buddy_over_exact)

lemmas gen_buddy_allocator = exact_allocator.axioms(1) [OF gen_buddy_exact]

section \<open>Allocation\<close>

lemma gen_alloc_pool:
  assumes R: "gen_rep os OInv k F l s L" and n: "n \<noteq> 0" "n \<le> SMALL_OBJ_LIMIT"
  shows "\<exists>p s'. gen_alloc_fn os n s = Some (p, s') \<and> kept (gen_heap F) L (mem s) (mem s') \<and>
    (if p = NULL then gen_rep os OInv k F l s' L else p \<notin> dom L \<and> gen_rep os OInv k F l s' (L(p \<mapsto> n)))"
proof -
  note D = gen_repD [OF R]
  define i where "i = get_pool_index n"
  have i: "i < 8" "tier n = i" using get_pool_index_small(1) [OF n] n by (simp_all add: i_def tier_def)
  have J: "pool_inv (l_pools l ! i) (pool_sizes ! i) (pool_blocks ! i) (pool_state i s) (tier_map L i)"
    and P: "pool_ok l i (pool_state i s) (tier_map L i)" using D(3) [OF i(1)] by (simp_all add: pool_ok_def)
  have run: "gen_alloc_fn os n s = on_pool i (pool_alloc_fn n) s"
    using n by (simp add: gen_alloc_fn_def on_pool_def i_def allo_alloc_def pool_allo_def)
  show ?thesis
  proof (cases rule: pool_alloc_cases [OF J, of n])
    case 1
    then have "gen_alloc_fn os n s = Some (NULL, s)"
      using i(1) D(5) by (simp add: run on_pool_def with_pool_self)
    then show ?thesis using R by simp
  next
    case (2 p t)
    note fr = pool_alloc_frame [OF 2(1)]
    have "p \<in> region (l_pools l ! i) 65536"
      using pool_slot_in_region [of "l_pools l ! i" "pool_sizes ! i" "pool_blocks ! i" p] 2(7) J
      by (simp add: pool_inv_def pool_tables(2) [OF i(1)])
    then have new: "p \<notin> dom L" using i(1) 2(4) by (intro gen_fresh [OF R, of p i]) (simp_all add: zone_def)
    have "gen_rep os OInv k F l (with_pool i s t) (L(p \<mapsto> n))"
    proof (rule gen_pool_step [OF R i(1)])
      show "pool_ok l i t (tier_map (L(p \<mapsto> n)) i)"
        using 2(8) P fr i(2) by (simp add: pool_ok_def tier_map_put [OF new])
      show "tier_map (L(p \<mapsto> n)) j = tier_map L j" if "j \<noteq> i" for j
        using that i(2) by (simp add: tier_map_put [OF new])
      show "n' \<noteq> 0" if "(L(p \<mapsto> n)) q = Some n'" for q n'
        using that D(6) n(1) by (auto split: if_splits)
    qed (use 2(3,9) in \<open>simp_all add: pool_state_def\<close>)
    moreover have "gen_alloc_fn os n s = Some (p, with_pool i s t)" using 2(1) by (simp add: run on_pool_def)
    moreover have "mem (with_pool i s t) = mem s" using 2(3) by (simp add: with_pool_def pool_state_def)
    ultimately show ?thesis using new 2(2) by simp
  qed
qed

text \<open>Exactly when a small request succeeds: its pool is not exhausted. There is no other tier to try.\<close>

lemma gen_small_alloc:
  assumes R: "gen_rep os OInv k F l s L" and n: "n \<noteq> 0" "n \<le> SMALL_OBJ_LIMIT"
  defines "i \<equiv> get_pool_index n"
  shows "\<exists>p s'. gen_alloc_fn os n s = Some (p, s') \<and>
    (p \<noteq> NULL \<longleftrightarrow> card (dom (tier_map L i)) < unat (pool_blocks ! i))"
proof -
  note D = gen_repD [OF R]
  have i: "i < 8" using get_pool_index_small(1) [OF n] by (simp add: i_def)
  let ?B = "l_pools l ! i" and ?bs = "pool_sizes ! i" and ?N = "pool_blocks ! i"
  have J: "pool_inv ?B ?bs ?N (pool_state i s) (tier_map L i)" using D(3) [OF i] by (simp add: pool_ok_def)
  then have sl: "dom (tier_map L i) \<subseteq> pool_slots ?B ?bs ?N" and g: "pool_geometry ?B ?bs ?N"
    using pool_live_slot [OF J] by (auto simp: pool_inv_def)
  note cs = pool_slots_card [OF g]
  have run: "gen_alloc_fn os n s = on_pool i (pool_alloc_fn n) s"
    using n by (simp add: gen_alloc_fn_def on_pool_def i_def allo_alloc_def pool_allo_def)
  show ?thesis
  proof (cases rule: pool_alloc_cases [OF J, of n])
    case 1
    then have "dom (tier_map L i) = pool_slots ?B ?bs ?N"
      using n get_pool_index_small(2) [OF n] by (auto simp: i_def)
    then have "\<not> card (dom (tier_map L i)) < unat ?N" using cs by simp
    then show ?thesis using 1(1) by (simp add: run on_pool_def)
  next
    case (2 p t)
    have "card (dom (tier_map L i)) < card (pool_slots ?B ?bs ?N)"
      using sl 2(4,7) cs by (intro psubset_card_mono) auto
    then show ?thesis using 2(1,2) cs by (simp add: run on_pool_def)
  qed
qed

lemma gen_alloc_buddy:
  assumes R: "gen_rep os OInv k F l s L" and n: "\<not> n \<le> SMALL_OBJ_LIMIT" "n \<le> MEDIUM_OBJ_LIMIT"
  shows "\<exists>p s'. gen_alloc_fn os n s = Some (p, s') \<and> kept (gen_heap F) L (mem s) (mem s') \<and>
    (if p = NULL then gen_rep os OInv k F l s' L else p \<notin> dom L \<and> gen_rep os OInv k F l s' (L(p \<mapsto> n)))"
proof -
  note D = gen_repD [OF R] and sub = buddy_part_sub [OF gen_repD(8) [OF R]]
  have t8: "tier n = 8" and n0: "n \<noteq> 0" "unat n < 2 ^ 63"
    using n by (auto simp: tier_def SMALL_OBJ_LIMIT_def MEDIUM_OBJ_LIMIT_def word_le_nat_alt)
  obtain p t where r: "buddy_alloc_fn n (child_state s) = Some (p, t)"
    and post: "alloc_post (gen_buddy os OInv k F l (page_part l L)) (gen_heap F - live (page_part l L))
      (buddy_part l L) n (child_state s) p t"
    using allocator.alloc_law [OF gen_buddy_allocator D(2) n0(2)] by (auto simp: buddy_allo_def)
  define s' where "s' = with_child (self_ctx s) t"
  have run: "gen_alloc_fn os n s = Some (p, s')"
    using n n0 r by (simp add: gen_alloc_fn_def on_buddy_def call_child_def allo_alloc_def buddy_allo_def s'_def)
  have kb: "kept (gen_heap F - live (page_part l L)) (buddy_part l L) (mem s) (mem t)"
    using post by (simp add: alloc_post_def)
  then have out: "mem t x = mem s x" if "x \<in> live (pool_bufs l)" for x
    using that live_mono [OF sub(1)] by (auto simp: kept_def)
  have km: "kept (gen_heap F) L (mem s) (mem s')"
    using gen_buddy_kept [OF R kb] by (simp add: s'_def)
  show ?thesis
  proof (cases "p = NULL")
    case True
    have "gen_rep os OInv k F l s' L"
      unfolding s'_def using post True out D by (intro gen_buddy_step [OF R]) (simp_all add: alloc_post_def)
    with True run km show ?thesis by simp
  next
    case False
    then have p: "p \<notin> dom (buddy_part l L)"
      and B: "gen_buddy os OInv k F l (page_part l L) t ((buddy_part l L)(p \<mapsto> n))"
      using post by (simp_all add: alloc_post_def)
    have pb: "p \<notin> set (l_pools l)" using p sub(3) by (auto simp: buddy_part_def)
    have p8: "p \<notin> dom (tier_map L 8)" using p by (auto simp: buddy_part_def)
    note lb = gen_buddyD(2) [OF B]
    have blk: "region p n \<subseteq> lay_buddy_heap l" "p \<in> region p n"
      using live_okD [OF lb, of p n] region_self [OF n0(1)] by simp_all
    moreover have "region p n \<inter> live (pool_bufs l) = {}"
      using live_ok_fresh [OF lb p] live_mono [OF sub(1)] by blast
    ultimately have "p \<in> zone l (gen_heap F) 8" by (auto simp: zone_def)
    then have new: "p \<notin> dom L" by (rule gen_fresh [OF R _ p8])
    have "gen_rep os OInv k F l s' (L(p \<mapsto> n))"
      unfolding s'_def
    proof (rule gen_buddy_step [OF R])
      show "gen_buddy os OInv k F l (page_part l L) t (buddy_part l (L(p \<mapsto> n)))"
        using B by (simp add: buddy_part_put [OF pb new t8])
      show "n' \<noteq> 0" if "(L(p \<mapsto> n)) q = Some n'" for q n'
        using that D(6) n0(1) by (auto split: if_splits)
      show "set (l_pools l) \<inter> dom (tier_map (L(p \<mapsto> n)) 8) = {}"
        using D(8) pb by (auto simp: tier_map_put [OF new] t8)
    qed (simp_all add: out tier_map_put [OF new] t8)
    with False run km new show ?thesis by simp
  qed
qed

lemma gen_alloc_page:
  assumes R: "gen_rep os OInv k F l s L" and n: "\<not> n \<le> SMALL_OBJ_LIMIT" "\<not> n \<le> MEDIUM_OBJ_LIMIT" "unat n < 2 ^ 63"
  shows "\<exists>p s'. gen_alloc_fn os n s = Some (p, s') \<and> kept (gen_heap F) L (mem s) (mem s') \<and>
    (if p = NULL then gen_rep os OInv k F l s' L else p \<notin> dom L \<and> gen_rep os OInv k F l s' (L(p \<mapsto> n)))"
proof -
  note D = gen_repD [OF R] and G = gen_buddyD [OF gen_repD(2) [OF R]]
  let ?G = "buddy_grants True (l_buf l) 19 (l_fl l) (l_bs l) (l_bo l) (page_part l L)"
  have t9: "tier n = 9" and n0: "n \<noteq> 0" using n by (auto simp: tier_def SMALL_OBJ_LIMIT_def)
  obtain p t where r: "page_alloc_fn os n (child_state (child_state s)) = Some (p, t)"
    and post: "alloc_post (page_inv OInv k F) (gen_heap F) ?G n (child_state (child_state s)) p t"
    using page.alloc_law [OF G(3) n(3)] by (auto simp: page_allo_def)
  define s' where "s' = with_child (self_ctx s) (with_child (self_ctx (child_state s)) t)"
  have run: "gen_alloc_fn os n s = Some (p, s')"
    using n n0 r by (simp add: gen_alloc_fn_def on_page_def call_child_def allo_alloc_def page_allo_def s'_def)
  have kp: "kept (gen_heap F) ?G (mem s) (mem t)" using post by (simp add: alloc_post_def)
  then have out: "mem t x = mem s x" if "x \<in> lay_buddy_heap l" for x
    using that G(4) by (auto simp: kept_def)
  have km: "kept (gen_heap F) L (mem s) (mem s')"
    using gen_page_kept [OF R kp] by (simp add: s'_def)
  have disj: "{l_buf l, l_fl l, l_bs l, l_bo l} \<inter> dom (tier_map L 9) = {}"
    using G(8) by (auto simp: page_part_def)
  show ?thesis
  proof (cases "p = NULL")
    case True
    have "gen_rep os OInv k F l s' L"
      unfolding s'_def using post True out D disj by (intro gen_page_step [OF R]) (simp_all add: alloc_post_def)
    with True run km show ?thesis by simp
  next
    case False
    then have p: "p \<notin> dom ?G" and P: "page_inv OInv k F t (?G(p \<mapsto> n))"
      using post by (simp_all add: alloc_post_def)
    have pd: "p \<notin> {l_buf l, l_fl l, l_bs l, l_bo l}"
      using p buddy_grants_at(1-4) [OF G(9), of 19 "page_part l L"] by auto
    have pp: "p \<notin> dom (page_part l L)"
      using p map_le_implies_dom_le [OF buddy_grants_sub [OF G(9,8)]] by blast
    then have ps: "p \<noteq> l_state l" "p \<notin> dom (tier_map L 9)" by (auto simp: page_part_def split: if_splits)
    note lb = page.live_inv [OF P]
    have "region p n \<subseteq> gen_heap F" "p \<in> region p n" "region p n \<inter> lay_buddy_heap l = {}"
      using live_okD [OF lb, of p n] region_self [OF n0] live_ok_fresh [OF lb p] G(4) by auto
    then have "p \<in> zone l (gen_heap F) 9" by (auto simp: zone_def)
    then have new: "p \<notin> dom L" by (rule gen_fresh [OF R _ ps(2)])
    have "gen_rep os OInv k F l s' (L(p \<mapsto> n))"
      unfolding s'_def
    proof (rule gen_page_step [OF R])
      show "page_inv OInv k F t (buddy_grants True (l_buf l) 19 (l_fl l) (l_bs l) (l_bo l) (page_part l (L(p \<mapsto> n))))"
        using P by (simp add: page_part_put [OF ps(1) new t9] grants_put(1) [OF pd])
      show "n' \<noteq> 0" if "(L(p \<mapsto> n)) q = Some n'" for q n'
        using that D(6) n0 by (auto split: if_splits)
      show "l_state l \<notin> dom (tier_map (L(p \<mapsto> n)) 9)"
        using D(7) ps(1) by (auto simp: tier_map_put [OF new] t9)
      show "{l_buf l, l_fl l, l_bs l, l_bo l} \<inter> dom (tier_map (L(p \<mapsto> n)) 9) = {}"
        using disj pd by (auto simp: tier_map_put [OF new] t9)
    qed (simp_all add: out tier_map_put [OF new] t9)
    with False run km new show ?thesis by simp
  qed
qed

lemma gen_alloc_ok:
  assumes R: "gen_rep os OInv k F l s L" and n: "unat n < 2 ^ 63"
  shows "\<exists>p s'. gen_alloc_fn os n s = Some (p, s') \<and> kept (gen_heap F) L (mem s) (mem s') \<and>
    (if p = NULL then gen_rep os OInv k F l s' L else p \<notin> dom L \<and> gen_rep os OInv k F l s' (L(p \<mapsto> n)))"
proof (cases "n = 0")
  case True
  then show ?thesis using R by (simp add: gen_alloc_fn_def)
next
  case False
  then show ?thesis
    using gen_alloc_pool [OF R False] gen_alloc_buddy [OF R] gen_alloc_page [OF R _ _ n]
    by (cases rule: tier_cases [OF False]) simp_all
qed

section \<open>Freeing\<close>

lemma gen_free_pool:
  assumes R: "gen_rep os OInv k F l s L" and p: "L p = Some n" "tier n < 8"
  shows "\<exists>s'. on_pool (tier n) (allo_free pool_allo p n) s = Some ((), s') \<and>
    gen_rep os OInv k F l s' (L(p := None)) \<and> kept (gen_heap F) (L(p := None)) (mem s) (mem s')"
proof -
  note D = gen_repD [OF R]
  define i where "i = tier n"
  have i: "i < 8" "tier n = i" using p(2) by (simp_all add: i_def)
  have P: "pool_ok l i (pool_state i s) (tier_map L i)" using D(3) [OF i(1)] .
  then have J: "pool_inv (l_pools l ! i) (pool_sizes ! i) (pool_blocks ! i) (pool_state i s) (tier_map L i)"
    by (simp add: pool_ok_def)
  have pt: "tier_map L i p = Some n" using p i by (simp add: tier_map_Some)
  obtain t where t: "pool_free_fn p n (pool_state i s) = Some ((), t)"
    "pool_inv (l_pools l ! i) (pool_sizes ! i) (pool_blocks ! i) t ((tier_map L i)(p := None))"
    "kept (region (l_pools l ! i) 65536) ((tier_map L i)(p := None)) (mem (pool_state i s)) (mem t)"
    "snd (env t) = snd (env (pool_state i s))"
    by (rule pool_free_ok [OF J pt, where k = n]) (simp add: pool_tables(2) [OF i(1)])
  note fr = pool_free_frame [OF t(1)]
  have run: "on_pool (tier n) (allo_free pool_allo p n) s = Some ((), with_pool i s t)"
    using t(1) i(2) by (simp add: on_pool_def allo_free_def pool_allo_def)
  have R': "gen_rep os OInv k F l (with_pool i s t) (L(p := None))"
  proof (rule gen_pool_step [OF R i(1)])
    show "pool_ok l i t (tier_map (L(p := None)) i)"
      using t(2) P fr i(2) by (simp add: pool_ok_def tier_map_del [where L = L, OF p(1)])
    show "mem t x = mem s x" if "x \<notin> region (l_pools l ! i) 65536" for x
      using t(3) that by (simp add: kept_def pool_state_def)
    show "n' \<noteq> 0" if "(L(p := None)) q = Some n'" for q n' using that D(6) by (auto split: if_splits)
  qed (use t(4) i(2) in \<open>simp_all add: pool_state_def tier_map_del [where L = L, OF p(1)]\<close>)
  have "kept (gen_heap F) (L(p := None)) (mem s) (mem (with_pool i s t))"
    by (rule gen_pool_kept [OF R' i(1)])
      (use t(3) i(2) in \<open>simp add: with_pool_def pool_state_def tier_map_del [where L = L, OF p(1)]\<close>)
  with run R' show ?thesis by blast
qed

lemma tier8_not_pool:
  assumes "gen_rep os OInv k F l s L" "L p = Some n" "tier n = 8"
  shows "p \<notin> set (l_pools l)" "buddy_part l L p = Some n"
proof -
  have t: "tier_map L 8 p = Some n" using assms(2,3) by (simp add: tier_map_Some)
  show "p \<notin> set (l_pools l)" using gen_repD(8) [OF assms(1)] t by blast
  then show "buddy_part l L p = Some n" using t by (simp add: buddy_part_def map_add_def pool_bufs_def)
qed

lemma gen_free_buddy:
  assumes R: "gen_rep os OInv k F l s L" and p: "L p = Some n" "tier n = 8"
  shows "\<exists>s'. on_buddy (allo_free buddy_allo p n) s = Some ((), s') \<and>
    gen_rep os OInv k F l s' (L(p := None)) \<and> kept (gen_heap F) (L(p := None)) (mem s) (mem s')"
proof -
  note D = gen_repD [OF R] and sub = buddy_part_sub [OF gen_repD(8) [OF R]]
  note np = tier8_not_pool [OF R p]
  note del = buddy_part_del [where L = L, OF np(1) p]
  obtain t where t: "allo_free buddy_allo p n (child_state s) = Some ((), t)"
    "gen_buddy os OInv k F l (page_part l L) t (buddy_part l (L(p := None)))"
    "kept (gen_heap F - live (page_part l L)) (buddy_part l (L(p := None))) (mem s) (mem t)"
    unfolding del by (rule allocator.free_ok [OF gen_buddy_allocator D(2) np(2)]) simp
  have run: "on_buddy (allo_free buddy_allo p n) s = Some ((), with_child (self_ctx s) t)"
    using t(1) by (simp add: on_buddy_def call_child_def)
  have d8: "set (l_pools l) \<inter> dom (tier_map (L(p := None)) 8) = {}"
    using D(8) p(2) by (auto simp: tier_map_del [where L = L, OF p(1)])
  have R': "gen_rep os OInv k F l (with_child (self_ctx s) t) (L(p := None))"
  proof (rule gen_buddy_step [OF R t(2)])
    show "mem t x = mem s x" if "x \<in> live (pool_bufs l)" for x
      using t(3) that live_mono [OF buddy_part_sub(1) [OF d8]] by (auto simp: kept_def)
    show "n' \<noteq> 0" if "(L(p := None)) q = Some n'" for q n' using that D(6) by (auto split: if_splits)
    show "set (l_pools l) \<inter> dom (tier_map (L(p := None)) 8) = {}" by (rule d8)
  qed (simp add: tier_map_del [where L = L, OF p(1)] p(2))
  have "page_part l (L(p := None)) = page_part l L" by (simp add: page_part_def tier_map_del [where L = L, OF p(1)] p(2))
  then have "kept (gen_heap F) (L(p := None)) (mem s) (mem (with_child (self_ctx s) t))"
    using t(3) by (intro gen_buddy_kept [OF R']) simp
  with run R' show ?thesis by blast
qed

lemma tier9_grant:
  assumes "gen_rep os OInv k F l s L" "L p = Some n" "tier n = 9"
  shows "p \<noteq> l_state l" "p \<notin> {l_buf l, l_fl l, l_bs l, l_bo l}"
    "buddy_grants True (l_buf l) 19 (l_fl l) (l_bs l) (l_bo l) (page_part l L) p = Some n"
proof -
  note D = gen_repD [OF assms(1)] and G = gen_buddyD [OF gen_repD(2) [OF assms(1)]]
  have t: "tier_map L 9 p = Some n" using assms(2,3) by (simp add: tier_map_Some)
  show ps: "p \<noteq> l_state l" using D(7) t by auto
  then have pp: "page_part l L p = Some n" using t by (simp add: page_part_def)
  then show pd: "p \<notin> {l_buf l, l_fl l, l_bs l, l_bo l}" using G(8) by blast
  show "buddy_grants True (l_buf l) 19 (l_fl l) (l_bs l) (l_bo l) (page_part l L) p = Some n"
    using buddy_grants_at(5) [OF G(9) pd] pp by simp
qed

lemma gen_free_page:
  assumes R: "gen_rep os OInv k F l s L" and p: "L p = Some n" "tier n = 9"
  shows "\<exists>s'. on_page (allo_free (page_allo os) p n) s = Some ((), s') \<and>
    gen_rep os OInv k F l s' (L(p := None)) \<and> kept (gen_heap F) (L(p := None)) (mem s) (mem s')"
proof -
  note D = gen_repD [OF R] and G = gen_buddyD [OF gen_repD(2) [OF R]]
  note at = tier9_grant [OF R p]
  let ?G = "\<lambda>L. buddy_grants True (l_buf l) 19 (l_fl l) (l_bs l) (l_bo l) (page_part l L)"
  have del: "?G (L(p := None)) = (?G L)(p := None)"
    by (simp add: page_part_del [where L = L, OF at(1) p] grants_put(2) [OF at(2)])
  obtain t where t: "allo_free (page_allo os) p n (child_state (child_state s)) = Some ((), t)"
    "page_inv OInv k F t (?G (L(p := None)))" "kept (gen_heap F) (?G (L(p := None))) (mem s) (mem t)"
    unfolding del by (rule page.free_ok [OF G(3) at(3)]) simp
  define s' where "s' = with_child (self_ctx s) (with_child (self_ctx (child_state s)) t)"
  have run: "on_page (allo_free (page_allo os) p n) s = Some ((), s')"
    using t(1) by (simp add: on_page_def call_child_def s'_def)
  have tm: "tier_map (L(p := None)) j = (if j = 9 then (tier_map L 9)(p := None) else tier_map L j)" for j
    using p(2) by (simp add: tier_map_del [where L = L, OF p(1)])
  have disj: "{l_buf l, l_fl l, l_bs l, l_bo l} \<inter> dom (tier_map L 9) = {}"
    using G(8) by (auto simp: page_part_def)
  have "lay_buddy_heap l \<subseteq> live (?G (L(p := None)))"
    using buddy_grants_at(1-4) [OF G(9), of 19 "page_part l (L(p := None))"]
    by (auto simp: buddy_heap_def live_def)
  then have out: "mem t x = mem s x" if "x \<in> lay_buddy_heap l" for x
    using t(3) that by (auto simp: kept_def)
  have R': "gen_rep os OInv k F l s' (L(p := None))"
    unfolding s'_def
  proof (rule gen_page_step [OF R t(2) out])
    show "n' \<noteq> 0" if "(L(p := None)) q = Some n'" for q n' using that D(6) by (auto split: if_splits)
    show "l_state l \<notin> dom (tier_map (L(p := None)) 9)" using D(7) by (simp add: tm)
    show "{l_buf l, l_fl l, l_bs l, l_bo l} \<inter> dom (tier_map (L(p := None)) 9) = {}" using disj by (auto simp: tm)
  qed (simp_all add: tm)
  have "kept (gen_heap F) (L(p := None)) (mem s) (mem s')"
    using t(3) by (intro gen_page_kept [OF R']) (simp add: s'_def)
  with run R' show ?thesis by blast
qed

lemma gen_free_ok:
  assumes R: "gen_rep os OInv k F l s L" and p: "L p = Some n"
  shows "\<exists>s'. gen_free_fn os p n s = Some ((), s') \<and>
    gen_rep os OInv k F l s' (L(p := None)) \<and> kept (gen_heap F) (L(p := None)) (mem s) (mem s')"
proof -
  have n: "n \<noteq> 0" by (rule gen_repD(6) [OF R p])
  have "p \<noteq> NULL" using live_okD(1) [OF gen_live_ok [OF R] p] by (simp add: block_ok_def)
  then show ?thesis
    using gen_free_pool [OF R p] gen_free_buddy [OF R p] gen_free_page [OF R p]
    by (cases rule: tier_cases [OF n]) (simp_all add: gen_free_fn_def)
qed

section \<open>Reallocation\<close>

lemma gen_realloc_pool:
  assumes R: "gen_rep os OInv k F l s L" and p: "L p = Some n" and n: "n \<le> SMALL_OBJ_LIMIT"
    and m: "m \<noteq> 0" "m \<le> SMALL_OBJ_LIMIT" "get_pool_index m = get_pool_index n"
  shows "on_pool (get_pool_index n) (allo_realloc pool_allo p n m) s = Some (p, s) \<and>
    realloc_post (gen_rep os OInv k F l) (gen_heap F) L p n m s p s"
proof -
  note D = gen_repD [OF R]
  define i where "i = get_pool_index n"
  have n0: "n \<noteq> 0" by (rule D(6) [OF p])
  have i: "i < 8" "tier n = i" "tier m = i" using get_pool_index_small(1) [OF n0 n] n m by (simp_all add: i_def tier_def)
  have P: "pool_ok l i (pool_state i s) (tier_map L i)" using D(3) [OF i(1)] .
  then have J: "pool_inv (l_pools l ! i) (pool_sizes ! i) (pool_blocks ! i) (pool_state i s) (tier_map L i)"
    by (simp add: pool_ok_def)
  have pt: "tier_map L i p = Some n" using p i by (simp add: tier_map_Some)
  have ms: "unat m \<le> unat (pool_sizes ! i)" using get_pool_index_small(2) [OF m(1,2)] m(3) by (simp add: i_def)
  have p0: "p \<noteq> NULL" using live_okD(1) [OF gen_live_ok [OF R] p] by (simp add: block_ok_def)
  have "p \<in> region (l_pools l ! i) (pool_sizes ! i * pool_blocks ! i)"
    using pool_slot_in_region [OF _ pool_live_slot [OF J pt]] J by (simp add: pool_inv_def)
  then have "allo_realloc pool_allo p n m (pool_state i s) = Some (p, pool_state i s)"
    using pool_contains_eq [OF J, of p] m(1) p0 ms J
    by (simp add: allo_realloc_def pool_allo_def pool_realloc_fn_def pool_inv_def pool_ctx_ok_def word_le_nat_alt)
  then have run: "on_pool i (allo_realloc pool_allo p n m) s = Some (p, s)"
    using i(1) D(5) by (simp add: on_pool_def with_pool_self)
  have mv: "tier_map (L(p := None, p \<mapsto> m)) j = (if i = j then (tier_map L j)(p := None, p \<mapsto> m) else tier_map L j)" for j
    using tier_map_move [where L = L, OF p, of p m j] i by simp
  have "gen_rep os OInv k F l (with_pool i s (pool_state i s)) (L(p \<mapsto> m))"
  proof (rule gen_pool_step [OF R i(1)])
    show "pool_ok l i (pool_state i s) (tier_map (L(p \<mapsto> m)) i)"
      using P pool_resize [OF J pt m(1) ms] mv [of i] by (simp add: pool_ok_def)
    show "tier_map (L(p \<mapsto> m)) j = tier_map L j" if "j \<noteq> i" for j using mv [of j] that by simp
    show "n' \<noteq> 0" if "(L(p \<mapsto> m)) q = Some n'" for q n' using that D(6) m(1) by (auto split: if_splits)
  qed (simp_all add: pool_state_def)
  then have "gen_rep os OInv k F l s (L(p \<mapsto> m))" using i(1) D(5) by (simp add: with_pool_self)
  then have "realloc_post (gen_rep os OInv k F l) (gen_heap F) L p n m s p s"
    by (intro realloc_post_same [OF gen_live_ok [OF R] p]) simp_all
  then show ?thesis using run by (simp add: i_def)
qed

text \<open>The old block is out of the live blocks and the rest is kept.\<close>

lemma live_del_other:
  assumes l: "live_ok H L" "L p = Some n" and x: "x \<in> live (L(p := None))" and M: "M p = Some n" "x \<in> live M"
  shows "x \<in> live L" "x \<in> live (M(p := None))"
proof -
  show "x \<in> live L" using live_del x by blast
  have "x \<notin> region p n" using live_del_disjoint [OF l] x by blast
  moreover obtain r z where r: "M r = Some z" "x \<in> region r z" using M(2) by (rule liveE)
  ultimately have "r \<noteq> p" using M(1) by auto
  then show "x \<in> live (M(p := None))" using r liveI [of "M(p := None)" r z x] by simp
qed

lemma gen_buddy_kept_del:
  assumes R: "gen_rep os OInv k F l s L" and p: "L p = Some n" "buddy_part l L p = Some n"
    and kb: "kept (gen_heap F - live (page_part l L)) ((buddy_part l L)(p := None)) x y"
  shows "kept (gen_heap F) (L(p := None)) x y"
  unfolding kept_def
proof (intro allI impI)
  fix a assume a: "a \<in> live (L(p := None)) \<or> a \<notin> gen_heap F"
  show "y a = x a"
  proof (cases "a \<in> live (L(p := None))")
    case True
    then have al: "a \<in> live L" using live_del by blast
    show ?thesis
    proof (cases "a \<in> lay_buddy_heap l")
      case h: True
      have "a \<in> live ((buddy_part l L)(p := None))"
        by (rule live_del_other(2) [OF gen_live_ok [OF R] p(1) True p(2) tier_parts_live(2) [OF R al h]])
      then show ?thesis using kb by (simp add: kept_def)
    next
      case False
      then show ?thesis using tier_parts_live(4) [OF R al] kb by (simp add: kept_def)
    qed
  next
    case False
    then show ?thesis using kb a by (simp add: kept_def)
  qed
qed

lemma gen_page_kept_del:
  assumes R: "gen_rep os OInv k F l s L" and p: "L p = Some n"
    "buddy_grants True (l_buf l) 19 (l_fl l) (l_bs l) (l_bo l) (page_part l L) p = Some n"
    and kp: "kept (gen_heap F) ((buddy_grants True (l_buf l) 19 (l_fl l) (l_bs l) (l_bo l) (page_part l L))(p := None)) x y"
  shows "kept (gen_heap F) (L(p := None)) x y"
  using kp live_del_other(2) [OF gen_live_ok [OF R] p(1) _ p(2) tier_parts_live(1) [OF R]] live_del
  unfolding kept_def by blast

lemma gen_realloc_buddy:
  assumes R: "gen_rep os OInv k F l s L" and p: "L p = Some n" "tier n = 8" and m: "m \<noteq> 0" "tier m = 8" "unat m < 2 ^ 63"
  shows "\<exists>q s'. on_buddy (allo_realloc buddy_allo p n m) s = Some (q, s') \<and>
    realloc_post (gen_rep os OInv k F l) (gen_heap F) L p n m s q s'"
proof -
  note D = gen_repD [OF R] and sub = buddy_part_sub [OF gen_repD(8) [OF R]]
  note np = tier8_not_pool [OF R p]
  obtain q t where t: "allo_realloc buddy_allo p n m (child_state s) = Some (q, t)"
    and post: "realloc_post (gen_buddy os OInv k F l (page_part l L)) (gen_heap F - live (page_part l L))
      (buddy_part l L) p n m (child_state s) q t"
    by (rule allocator.allo_realloc_ok [OF gen_buddy_allocator D(2) np(2) m(3,1)])
  define s' where "s' = with_child (self_ctx s) t"
  have run: "on_buddy (allo_realloc buddy_allo p n m) s = Some (q, s')"
    using t by (simp add: on_buddy_def call_child_def s'_def)
  have "realloc_post (gen_rep os OInv k F l) (gen_heap F) L p n m s q s'"
  proof (cases "q = NULL")
    case True
    then have kb: "kept (gen_heap F - live (page_part l L)) (buddy_part l L) (mem s) (mem t)"
      and B: "gen_buddy os OInv k F l (page_part l L) t (buddy_part l L)"
      using post by (simp_all add: realloc_post_def)
    have "gen_rep os OInv k F l s' L"
      unfolding s'_def using kb live_mono [OF sub(1)] D
      by (intro gen_buddy_step [OF R B]) (auto simp: kept_def)
    then show ?thesis using True gen_buddy_kept [OF R kb] by (simp add: realloc_post_def s'_def)
  next
    case False
    then have kb: "kept (gen_heap F - live (page_part l L)) ((buddy_part l L)(p := None)) (mem s) (mem t)"
      and q: "q = p \<or> q \<notin> dom (buddy_part l L)"
      and B: "gen_buddy os OInv k F l (page_part l L) t ((buddy_part l L)(p := None, q \<mapsto> m))"
      and sb: "same_bytes (mem s) p (mem t) q (min n m)"
      using post by (simp_all add: realloc_post_def)
    have qb: "q \<notin> set (l_pools l)" using q np(1) sub(3) by (auto simp: buddy_part_def)
    have new: "q = p \<or> q \<notin> dom L"
    proof (cases "q = p")
      case ne: False
      let ?K = "(buddy_part l L)(p := None)"
      have qK: "q \<notin> dom ?K" using q ne by auto
      note lb = gen_buddyD(2) [OF B]
      have "pool_bufs l \<subseteq>\<^sub>m ?K" using sub(1,3) np(1) by (force simp: map_le_def)
      then have "region q m \<inter> live (pool_bufs l) = {}"
        using live_ok_fresh [OF lb qK] live_mono by blast
      moreover have "region q m \<subseteq> lay_buddy_heap l" "q \<in> region q m"
        using live_okD [OF lb, of q m] region_self [OF m(1)] by simp_all
      ultimately have "q \<in> zone l (gen_heap F) 8" by (auto simp: zone_def)
      moreover have "q \<notin> dom (tier_map L 8)" using q ne by (auto simp: buddy_part_def)
      ultimately show ?thesis using gen_fresh [OF R] by blast
    qed simp
    have mv: "tier_map (L(p := None, q \<mapsto> m)) j =
        (if 8 = j then (tier_map L j)(p := None, q \<mapsto> m) else tier_map L j)" for j
      using tier_map_move [where L = L, OF p(1) new, of m j] p(2) m(2) by simp
    have bm: "buddy_part l (L(p := None, q \<mapsto> m)) = (buddy_part l L)(p := None, q \<mapsto> m)"
      by (rule buddy_part_move [where L = L, OF np(1) qb p m(2) new])
    have pm: "page_part l (L(p := None, q \<mapsto> m)) = page_part l L" by (simp add: page_part_def mv)
    have d8: "set (l_pools l) \<inter> dom (tier_map (L(p := None, q \<mapsto> m)) 8) = {}"
      using D(8) qb by (auto simp: mv)
    have R': "gen_rep os OInv k F l s' (L(p := None, q \<mapsto> m))"
      unfolding s'_def
    proof (rule gen_buddy_step [OF R])
      show "gen_buddy os OInv k F l (page_part l L) t (buddy_part l (L(p := None, q \<mapsto> m)))"
        using B by (simp only: bm)
      have "pool_bufs l \<subseteq>\<^sub>m (buddy_part l L)(p := None)" using sub(1,3) np(1) by (force simp: map_le_def)
      then show "mem t x = mem s x" if "x \<in> live (pool_bufs l)" for x
        using kb that live_mono by (auto simp: kept_def)
      show "n' \<noteq> 0" if "(L(p := None, q \<mapsto> m)) x = Some n'" for x n'
        using that D(6) m(1) by (auto split: if_splits)
      show "set (l_pools l) \<inter> dom (tier_map (L(p := None, q \<mapsto> m)) 8) = {}" by (rule d8)
    qed (simp add: mv)
    have "kept (gen_heap F) (L(p := None)) (mem s) (mem s')"
      using gen_buddy_kept_del [OF R p(1) np(2) kb] by (simp add: s'_def)
    then show ?thesis using False new R' sb by (simp add: realloc_post_def s'_def)
  qed
  with run show ?thesis by blast
qed

lemma gen_realloc_page:
  assumes R: "gen_rep os OInv k F l s L" and p: "L p = Some n" "tier n = 9" and m: "m \<noteq> 0" "tier m = 9" "unat m < 2 ^ 63"
  shows "\<exists>q s'. on_page (allo_realloc (page_allo os) p n m) s = Some (q, s') \<and>
    realloc_post (gen_rep os OInv k F l) (gen_heap F) L p n m s q s'"
proof -
  note D = gen_repD [OF R] and G = gen_buddyD [OF gen_repD(2) [OF R]]
  note at = tier9_grant [OF R p]
  let ?G = "\<lambda>L. buddy_grants True (l_buf l) 19 (l_fl l) (l_bs l) (l_bo l) (page_part l L)"
  have disj: "{l_buf l, l_fl l, l_bs l, l_bo l} \<inter> dom (tier_map L 9) = {}"
    using G(8) by (auto simp: page_part_def)
  obtain q t where t: "allo_realloc (page_allo os) p n m (child_state (child_state s)) = Some (q, t)"
    and post: "realloc_post (page_inv OInv k F) (gen_heap F) (?G L) p n m (child_state (child_state s)) q t"
    by (rule page.allo_realloc_ok [OF G(3) at(3) m(3,1)])
  define s' where "s' = with_child (self_ctx s) (with_child (self_ctx (child_state s)) t)"
  have run: "on_page (allo_realloc (page_allo os) p n m) s = Some (q, s')"
    using t by (simp add: on_page_def call_child_def s'_def)
  have hd: "lay_buddy_heap l \<subseteq> live ((?G L)(p := None))"
    using buddy_grants_at(1-4) [OF G(9), of 19 "page_part l L"] at(2)
    by (auto simp: buddy_heap_def live_def)
  have "realloc_post (gen_rep os OInv k F l) (gen_heap F) L p n m s q s'"
  proof (cases "q = NULL")
    case True
    then have kp: "kept (gen_heap F) (?G L) (mem s) (mem t)" and P: "page_inv OInv k F t (?G L)"
      using post by (simp_all add: realloc_post_def)
    have "gen_rep os OInv k F l s' L"
      unfolding s'_def using kp D disj G(4)
      by (intro gen_page_step [OF R P]) (auto simp: kept_def)
    then show ?thesis using True gen_page_kept [OF R kp] by (simp add: realloc_post_def s'_def)
  next
    case False
    then have kp: "kept (gen_heap F) ((?G L)(p := None)) (mem s) (mem t)"
      and q: "q = p \<or> q \<notin> dom (?G L)" and P: "page_inv OInv k F t ((?G L)(p := None, q \<mapsto> m))"
      and sb: "same_bytes (mem s) p (mem t) q (min n m)"
      using post by (simp_all add: realloc_post_def)
    have qn: "q = p \<or> q \<notin> {l_buf l, l_fl l, l_bs l, l_bo l} \<and> q \<noteq> l_state l \<and> q \<notin> dom (tier_map L 9)"
    proof (cases "q = p")
      case ne: False
      then have "q \<notin> {l_buf l, l_fl l, l_bs l, l_bo l}"
        using q buddy_grants_at(1-4) [OF G(9), of 19 "page_part l L"] by auto
      moreover have "q \<notin> dom (page_part l L)"
        using q ne map_le_implies_dom_le [OF buddy_grants_sub [OF G(9,8)]] by blast
      ultimately show ?thesis by (auto simp: page_part_def split: if_splits)
    qed simp
    then have qd: "q \<notin> {l_buf l, l_fl l, l_bs l, l_bo l}" "q \<noteq> l_state l" using at(1,2) by auto
    have new: "q = p \<or> q \<notin> dom L"
    proof (cases "q = p")
      case ne: False
      note lb = page.live_inv [OF P]
      have "q \<notin> dom ((?G L)(p := None))" using q ne by auto
      then have "region q m \<inter> lay_buddy_heap l = {}" using live_ok_fresh [OF lb] hd by blast
      moreover have "region q m \<subseteq> gen_heap F" "q \<in> region q m"
        using live_okD [OF lb, of q m] region_self [OF m(1)] by simp_all
      ultimately have "q \<in> zone l (gen_heap F) 9" by (auto simp: zone_def)
      then show ?thesis using gen_fresh [OF R] qn ne by blast
    qed simp
    have mv: "tier_map (L(p := None, q \<mapsto> m)) j =
        (if 9 = j then (tier_map L j)(p := None, q \<mapsto> m) else tier_map L j)" for j
      using tier_map_move [where L = L, OF p(1) new, of m j] p(2) m(2) by simp
    have gm: "?G (L(p := None, q \<mapsto> m)) = (?G L)(p := None, q \<mapsto> m)"
      by (simp only: page_part_move [where L = L, OF at(1) qd(2) p m(2) new] grants_put [OF qd(1)] grants_put [OF at(2)])
    have R': "gen_rep os OInv k F l s' (L(p := None, q \<mapsto> m))"
      unfolding s'_def
    proof (rule gen_page_step [OF R])
      show "page_inv OInv k F t (?G (L(p := None, q \<mapsto> m)))" using P by (simp only: gm)
      show "mem t x = mem s x" if "x \<in> lay_buddy_heap l" for x
        using kp that hd by (auto simp: kept_def)
      show "n' \<noteq> 0" if "(L(p := None, q \<mapsto> m)) x = Some n'" for x n'
        using that D(6) m(1) by (auto split: if_splits)
      show "l_state l \<notin> dom (tier_map (L(p := None, q \<mapsto> m)) 9)" using D(7) qd(2) by (auto simp: mv)
      show "{l_buf l, l_fl l, l_bs l, l_bo l} \<inter> dom (tier_map (L(p := None, q \<mapsto> m)) 9) = {}"
        using disj qd(1) by (auto simp: mv)
    qed (simp add: mv)
    have "kept (gen_heap F) (L(p := None)) (mem s) (mem s')"
      using gen_page_kept_del [OF R p(1) at(3) kp] by (simp add: s'_def)
    then show ?thesis using False new R' sb by (simp add: realloc_post_def s'_def)
  qed
  with run show ?thesis by blast
qed

text \<open>From one tier or pool to another.\<close>

lemma gen_move_ok:
  assumes R: "gen_rep os OInv k F l s L" and p: "L p = Some n" and m: "m \<noteq> 0" "unat m < 2 ^ 63"
  shows "\<exists>q s'. gen_move os p n m s = Some (q, s') \<and>
    realloc_post (gen_rep os OInv k F l) (gen_heap F) L p n m s q s'"
proof -
  obtain q t where a: "gen_alloc_fn os m s = Some (q, t)" and ka: "kept (gen_heap F) L (mem s) (mem t)"
    and ia: "if q = NULL then gen_rep os OInv k F l t L else q \<notin> dom L \<and> gen_rep os OInv k F l t (L(q \<mapsto> m))"
    using gen_alloc_ok [OF R m(2)] by blast
  show ?thesis
  proof (cases "q = NULL")
    case True
    then have "gen_move os p n m s = Some (NULL, t)" using a by (simp add: gen_move_def)
    then show ?thesis using True ka ia by (auto simp: realloc_post_def)
  next
    case False
    then have qL: "q \<notin> dom L" and Rt: "gen_rep os OInv k F l t (L(q \<mapsto> m))" using ia by simp_all
    have post: "alloc_post (gen_rep os OInv k F l) (gen_heap F) L m s q t"
      using ka ia False by (simp add: alloc_post_def)
    have cs: "(if n < m then n else m) = min n m" by (auto simp: min_def)
    have le: "unat (min n m) \<le> unat n" "unat (min n m) \<le> unat m" by (auto simp: min_def word_le_nat_alt)
    obtain t' where c: "allo_memcpy q p (min n m) t = Some (q, t')" "gen_rep os OInv k F l t' (L(q \<mapsto> m))"
      "env t' = env t" "kept (gen_heap F) L (mem s) (mem t')" "same_bytes (mem s) p (mem t') q (min n m)" "q \<notin> dom L"
      by (rule copy_fresh [OF p gen_live_ok [OF R] post False gen_live_ok [OF Rt] gen_client_write [OF Rt] le])
    have qp: "q \<noteq> p" using qL p by auto
    then have pt: "(L(q \<mapsto> m)) p = Some n" using p by simp
    obtain u where f: "gen_free_fn os p n t' = Some ((), u)" "gen_rep os OInv k F l u ((L(q \<mapsto> m))(p := None))"
      "kept (gen_heap F) ((L(q \<mapsto> m))(p := None)) (mem t') (mem u)" using gen_free_ok [OF c(2) pt] by blast
    have "free_post (gen_rep os OInv k F l) (gen_heap F) (L(q \<mapsto> m)) p t' u" using f(2,3) by (simp add: free_post_def)
    moreover have "block_ok q m" by (rule live_okD(1) [OF gen_live_ok [OF Rt]]) simp
    ultimately have "realloc_post (gen_rep os OInv k F l) (gen_heap F) L p n m s q u"
      by (intro realloc_moved_free [OF p qL c(4,5) False qp])
    moreover have "gen_move os p n m s = Some (q, u)"
      using a False c(1) f(1) by (simp add: gen_move_def cs)
    ultimately show ?thesis by blast
  qed
qed

lemma gen_realloc_ok:
  assumes R: "gen_rep os OInv k F l s L" and p: "L p = Some n" and m: "m \<noteq> 0" "unat m < 2 ^ 63"
  shows "\<exists>q s'. gen_realloc_fn os p n m s = Some (q, s') \<and>
    realloc_post (gen_rep os OInv k F l) (gen_heap F) L p n m s q s'"
proof -
  have n: "n \<noteq> 0" by (rule gen_repD(6) [OF R p])
  have p0: "p \<noteq> NULL" using live_okD(1) [OF gen_live_ok [OF R] p] by (simp add: block_ok_def)
  have lim: "SMALL_OBJ_LIMIT < MEDIUM_OBJ_LIMIT" by (simp add: SMALL_OBJ_LIMIT_def MEDIUM_OBJ_LIMIT_def)
  show ?thesis
  proof (cases "tier n = tier m")
    case same: True
    then show ?thesis
    proof (cases rule: tier_cases [OF n])
      case 1
      then have "m \<le> SMALL_OBJ_LIMIT" "get_pool_index m = get_pool_index n"
        using same by (cases rule: tier_cases [OF m(1)]; simp)+
      then show ?thesis using gen_realloc_pool [OF R p 1(1) m(1)] 1 p0 m(1) by (auto simp: gen_realloc_fn_def)
    next
      case 2
      then have "\<not> m \<le> SMALL_OBJ_LIMIT" "m \<le> MEDIUM_OBJ_LIMIT" "tier m = 8"
        using same by (cases rule: tier_cases [OF m(1)]; simp)+
      then show ?thesis using gen_realloc_buddy [OF R p 2(3) m(1) _ m(2)] 2 p0 m(1)
        by (auto simp: gen_realloc_fn_def not_le)
    next
      case 3
      then have "\<not> m \<le> SMALL_OBJ_LIMIT" "\<not> m \<le> MEDIUM_OBJ_LIMIT" "tier m = 9"
        using same by (cases rule: tier_cases [OF m(1)]; simp)+
      then show ?thesis using gen_realloc_page [OF R p 3(3) m(1) _ m(2)] 3 p0 m(1)
        by (auto simp: gen_realloc_fn_def not_le)
    qed
  next
    case False
    then have "gen_realloc_fn os p n m s = gen_move os p n m s"
      using p0 m(1) lim by (auto simp: gen_realloc_fn_def tier_def Let_def split: if_splits)
    then show ?thesis using gen_move_ok [OF R p m] by simp
  qed
qed

section \<open>Membership and the contract\<close>

lemma on_pool_contains:
  assumes R: "gen_rep os OInv k F l s L" and i: "i < 8"
  shows "on_pool i (allo_contains pool_allo p) s =
    Some (if p \<in> region (l_pools l ! i) 65536 then ALLO_CONTAINS_YES else ALLO_CONTAINS_NO, s)"
proof -
  note D = gen_repD [OF R]
  have "pool_inv (l_pools l ! i) (pool_sizes ! i) (pool_blocks ! i) (pool_state i s) (tier_map L i)"
    using D(3) [OF i] by (simp add: pool_ok_def)
  from pool_contains_eq [OF this, of p] show ?thesis
    using D(5) i by (simp add: on_pool_def allo_contains_def pool_allo_def with_pool_self pool_tables(2))
qed

lemma gen_contains_pools_eq:
  assumes R: "gen_rep os OInv k F l s L" and "set is \<subseteq> {..<8}"
  shows "gen_contains_pools p is s = Some (if \<exists>i\<in>set is. p \<in> region (l_pools l ! i) 65536
    then ALLO_CONTAINS_YES else ALLO_CONTAINS_NO, s)"
  using assms(2)
proof (induction "is")
  case (Cons i "is")
  then show ?case using on_pool_contains [OF R, of i p] by auto
qed simp

lemma gen_contains_ok:
  assumes R: "gen_rep os OInv k F l s L"
  obtains r where "gen_contains_fn os p s = Some (r, s)" "r = ALLO_CONTAINS_YES \<or> r = ALLO_CONTAINS_NO"
    "p \<in> dom L \<longrightarrow> r = ALLO_CONTAINS_YES" "r = ALLO_CONTAINS_YES \<longrightarrow> p \<in> gen_heap F"
proof -
  note D = gen_repD [OF R] and G = gen_buddyD [OF gen_repD(2) [OF R]]
  let ?pools = "\<exists>i<8. p \<in> region (l_pools l ! i) 65536"
  let ?K = "buddy_grants True (l_buf l) 19 (l_fl l) (l_bs l) (l_bo l) (page_part l L)"
  have pools: "gen_contains_pools p [0..<POOL_COUNT] s = Some (if ?pools then ALLO_CONTAINS_YES else ALLO_CONTAINS_NO, s)"
  proof -
    have "set [0..<POOL_COUNT] = {..<8}" by (auto simp: POOL_COUNT_def)
    then show ?thesis using gen_contains_pools_eq [OF R, of "[0..<POOL_COUNT]" p] by (simp add: Bex_def)
  qed
  obtain rb where b: "allo_contains buddy_allo p (child_state s) = Some (rb, child_state s)"
    "p \<in> dom (buddy_part l L) \<longrightarrow> rb \<noteq> ALLO_CONTAINS_NO" "rb = ALLO_CONTAINS_YES \<longrightarrow> p \<in> lay_buddy_heap l"
    "rb \<noteq> ALLO_CONTAINS_UNKNOWN"
    using buddy.contains_law [OF G(1), of p] buddy.contains_exact [OF G(1), of p] by auto
  have bb: "on_buddy (allo_contains buddy_allo p) s = Some (rb, s)"
    using b(1) by (simp add: on_buddy_def call_child_def)
  obtain rp where c: "allo_contains (page_allo os) p (child_state (child_state s)) = Some (rp, child_state (child_state s))"
    "p \<in> dom ?K \<longrightarrow> rp \<noteq> ALLO_CONTAINS_NO" "rp = ALLO_CONTAINS_YES \<longrightarrow> p \<in> gen_heap F" "rp \<noteq> ALLO_CONTAINS_UNKNOWN"
    using page.contains_law [OF G(3), of p] page.contains_exact [OF G(3), of p] by auto
  have cc: "on_page (allo_contains (page_allo os) p) s = Some (rp, s)"
    using c(1) by (simp add: on_page_def call_child_def)
  define r where "r = (if ?pools \<or> rb = ALLO_CONTAINS_YES \<or> rp = ALLO_CONTAINS_YES
    then ALLO_CONTAINS_YES else ALLO_CONTAINS_NO)"
  have "gen_contains_fn os p s = Some (r, s)"
    using pools bb cc by (auto simp: gen_contains_fn_def r_def)
  moreover have "r = ALLO_CONTAINS_YES" if pL: "p \<in> dom L"
  proof -
    obtain n where n: "L p = Some n" using pL by blast
    have n0: "n \<noteq> 0" by (rule D(6) [OF n])
    show ?thesis
    proof (cases rule: tier_cases [OF n0])
      case 1
      have t: "tier_map L (tier n) p = Some n" using n by (simp add: tier_map_Some)
      have "p \<in> zone l (gen_heap F) (tier n)"
        using live_okD(2) [OF gen_zones(1) [OF R] t] region_self [OF n0, of p] by blast
      then show ?thesis using 1 by (auto simp: r_def zone_def)
    next
      case 2
      then have "rb \<noteq> ALLO_CONTAINS_NO" using tier8_not_pool(2) [OF R n] b(2) by blast
      then show ?thesis using b(4) by (cases rb) (simp_all add: r_def)
    next
      case 3
      then have "rp \<noteq> ALLO_CONTAINS_NO" using tier9_grant(3) [OF R n] c(2) by blast
      then show ?thesis using c(4) by (cases rp) (simp_all add: r_def)
    qed
  qed
  moreover have "p \<in> gen_heap F" if "r = ALLO_CONTAINS_YES"
    using that gen_zones(5) [OF R] G(6) b(3) c(3) unfolding r_def by (auto split: if_splits)
  ultimately show thesis by (intro that [of r]) (auto simp: r_def)
qed

lemma gen_exact: "exact_allocator (gen_allo os) (gen_rep os OInv k F l) (gen_heap F) (2 ^ 63)"
proof unfold_locales
  show "(2 :: nat) ^ 63 \<le> 2 ^ 63" by simp
next
  fix s :: "'e gen_machine" and L :: live_map and n m :: size_t and p :: ptr
  assume R: "gen_rep os OInv k F l s L"
  show "live_ok (gen_heap F) L" by (rule gen_live_ok [OF R])
  show "gen_rep os OInv k F l s' L" if "env s' = env s"
    "\<And>x. x \<in> gen_heap F \<Longrightarrow> x \<notin> live L \<Longrightarrow> mem s' x = mem s x" for s'
    by (rule gen_client_write [OF R that])
  show "\<exists>p s'. vt_alloc (gen_allo os) n s = Some (p, s') \<and>
      alloc_post (gen_rep os OInv k F l) (gen_heap F) L n s p s'" if "unat n < 2 ^ 63"
    using gen_alloc_ok [OF R that] by (auto simp: gen_allo_def alloc_post_def)
  show "\<exists>q s'. vt_realloc (gen_allo os) p n m s = Some (q, s') \<and>
      realloc_post (gen_rep os OInv k F l) (gen_heap F) L p n m s q s'"
    if "L p = Some n" "unat m < 2 ^ 63" "m \<noteq> 0"
    using gen_realloc_ok [OF R that(1,3,2)] by (simp add: gen_allo_def)
  show "\<exists>s'. vt_free_mem (gen_allo os) p n s = Some ((), s') \<and>
      free_post (gen_rep os OInv k F l) (gen_heap F) L p s s'" if "L p = Some n"
    using gen_free_ok [OF R that] by (auto simp: gen_allo_def free_post_def)
  show "\<exists>s'. vt_free_mem (gen_allo os) NULL n s = Some ((), s') \<and> gen_rep os OInv k F l s' L \<and>
      kept (gen_heap F) L (mem s) (mem s')"
    using R by (simp add: gen_allo_def gen_free_fn_def)
  obtain r where r: "gen_contains_fn os p s = Some (r, s)" "r = ALLO_CONTAINS_YES \<or> r = ALLO_CONTAINS_NO"
    "p \<in> dom L \<longrightarrow> r = ALLO_CONTAINS_YES" "r = ALLO_CONTAINS_YES \<longrightarrow> p \<in> gen_heap F"
    by (rule gen_contains_ok [OF R, of p])
  show "\<exists>r. allo_contains (gen_allo os) p s = Some (r, s) \<and> (p \<in> dom L \<longrightarrow> r \<noteq> ALLO_CONTAINS_NO) \<and>
      (r = ALLO_CONTAINS_YES \<longrightarrow> p \<in> gen_heap F)"
    using r by (auto simp: allo_contains_def gen_allo_def)
  show "allo_contains (gen_allo os) p s \<noteq> Some (ALLO_CONTAINS_UNKNOWN, s)"
    using r(1,2) by (auto simp: allo_contains_def gen_allo_def)
qed

end

sublocale os_pages \<subseteq> gen: exact_allocator "gen_allo os" "gen_rep os OInv k F l" "gen_heap F" "2 ^ 63" for F l
  by (rule gen_exact)

end
