(* ===== verification/GenFactory.thy ===== *)
theory GenFactory
  imports GenOps
begin

text \<open>
  Making and destroying the general purpose allocator: the three layers are built from the bottom
  up and taken down from the top, and nothing is left at the operating system. The factory's error
  path for a buddy allocator that cannot be had does not come back: it reads the block it has just
  unmapped.
\<close>

section \<open>The pools\<close>

definition bufs :: "ptr list \<Rightarrow> live_map" where
  "bufs Ps = (\<lambda>q. if q \<in> set Ps then Some 65536 else None)"

lemma bufs_simps [simp]: "bufs [] = Map.empty" "dom (bufs Ps) = set Ps"
  by (auto simp: bufs_def split: if_splits)

lemma bufs_snoc: "bufs (Ps @ [P]) = (bufs Ps)(P \<mapsto> 65536)"
  by (auto simp: bufs_def fun_eq_iff)

lemma pool_bufs_bufs: "pool_bufs l = bufs (l_pools l)"
  by (simp add: pool_bufs_def bufs_def)

text \<open>A context of a pool that owns the buffer \<open>P\<close> of 64 KiB.\<close>

definition pool_owns :: "('c buddy_context_t \<times> 'c) pool_context_t \<Rightarrow> ptr \<Rightarrow> bool" where
  "pool_owns c P \<longleftrightarrow> pool_buffer c = P \<and> pool_block_size c * pool_total_blocks c = 65536 \<and>
     pool_own_buffer c \<and> pool_child c = Some buddy_allo"

lemma destroy_pools_ok:
  assumes A: "allocator buddy_allo BI h lim"
  shows "list_all2 pool_owns cs Ps \<Longrightarrow> distinct Ps \<Longrightarrow> set Ps \<inter> dom K = {} \<Longrightarrow> BI t (K ++ bufs Ps) \<Longrightarrow>
    \<exists>t'. destroy_pools cs t = Some ((), t') \<and> BI t' K"
proof (induction cs arbitrary: Ps t)
  case Nil
  then show ?case by simp
next
  case (Cons c cs)
  then obtain P Qs where Ps: "Ps = P # Qs" and c: "pool_owns c P" and cs: "list_all2 pool_owns cs Qs"
    by (auto simp: list_all2_Cons1)
  have P: "P \<notin> set Qs" "P \<notin> dom K" and Qs: "distinct Qs" "set Qs \<inter> dom K = {}"
    using Cons.prems(2,3) by (auto simp: Ps)
  have at: "(K ++ bufs Ps) P = Some 65536" by (simp add: Ps bufs_def map_add_def)
  have del: "(K ++ bufs Ps)(P := None) = K ++ bufs Qs"
    using P by (auto simp: Ps bufs_def map_add_def fun_eq_iff domIff)
  obtain t1 where t1: "allo_free buddy_allo P 65536 t = Some ((), t1)" "BI t1 (K ++ bufs Qs)"
    by (rule allocator.free_ok [OF A Cons.prems(4) at, unfolded del]) simp
  have "allo_destroy pool_allo (with_child c t) = Some ((), with_child c t1)"
    using c t1(1) by (simp add: allo_destroy_def pool_allo_def pool_destroy_fn_def pool_owns_def call_child_def)
  then show ?case using Cons.IH [OF cs Qs t1(2)] by simp
qed

text \<open>The pools made so far.\<close>

definition pools_made :: "'e tier_env pool_context_t list \<Rightarrow> ptr list \<Rightarrow> 'e tier_env machine \<Rightarrow> bool" where
  "pools_made cs Ps t \<longleftrightarrow> length cs = length Ps \<and> distinct Ps \<and> list_all2 pool_owns cs Ps \<and>
     (\<forall>j<length Ps. pool_inv (Ps ! j) (pool_sizes ! j) (pool_blocks ! j) (with_child (cs ! j) t) Map.empty)"

text \<open>How far the factory gets: the page allocator, the state block, the buddy allocator.\<close>

definition gen_stages :: "'e os \<Rightarrow> ptr \<Rightarrow> 'e machine \<Rightarrow> bool \<times> bool" where
  "gen_stages os out s =
     (case make_page_allocator os out s of
        Inl _ \<Rightarrow> (False, False)
      | Inr m \<Rightarrow>
          (case allo_alloc (page_allo os) sizeof_gen_state m of
             None \<Rightarrow> (False, False)
           | Some (st, m) \<Rightarrow>
               if st = NULL then (False, False)
               else (True, case make_buddy_allocator (st + 168) (Some (page_allo os)) NULL BUDDY_TOTAL_SIZE m of
                 Some (Inr _) \<Rightarrow> True | _ \<Rightarrow> False)))"

section \<open>Taking down\<close>

context os_pages
begin

text \<open>The buddy allocator and then the pages, with what the page allocator has besides.\<close>

lemma destroy_buddy_ok:
  assumes B: "gen_buddy os OInv k F l G t K"
  shows "\<exists>t'. allo_destroy buddy_allo t = Some ((), t') \<and> page_inv OInv k F (child_state t') G"
proof -
  have "buddy_backed (page_allo os) (page_inv OInv k F) G (l_buf l) 19 (l_fl l) (l_bs l) (l_bo l) t"
    using B by (simp add: gen_buddy_def buddy_over_def)
  then obtain t' where "buddy_destroy_fn t = Some ((), t')" "page_inv OInv k F (child_state t') G"
    by (rule page.buddy_destroy_ok)
  then show ?thesis by (simp add: allo_destroy_def buddy_allo_def)
qed

lemma pool_ok_owns:
  assumes "pool_ok l i t K" "i < 8"
  shows "pool_owns (self_ctx t) (l_pools l ! i)"
  using assms pool_tables(2) [OF assms(2)] by (simp add: pool_ok_def pool_owns_def pool_inv_def pool_ctx_ok_def)

lemma gen_destroy_ok:
  assumes R: "gen_rep os OInv k F l s L"
  shows "\<exists>s'. gen_destroy_fn os s = Some ((), s') \<and> OInv (child_state (child_state (child_state s'))) F"
proof -
  note D = gen_repD [OF R]
  have own: "list_all2 pool_owns (gen_pools (self_ctx s)) (l_pools l)"
    using pool_ok_owns [OF D(3)] D(4,5) by (simp add: list_all2_conv_all_nth pool_state_def)
  have B: "gen_buddy os OInv k F l (page_part l L) (child_state s) (tier_map L 8 ++ bufs (l_pools l))"
    using D(2) by (simp add: buddy_part_def pool_bufs_bufs)
  obtain t1 where t1: "destroy_pools (gen_pools (self_ctx s)) (child_state s) = Some ((), t1)"
    "gen_buddy os OInv k F l (page_part l L) t1 (tier_map L 8)"
    using destroy_pools_ok [OF gen_buddy_allocator own _ D(8) B] D(1) by (auto simp: gen_shape_def)
  obtain t2 where t2: "allo_destroy buddy_allo t1 = Some ((), t2)" "page_inv OInv k F (child_state t2) (page_part l L)"
    using destroy_buddy_ok [OF t1(2)] by blast
  obtain t3 where t3: "allo_destroy (page_allo os) (child_state t2) = Some ((), t3)" "OInv (child_state t3) F"
    using page_destroy_ok [OF t2(2)] by blast
  show ?thesis
    using t1(1) t2(1) t3 by (simp add: gen_destroy_fn_def on_buddy_def on_page_def call_child_def)
qed

section \<open>Building up\<close>

text \<open>
  The buddy allocator has room for all of them: of its 256 blocks of 64 KiB at most seven are in use.
\<close>

lemma pool_room:
  assumes B: "gen_buddy os OInv k F l G t (bufs Ps)" and len: "length Ps < 8" and out: "out \<noteq> NULL" and i: "i < 8"
  shows "make_pool_allocator out (Some buddy_allo) NULL (pool_sizes ! i) (pool_blocks ! i) t \<noteq> Some (Inl x)"
proof -
  note I = gen_buddyD(1) [OF B] and tab = pool_tables [OF i]
  have ord: "get_order 65536 = 16" using get_order_pow [of 16] by simp
  have lev: "level_of 19 65536 = 8" by (simp add: level_of_def ord)
  have "card (dom (bufs Ps)) < 2 ^ level_of 19 65536"
    using card_length [of Ps] len by (simp add: lev)
  moreover have "level_of 19 m = level_of 19 65536" if "bufs Ps p = Some m" for p m
    using that by (simp add: bufs_def split: if_splits)
  ultimately obtain p t' where "buddy_alloc_fn 65536 t = Some (p, t')" "p \<noteq> NULL"
    using buddy_uniform_alloc [OF I, of 65536] by auto
  then show ?thesis
    using out tab(1-5) by (simp add: make_pool_allocator_def allo_alloc_def buddy_allo_def Let_def)
qed

lemma make_gen_pools_ok:
  assumes st: "unat st + 1680 < 2 ^ 64"
  shows "gen_buddy os OInv k F l G t (bufs Ps) \<Longrightarrow> pools_made cs Ps t \<Longrightarrow> i = length Ps \<Longrightarrow> i \<le> 8 \<Longrightarrow>
    \<exists>cs' Ps' t'. make_gen_pools i st cs t = Some (Inr (cs', t')) \<and> length Ps' = 8 \<and>
      gen_buddy os OInv k F l G t' (bufs Ps') \<and> pools_made cs' Ps' t'"
proof (induction "8 - i" arbitrary: i cs Ps t)
  case 0
  then have "make_gen_pools i st cs t = Some (Inr (cs, t))" by (simp add: make_gen_pools.simps POOL_COUNT_def)
  with 0 show ?case by auto
next
  case (Suc d)
  have i: "i < 8" using Suc.hyps(2) by simp
  note tab = pool_tables [OF i]
  have out: "st + 336 + 168 * word_of_nat i \<noteq> NULL"
  proof -
    have "unat (168 * word_of_nat i :: size_t) = 168 * i" using i by (simp add: unat_mult64 unat_of_nat64)
    then have "unat (st + 336 + 168 * word_of_nat i) = unat st + 336 + 168 * i"
      using st i by (simp add: unat_add64)
    then show ?thesis by auto
  qed
  have args: "unat (pool_sizes ! i) < 2 ^ 63" "unat (pool_block_round (pool_sizes ! i)) * unat (pool_blocks ! i) < 2 ^ 63"
    using tab by simp_all
  let ?make = "make_pool_allocator (st + 336 + 168 * word_of_nat i) (Some buddy_allo) NULL (pool_sizes ! i) (pool_blocks ! i) t"
  have run: "make_gen_pools i st cs t = do { r \<leftarrow> ?make;
      (case r of Inl (err, s) \<Rightarrow> Some (Inl (err, cs, s))
       | Inr t \<Rightarrow> make_gen_pools (i + 1) st (cs @ [self_ctx t]) (child_state t)) }"
    using i by (subst make_gen_pools.simps) (simp add: POOL_COUNT_def)
  have keep: "pool_inv (Ps ! j) (pool_sizes ! j) (pool_blocks ! j) (with_child (cs ! j) t') Map.empty"
    if j: "j < length Ps" and k: "kept (gen_heap F - live G) (bufs Ps) (mem t) (mem t')" for j t'
  proof (rule pool_inv_cong)
    show "pool_inv (Ps ! j) (pool_sizes ! j) (pool_blocks ! j) (with_child (cs ! j) t) Map.empty"
      using Suc.prems(2) j by (simp add: pools_made_def)
    fix x assume "x \<in> region (Ps ! j) (pool_sizes ! j * pool_blocks ! j)"
    moreover have "j < 8" using j Suc.prems(3) i by simp
    ultimately have "x \<in> live (bufs Ps)" using j by (auto simp: live_def bufs_def pool_tables(2))
    then show "mem (with_child (cs ! j) t') x = mem (with_child (cs ! j) t) x" using k by (simp add: kept_def)
  qed simp
  show ?case
  proof (cases rule: allocator.make_pool_owned [OF gen_buddy_allocator Suc.prems(1) out tab(4,5) args])
    case (1 t')
    then show ?thesis using pool_room [OF Suc.prems(1) _ out i] Suc.prems(3) i by blast
  next
    case (2 u P)
    let ?cs = "cs @ [self_ctx u]" and ?Ps = "Ps @ [P]"
    have own: "pool_owns (self_ctx u) P" and P: "P \<notin> set Ps"
      and B: "gen_buddy os OInv k F l G (child_state u) (bufs ?Ps)"
      using 2(3) tab(1,2) by (simp_all add: pool_owns_def pool_backed_def pool_ctx_ok_def bufs_snoc)
    have "pool_inv (?Ps ! j) (pool_sizes ! j) (pool_blocks ! j) (with_child (?cs ! j) (child_state u)) Map.empty"
      if j: "j < length ?Ps" for j
    proof (cases "j < length Ps")
      case True
      then show ?thesis using keep [OF True, of "child_state u"] 2(4) Suc.prems(2) by (simp add: nth_append pools_made_def)
    next
      case False
      then have "j = i" using j Suc.prems(3) by simp
      then show ?thesis using 2(2) tab(1) Suc.prems(2,3) by (simp add: nth_append pools_made_def)
    qed
    then have made: "pools_made ?cs ?Ps (child_state u)"
      using Suc.prems(2) own P by (simp add: pools_made_def list_all2_appendI)
    have "make_gen_pools i st cs t = make_gen_pools (i + 1) st ?cs (child_state u)" using 2(1) by (simp add: run)
    then show ?thesis
      using Suc.hyps(1) [OF _ B made] Suc.hyps(2) Suc.prems(3) i by simp
  qed
qed

lemma gen_rep_made:
  assumes B: "gen_buddy os OInv k F l [l_state l \<mapsto> sizeof_gen_state] t (bufs (l_pools l))"
    and made: "pools_made cs (l_pools l) t" and len: "length (l_pools l) = 8"
  shows "gen_rep os OInv k F l (with_child \<lparr>gen_state = l_state l, gen_pools = cs\<rparr> t) Map.empty"
proof -
  have "pool_ok l i (pool_state i (with_child \<lparr>gen_state = l_state l, gen_pools = cs\<rparr> t)) Map.empty" if "i < 8" for i
    using made len that by (auto simp: pool_ok_def pools_made_def pool_state_def list_all2_conv_all_nth pool_owns_def)
  moreover have "gen_shape l (with_child \<lparr>gen_state = l_state l, gen_pools = cs\<rparr> t) Map.empty"
    using made len by (simp add: gen_shape_def pools_made_def)
  ultimately show ?thesis using B by (simp add: gen_rep_def page_part_def buddy_part_def pool_bufs_bufs)
qed

lemma buddy_total: "nat (get_order BUDDY_TOTAL_SIZE) = 24" "unat BUDDY_TOTAL_SIZE = 2 ^ 24"
  using get_order_pow [of 24] by (simp_all add: BUDDY_TOTAL_SIZE_def)

lemma make_gen_buddy:
  assumes P: "page_inv OInv k F m [st \<mapsto> sizeof_gen_state]" and out: "st + 168 \<noteq> NULL"
  obtains (nomem) m' where "make_buddy_allocator (st + 168) (Some (page_allo os)) NULL BUDDY_TOTAL_SIZE m =
      Some (Inl (ALLO_ERR_NOMEM, m'))" "page_inv OInv k F m' [st \<mapsto> sizeof_gen_state]"
    | (ok) l t where "make_buddy_allocator (st + 168) (Some (page_allo os)) NULL BUDDY_TOTAL_SIZE m = Some (Inr t)"
      "l_state l = st" "gen_buddy os OInv k F l [st \<mapsto> sizeof_gen_state] t Map.empty"
proof (cases rule: page.make_buddy_owned [OF P out, of BUDDY_TOTAL_SIZE])
  case (4 m')
  then show thesis by (rule nomem)
next
  case (5 t B D fl bs bo)
  have "(2 :: nat) ^ 24 \<le> 2 ^ (D + 5)" "(2 :: nat) ^ (D + 5) < 2 ^ 25" using 5(2,3) by (simp_all add: buddy_total)
  then have "24 \<le> D + 5" "D + 5 < 25" by (simp_all only: power_increasing_iff power_strict_increasing_iff)
  then have D: "D = 19" by simp
  define l where "l = \<lparr>l_state = st, l_buf = B, l_fl = fl, l_bs = bs, l_bo = bo, l_pools = []\<rparr>"
  show thesis
    by (rule ok [of t l]) (use 5 D in \<open>simp_all add: l_def gen_buddy_def buddy_over_def\<close>)
qed (simp_all add: buddy_total)

lemma gen_buddy_layout:
  "gen_buddy os OInv k F (l\<lparr>l_pools := Ps\<rparr>) G t K = gen_buddy os OInv k F l G t K"
  by (simp add: gen_buddy_def)

lemma make_gen_ok:
  assumes I: "OInv s F" and out: "out \<noteq> NULL"
  obtains (nomem) s' where "\<not> fst (gen_stages os out s)"
      "make_gen_allocator os out s = Some (Inl (ALLO_ERR_NOMEM, s'))" "OInv s' F"
    | (unmapped) "gen_stages os out s = (True, False)" "make_gen_allocator os out s = None"
    | (made) s' l where "gen_stages os out s = (True, True)" "make_gen_allocator os out s = Some (Inr s')"
      "gen_rep os OInv k F l s' Map.empty"
proof (cases rule: make_page_ok [OF I out])
  case (1 s')
  then show thesis using out by (intro nomem) (simp_all add: make_gen_allocator_def gen_stages_def)
next
  case (2 m)
  note m = this(1)
  have sz: "unat sizeof_gen_state < 2 ^ 63" by (simp add: sizeof_gen_state_def)
  show thesis
  proof (cases rule: page.alloc_cases [OF 2(2) sz])
    case f: (1 m')
    obtain t where "allo_destroy (page_allo os) m' = Some ((), t)" "OInv (child_state t) F"
      using page_destroy_ok [OF f(2)] by blast
    then show thesis using out m f(1) by (intro nomem) (simp_all add: make_gen_allocator_def gen_stages_def)
  next
    case a: (2 st m1)
    have st: "unat st + 1680 < 2 ^ 64" using a(6) by (simp add: block_ok_def sizeof_gen_state_def)
    then have "unat (st + 168) = unat st + 168" by (simp add: unat_add64)
    then have out': "st + 168 \<noteq> NULL" by auto
    show thesis
    proof (cases rule: make_gen_buddy [OF a(4) out'])
      case (1 m2)
      obtain t where "allo_free (page_allo os) st sizeof_gen_state m2 = Some ((), t)"
        using page.free_ok [OF 1(2), of st sizeof_gen_state] by auto
      then show thesis
        using out m a(1,2) 1(1) by (intro unmapped) (simp_all add: make_gen_allocator_def gen_stages_def use_after_unmap_def)
    next
      case (2 l t)
      note b = this
      have B: "gen_buddy os OInv k F l [st \<mapsto> sizeof_gen_state] t (bufs [])" using b(3) by simp
      have "pools_made [] [] t" by (simp add: pools_made_def)
      from make_gen_pools_ok [OF st B this refl]
      obtain cs Ps u where good: "make_gen_pools 0 st [] t = Some (Inr (cs, u))" "length Ps = 8"
        "gen_buddy os OInv k F l [st \<mapsto> sizeof_gen_state] u (bufs Ps)" "pools_made cs Ps u"
        by auto
      let ?l = "l\<lparr>l_pools := Ps\<rparr>"
      have rep: "gen_rep os OInv k F ?l (with_child \<lparr>gen_state = l_state ?l, gen_pools = cs\<rparr> u) Map.empty"
        by (rule gen_rep_made) (use good b(2) in \<open>simp_all add: gen_buddy_layout\<close>)
      have run: "make_gen_allocator os out s = Some (Inr (with_child \<lparr>gen_state = l_state ?l, gen_pools = cs\<rparr> u))"
        using out m a(1,2) b(1,2) good(1) by (simp add: make_gen_allocator_def)
      have "gen_stages os out s = (True, True)" using m a(1,2) b(1) by (simp add: gen_stages_def)
      with run rep show thesis by (rule made [rotated])
    qed
  qed
qed

end

end
