(* ===== verification/Harness.thy ===== *)
theory Harness
  imports Fuzz Owned Arena BuddyOver Libc GenFactory
begin

text \<open>
  The entry point of the fuzzing harness, \<open>LLVMFuzzerTestOneInput\<close> of \<open>tests/fuzz_allocator.c\<close>: the
  first bytes of the input choose one of seven allocators and its parameters, and the rest drives
  it. The C library and the operating system are the parameters \<open>lc\<close> and \<open>os\<close>; they share the
  state of type \<open>'e\<close>. \<open>out\<close> is the address of the local \<open>a\<close>.
\<close>

section \<open>Code\<close>

definition fuzz_selector :: "byte list \<Rightarrow> nat" where
  "fuzz_selector data = unat (data ! 0) mod 7"

definition fuzz_max_pointers :: "byte list \<Rightarrow> nat" where
  "fuzz_max_pointers data = unat (data ! 1) mod ABSOLUTE_MAX_POINTERS + 1"

definition fuzz_max_alloc :: "byte list \<Rightarrow> size_t" where
  "fuzz_max_alloc data =
     (push_bit 16 (ucast (data ! 2)) OR be16 (data ! 3) (data ! 4)) mod ABSOLUTE_MAX_ALLOC + 1"

text \<open>When the run is over, \<open>a\<close> is destroyed and its context is gone; then the child is destroyed.\<close>

definition fuzz_over ::
  "('c \<times> 'e) allo \<Rightarrow> 'e allo \<Rightarrow> nat \<Rightarrow> size_t \<Rightarrow> byte list \<Rightarrow>
     ((allo_error_t \<times> 'e machine) + ('c \<times> 'e) machine) option \<Rightarrow> 'e machine outcome" where
  "fuzz_over a child np na data made =
     (case made of
        None \<Rightarrow> None
      | Some (Inl (_, s)) \<Rightarrow> Some (Inr s)
      | Some (Inr t) \<Rightarrow>
          (case fuzz_run a np na data t of
             None \<Rightarrow> None
           | Some (Inl _) \<Rightarrow> Some (Inl ())
           | Some (Inr t) \<Rightarrow> do { (_, s) \<leftarrow> allo_destroy child (child_state t); Some (Inr s) }))"

definition fuzz_c :: "'e libc \<Rightarrow> ptr \<Rightarrow> nat \<Rightarrow> size_t \<Rightarrow> byte list \<Rightarrow> 'e machine \<Rightarrow> 'e machine outcome" where
  "fuzz_c lc out np na data s =
     (case make_c_allocator lc out of
        Inl _ \<Rightarrow> Some (Inr s)
      | Inr a \<Rightarrow> fuzz_run a np na data s)"

definition fuzz_page :: "'e os \<Rightarrow> ptr \<Rightarrow> nat \<Rightarrow> size_t \<Rightarrow> byte list \<Rightarrow> 'e machine \<Rightarrow> 'e machine outcome" where
  "fuzz_page os out np na data s =
     (case make_page_allocator os out s of
        Inl (_, s) \<Rightarrow> Some (Inr s)
      | Inr t \<Rightarrow>
          (case fuzz_run (page_allo os) np na data t of
             None \<Rightarrow> None
           | Some (Inl _) \<Rightarrow> Some (Inl ())
           | Some (Inr t) \<Rightarrow> Some (Inr (child_state t))))"

definition fuzz_buffer :: "'e libc \<Rightarrow> ptr \<Rightarrow> nat \<Rightarrow> size_t \<Rightarrow> byte list \<Rightarrow> 'e machine \<Rightarrow> 'e machine outcome" where
  "fuzz_buffer lc out np na data s =
     (if length data < 2 then Some (Inr s)
      else
        (let buf_size = be16 (data ! 0) (data ! 1) mod (na * word_of_nat np + 1) + 1;
             (buffer, s) = malloc lc buf_size s
         in case make_fixed_buf_allocator out buffer buf_size s of
              Inl (_, s) \<Rightarrow> Some (Inr (c_free lc buffer s))
            | Inr t \<Rightarrow>
                (case fuzz_run buf_allo np na (drop 2 data) t of
                   None \<Rightarrow> None
                 | Some (Inl _) \<Rightarrow> Some (Inl ())
                 | Some (Inr t) \<Rightarrow> Some (Inr (c_free lc buffer (child_state t))))))"

definition fuzz_arena :: "'e libc \<Rightarrow> ptr \<Rightarrow> nat \<Rightarrow> size_t \<Rightarrow> byte list \<Rightarrow> 'e machine \<Rightarrow> 'e machine outcome" where
  "fuzz_arena lc out np na data s =
     (if length data < 2 then Some (Inr s)
      else
        (let block_size = be16 (data ! 0) (data ! 1) + 1; child = c_allo lc
         in fuzz_over arena_allo child np na (drop 2 data) (make_arena_allocator out (Some child) block_size s)))"

definition fuzz_pool :: "'e libc \<Rightarrow> ptr \<Rightarrow> nat \<Rightarrow> size_t \<Rightarrow> byte list \<Rightarrow> 'e machine \<Rightarrow> 'e machine outcome" where
  "fuzz_pool lc out np na data s =
     (if length data < 4 then Some (Inr s)
      else
        (let pool_block_size = be16 (data ! 0) (data ! 1) mod 4096 + 1;
             total_blocks = be16 (data ! 2) (data ! 3) mod 1024 + 1;
             child = c_allo lc
         in fuzz_over pool_allo child np na (drop 4 data)
              (make_pool_allocator out (Some child) NULL pool_block_size total_blocks s)))"

definition fuzz_buddy :: "'e libc \<Rightarrow> ptr \<Rightarrow> nat \<Rightarrow> size_t \<Rightarrow> byte list \<Rightarrow> 'e machine \<Rightarrow> 'e machine outcome" where
  "fuzz_buddy lc out np na data s =
     (if length data < 1 then Some (Inr s)
      else
        (let buddy_size = push_bit (unat (data ! 0) mod 11 + 10) 1; child = c_allo lc
         in fuzz_over buddy_allo child np na (drop 1 data)
              (make_buddy_allocator out (Some child) NULL buddy_size s)))"

definition fuzz_gen :: "'e os \<Rightarrow> ptr \<Rightarrow> nat \<Rightarrow> size_t \<Rightarrow> byte list \<Rightarrow> 'e machine \<Rightarrow> 'e machine outcome" where
  "fuzz_gen os out np na data s =
     (case make_gen_allocator os out s of
        None \<Rightarrow> None
      | Some (Inl (_, s)) \<Rightarrow> Some (Inr s)
      | Some (Inr t) \<Rightarrow>
          (case fuzz_run (gen_allo os) np na data t of
             None \<Rightarrow> None
           | Some (Inl _) \<Rightarrow> Some (Inl ())
           | Some (Inr t) \<Rightarrow> Some (Inr (child_state (child_state (child_state t))))))"

definition LLVMFuzzerTestOneInput ::
  "'e os \<Rightarrow> 'e libc \<Rightarrow> ptr \<Rightarrow> byte list \<Rightarrow> 'e machine \<Rightarrow> 'e machine outcome" where
  "LLVMFuzzerTestOneInput os lc out data s =
     (if length data < 7 then Some (Inr s)
      else
        (let selector = fuzz_selector data; np = fuzz_max_pointers data; na = fuzz_max_alloc data;
             rest = drop 5 data
         in if selector = 0 then fuzz_c lc out np na rest s
            else if selector = 1 then fuzz_page os out np na rest s
            else if selector = 2 then fuzz_buffer lc out np na rest s
            else if selector = 3 then fuzz_arena lc out np na rest s
            else if selector = 4 then fuzz_pool lc out np na rest s
            else if selector = 5 then fuzz_buddy lc out np na rest s
            else fuzz_gen os out np na rest s))"

lemma fuzz_max_pointers: "0 < fuzz_max_pointers data" "fuzz_max_pointers data \<le> 128"
  using mod_less_divisor [of 128 "unat (data ! 1)"]
  by (simp_all add: fuzz_max_pointers_def ABSOLUTE_MAX_POINTERS_def del: mod_less_divisor)

section \<open>Over the operating system\<close>

context os_pages
begin

lemma fuzz_page_ok:
  assumes I: "OInv s F" and out: "out \<noteq> NULL" and np: "0 < np" "np \<le> 128"
  shows "\<exists>s'. fuzz_page os out np na data s = Some (Inr s') \<and> OInv s' F"
proof (cases rule: make_page_ok [OF I out])
  case (1 s')
  then show ?thesis by (simp add: fuzz_page_def)
next
  case (2 t)
  have "\<exists>t'. fuzz_run (page_allo os) np na data t = Some (Inr t') \<and> OInv (child_state t') F"
  proof (rule allocator.fuzz_run_ok [OF page.allocator_axioms 2(2) np])
    show "\<exists>t'. allo_destroy (page_allo os) u = Some ((), t') \<and> OInv (child_state t') F"
      if "page_inv OInv k F u Map.empty" for u
      using page_destroy_ok [OF that] by blast
  qed simp
  with 2(1) show ?thesis by (auto simp: fuzz_page_def)
qed

text \<open>
  The general purpose allocator: when its factory does not come back, neither does the harness; in
  every other case it does.
\<close>

lemma fuzz_gen_ok:
  assumes I: "OInv s F" and out: "out \<noteq> NULL" and np: "0 < np" "np \<le> 128"
  shows "if make_gen_allocator os out s = None then fuzz_gen os out np na data s = None
    else \<exists>s'. fuzz_gen os out np na data s = Some (Inr s') \<and> OInv s' F"
proof (cases rule: make_gen_ok [OF I out])
  case (1 s')
  then show ?thesis by (simp add: fuzz_gen_def)
next
  case 2
  then show ?thesis by (simp add: fuzz_gen_def)
next
  case (3 t l)
  have A: "allocator (gen_allo os) (gen_rep os OInv k F l) (gen_heap F) (2 ^ 63)"
    using gen_exact by (rule exact_allocator.axioms(1))
  have "\<exists>t'. fuzz_run (gen_allo os) np na data t = Some (Inr t') \<and>
      OInv (child_state (child_state (child_state t'))) F"
  proof (rule allocator.fuzz_run_ok [OF A 3(3) np])
    show "\<exists>t'. allo_destroy (gen_allo os) u = Some ((), t') \<and> OInv (child_state (child_state (child_state t'))) F"
      if "gen_rep os OInv k F l u Map.empty" for u
      using gen_destroy_ok [OF that] by (simp add: allo_destroy_def gen_allo_def)
  qed simp
  with 3(2) show ?thesis by (auto simp: fuzz_gen_def)
qed

end

section \<open>Over the C library\<close>

lemma buddy_size_bounds:
  fixes b :: byte
  defines "n \<equiv> push_bit (unat b mod 11 + 10) (1 :: size_t)"
  shows "1024 \<le> unat n" "unat n \<le> 2 ^ 20" "2 ^ nat (get_order n) = unat n"
proof -
  define e where "e = unat b mod 11 + 10"
  have e: "10 \<le> e" "e \<le> 20" by (simp_all add: e_def)
  have n: "n = 2 ^ e" by (simp add: n_def e_def push_bit_eq_mult)
  have u: "unat n = 2 ^ e" unfolding n using e(2) by (intro unat_pow64) simp
  have "(2 :: nat) ^ 10 \<le> 2 ^ e" "(2 :: nat) ^ e \<le> 2 ^ 20"
    using power_increasing [OF e(1), of "2 :: nat"] power_increasing [OF e(2), of "2 :: nat"] by simp_all
  then show "1024 \<le> unat n" "unat n \<le> 2 ^ 20" by (simp_all add: u)
  have "nat (get_order n) = e" using get_order_pow [of e] e(2) by (simp add: n)
  then show "2 ^ nat (get_order n) = unat n" by (simp add: u)
qed

lemma pool_block_round_small:
  assumes "n \<noteq> 0" "unat n \<le> 4096"
  shows "unat (pool_block_round n) \<le> 4104"
proof -
  define m where "m = (if n < 8 then 8 else n)"
  have "unat m \<le> 4096" using assms(2) by (simp add: m_def)
  then have "unat (allo_align_up m 8) \<le> 4104" using allo_align_up_8(2) [of m] by simp
  then show ?thesis by (simp add: pool_block_round_def m_def)
qed

lemma be16_mod: "unat (be16 hi lo mod 2 ^ k + 1) \<le> 2 ^ k" "be16 hi lo mod 2 ^ k + 1 \<noteq> 0" if "k < 16"
proof -
  have u: "unat (2 ^ k :: size_t) = 2 ^ k" using that by (intro unat_pow64) simp
  have "unat (be16 hi lo mod 2 ^ k) < 2 ^ k" by (simp add: unat_mod u)
  moreover have "(2 :: nat) ^ k \<le> 2 ^ 16" using power_increasing [of k 16 "2 :: nat"] that by simp
  ultimately have "unat (be16 hi lo mod 2 ^ k + 1) = unat (be16 hi lo mod 2 ^ k) + 1"
    using unat_add64 [of "be16 hi lo mod 2 ^ k" 1] by simp
  with \<open>unat (be16 hi lo mod 2 ^ k) < 2 ^ k\<close>
  show "unat (be16 hi lo mod 2 ^ k + 1) \<le> 2 ^ k" "be16 hi lo mod 2 ^ k + 1 \<noteq> 0" by auto
qed

context c_library
begin

lemma fuzz_c_ok:
  assumes I: "Inv s C" and out: "out \<noteq> NULL" and np: "0 < np" "np \<le> 128" and lim: "2 ^ 24 \<le> lim"
  shows "\<exists>s'. fuzz_c lc out np na data s = Some (Inr s') \<and> Inv s' C"
proof -
  have "framed Inv C s Map.empty" using I by (simp add: framed_def)
  then have "\<exists>s'. fuzz_run (c_allo lc) np na data s = Some (Inr s') \<and> Inv s' C"
  proof (rule allocator.fuzz_run_ok [OF ca.framed_allocator _ np])
    show "65536 \<le> lim" using lim by simp
    show "\<exists>t'. allo_destroy (c_allo lc) t = Some ((), t') \<and> Inv t' C" if "framed Inv C t Map.empty" for t
      using that by (simp add: allo_destroy_def c_allo_def framed_def)
  qed
  then show ?thesis using out by (simp add: fuzz_c_def make_c_allocator_def)
qed

text \<open>The arms with a child: the run gives the child back as it was.\<close>

lemma fuzz_over_ok:
  assumes A: "allocator a AInv h l" and l: "65536 \<le> l" and np: "0 < np" "np \<le> 128"
    and made: "(\<exists>e s'. made = Some (Inl (e, s')) \<and> Inv s' C) \<or> (\<exists>t. made = Some (Inr t) \<and> AInv t Map.empty)"
    and destroy: "\<And>t. AInv t Map.empty \<Longrightarrow> \<exists>t'. allo_destroy a t = Some ((), t') \<and> Inv (child_state t') C"
  shows "\<exists>s'. fuzz_over a (c_allo lc) np na data made = Some (Inr s') \<and> Inv s' C"
  using made
proof (elim disjE exE conjE)
  fix e s' assume "made = Some (Inl (e, s'))" "Inv s' C"
  then show ?thesis by (simp add: fuzz_over_def)
next
  fix t assume m: "made = Some (Inr t)" and J: "AInv t Map.empty"
  have "\<exists>t'. fuzz_run a np na data t = Some (Inr t') \<and> Inv (child_state t') C"
    by (rule allocator.fuzz_run_ok [OF A J np l destroy])
  then show ?thesis by (auto simp: fuzz_over_def m allo_destroy_def c_allo_def)
qed

lemma fuzz_arena_ok:
  assumes I: "Inv s C" and out: "out \<noteq> NULL" and np: "0 < np" "np \<le> 128" and lim: "2 ^ 24 \<le> lim"
  shows "\<exists>s'. fuzz_arena lc out np na data s = Some (Inr s') \<and> Inv s' C"
proof -
  let ?bsz = "be16 (data ! 0) (data ! 1) + 1"
  have u: "unat ?bsz = unat (be16 (data ! 0) (data ! 1)) + 1"
    using be16_less [of "data ! 0" "data ! 1"] unat_add64 [of "be16 (data ! 0) (data ! 1)" 1] by simp
  then have bsz: "?bsz \<noteq> 0" "unat ?bsz + 24 < lim" using be16_less [of "data ! 0" "data ! 1"] lim by auto
  have A: "arena_over (c_allo lc) Inv heap lim ?bsz"
    using bsz(2) by (intro arena_over.intro ca.allocator_axioms) (simp add: arena_over_axioms_def)
  have "allocator arena_allo (arena_inv (c_allo lc) Inv heap C ?bsz) (heap - live C) (lim - 24)"
    by (rule exact_allocator.axioms(1) [OF arena_over.arena_over_exact [OF A]])
  then have "\<exists>s'. fuzz_over arena_allo (c_allo lc) np na (drop 2 data)
      (make_arena_allocator out (Some (c_allo lc)) ?bsz s) = Some (Inr s') \<and> Inv s' C"
  proof (rule fuzz_over_ok [OF _ _ np])
    show "65536 \<le> lim - 24" using lim by simp
    show "(\<exists>e s'. make_arena_allocator out (Some (c_allo lc)) ?bsz s = Some (Inl (e, s')) \<and> Inv s' C) \<or>
        (\<exists>t. make_arena_allocator out (Some (c_allo lc)) ?bsz s = Some (Inr t) \<and>
          arena_inv (c_allo lc) Inv heap C ?bsz t Map.empty)"
      by (cases rule: ca.make_arena_ok [OF I out bsz]) auto
    show "\<exists>t'. allo_destroy arena_allo t = Some ((), t') \<and> Inv (child_state t') C"
      if "arena_inv (c_allo lc) Inv heap C ?bsz t Map.empty" for t
      by (rule ca.arena_destroy_ok [OF that]) (simp add: allo_destroy_def arena_allo_def)
  qed
  then show ?thesis using I by (auto simp: fuzz_arena_def Let_def)
qed

lemma fuzz_pool_ok:
  assumes I: "Inv s C" and out: "out \<noteq> NULL" and np: "0 < np" "np \<le> 128" and lim: "2 ^ 24 \<le> lim"
  shows "\<exists>s'. fuzz_pool lc out np na data s = Some (Inr s') \<and> Inv s' C"
proof -
  let ?n = "be16 (data ! 0) (data ! 1) mod 4096 + 1" and ?tot = "be16 (data ! 2) (data ! 3) mod 1024 + 1"
  have n: "?n \<noteq> 0" "unat ?n \<le> 4096" and tot: "?tot \<noteq> 0" "unat ?tot \<le> 1024"
    using be16_mod [of 12 "data ! 0" "data ! 1"] be16_mod [of 10 "data ! 2" "data ! 3"] by simp_all
  have n63: "unat ?n < 2 ^ 63" using n(2) by simp
  let ?bs = "pool_block_round ?n" and ?made = "make_pool_allocator out (Some (c_allo lc)) NULL ?n ?tot s"
  have "unat ?bs * unat ?tot \<le> 4104 * 1024" using pool_block_round_small [OF n] tot(2) by (rule mult_le_mono)
  then have sz: "unat ?bs * unat ?tot < lim" using lim by simp
  have "\<exists>s'. fuzz_over pool_allo (c_allo lc) np na (drop 4 data) ?made = Some (Inr s') \<and> Inv s' C"
  proof (cases rule: ca.make_pool_owned [OF I out n(1) tot(1) n63 sz])
    case (1 s')
    then show ?thesis by (simp add: fuzz_over_def)
  next
    case (2 t B)
    let ?both = "\<lambda>s L. pool_inv B ?bs ?tot s L \<and> holds_block Inv C B (?bs * ?tot) (pool_owner (c_allo lc)) s"
    have A: "allocator pool_allo ?both (heap - live C) (2 ^ 63)"
      by (rule exact_allocator.axioms(1) [OF block_owner.owner_exact [OF ca.pool_owned]])
    show ?thesis
    proof (rule fuzz_over_ok [OF A _ np])
      show "\<exists>t'. allo_destroy pool_allo u = Some ((), t') \<and> Inv (child_state t') C" if "?both u Map.empty" for u
      proof -
        have "pool_backed (c_allo lc) Inv C B ?bs ?tot u"
          using that by (simp add: pool_backed_def holds_block_def pool_owner_def pool_inv_def)
        then show ?thesis by (rule ca.pool_destroy_ok) (simp add: allo_destroy_def pool_allo_def)
      qed
      show "(\<exists>e s'. ?made = Some (Inl (e, s')) \<and> Inv s' C) \<or> (\<exists>t. ?made = Some (Inr t) \<and> ?both t Map.empty)"
        using 2 by (auto simp: pool_backed_def holds_block_def pool_owner_def)
    qed simp
  qed
  then show ?thesis using I by (auto simp: fuzz_pool_def Let_def)
qed

lemma fuzz_buddy_ok:
  assumes I: "Inv s C" and out: "out \<noteq> NULL" and np: "0 < np" "np \<le> 128" and lim: "2 ^ 24 \<le> lim"
  shows "\<exists>s'. fuzz_buddy lc out np na data s = Some (Inr s') \<and> Inv s' C"
proof -
  let ?n = "push_bit (unat (data ! 0) mod 11 + 10) 1 :: size_t"
  let ?made = "make_buddy_allocator out (Some (c_allo lc)) NULL ?n s"
  note b = buddy_size_bounds [of "data ! 0"]
  have n: "16 < unat ?n" "unat ?n \<le> 2 ^ 62" "2 ^ nat (get_order ?n) < lim" using b lim by simp_all
  have "\<exists>s'. fuzz_over buddy_allo (c_allo lc) np na (drop 1 data) ?made = Some (Inr s') \<and> Inv s' C"
  proof (cases rule: ca.make_buddy_owned [OF I out n])
    case (1 s')
    then show ?thesis by (simp add: fuzz_over_def)
  next
    case (2 t B D fl bs bo)
    let ?both = "buddy_over (c_allo lc) Inv C B D fl bs bo"
    have A: "allocator buddy_allo ?both (heap - live C) (2 ^ 63)"
      by (rule exact_allocator.axioms(1) [OF ca.buddy_over_exact])
    show ?thesis
    proof (rule fuzz_over_ok [OF A _ np])
      show "\<exists>t'. allo_destroy buddy_allo u = Some ((), t') \<and> Inv (child_state t') C" if "?both u Map.empty" for u
        by (rule ca.buddy_destroy_ok [OF buddy_overD(2) [OF that]]) (simp add: allo_destroy_def buddy_allo_def)
      show "(\<exists>e s'. ?made = Some (Inl (e, s')) \<and> Inv s' C) \<or> (\<exists>t. ?made = Some (Inr t) \<and> ?both t Map.empty)"
        using 2 by (auto simp: buddy_over_def)
    qed simp
  qed
  then show ?thesis using I by (auto simp: fuzz_buddy_def Let_def)
qed

lemma fuzz_buffer_ok:
  assumes I: "Inv s C" and out: "out \<noteq> NULL" and np: "0 < np" "np \<le> 128" and lim: "2 ^ 24 \<le> lim"
  shows "\<exists>s'. fuzz_buffer lc out np na data s = Some (Inr s') \<and> Inv s' C"
proof (cases "length data < 2")
  case True
  with I show ?thesis by (simp add: fuzz_buffer_def)
next
  case False
  define m where "m = be16 (data ! 0) (data ! 1) mod (na * word_of_nat np + 1)"
  have m: "unat m < 65536" using decode_size_less by (simp add: m_def decode_size_def [symmetric])
  then have u: "unat (m + 1) = unat m + 1" using unat_add64 [of m 1] by simp
  then have S: "m + 1 \<noteq> 0" "unat (m + 1) < lim" "size_ok (m + 1)" using m lim by (auto simp: size_ok_def)
  obtain B s1 where B: "malloc lc (m + 1) s = (B, s1)" by fastforce
  have post: "alloc_post Inv heap C (m + 1) s B s1" by (rule malloc_law [OF I S(2,1) B])
  have run: "fuzz_buffer lc out np na data s = (case make_fixed_buf_allocator out B (m + 1) s1 of
      Inl (_, s) \<Rightarrow> Some (Inr (c_free lc B s))
    | Inr t \<Rightarrow> (case fuzz_run buf_allo np na (drop 2 data) t of
         None \<Rightarrow> None
       | Some (Inl _) \<Rightarrow> Some (Inl ())
       | Some (Inr t) \<Rightarrow> Some (Inr (c_free lc B (child_state t)))))"
    using False by (simp only: fuzz_buffer_def Let_def m_def [symmetric] B if_False prod.case)
  show ?thesis
  proof (cases "B = NULL")
    case True
    then have "Inv s1 C" using post by (simp add: alloc_post_def)
    with True show ?thesis using c_free_null_law [of s1 C] by (simp add: run make_fixed_buf_allocator_def)
  next
    case False
    then have I1: "Inv s1 (C(B \<mapsto> m + 1))" and fresh: "B \<notin> dom C" using post by (simp_all add: alloc_post_def)
    have bl: "block_ok B (m + 1)" using live_okD(1) [OF lc_live [OF I1], of B] by simp
    then have g: "unat B + unat (m + 1) < 2 ^ 64" "8 dvd unat B" by (simp_all add: block_ok_def)
    obtain t where t: "make_fixed_buf_allocator out B (m + 1) s1 = Inr t"
      using out S(1) False g(2) by (simp add: make_fixed_buf_allocator_def ALLO_IS_ALIGNED_8 Let_def)
    let ?both = "\<lambda>s L. buf_inv B (m + 1) s L \<and> holds_block Inv C B (m + 1) (\<lambda>_. True) s"
    have "Inv (child_state t) (C(B \<mapsto> m + 1))"
    proof (rule lc_write [OF I1])
      show "env (child_state t) = env s1" "\<And>x. mem (child_state t) x = mem s1 x"
        using t by (auto simp: make_fixed_buf_allocator_def Let_def split: if_splits)
    qed
    then have J: "?both t Map.empty"
      using make_fixed_buf_ok [OF t g(1) S(3)] fresh by (simp add: holds_block_def)
    have A: "allocator buf_allo ?both (heap - live C) (2 ^ 63)"
      by (rule exact_allocator.axioms(1) [OF block_owner.owner_exact [OF ca.buffer_owned]])
    have "\<exists>t'. fuzz_run buf_allo np na (drop 2 data) t = Some (Inr t') \<and> Inv (child_state t') (C(B \<mapsto> m + 1))"
    proof (rule allocator.fuzz_run_ok [OF A J np])
      show "\<exists>t'. allo_destroy buf_allo u = Some ((), t') \<and> Inv (child_state t') (C(B \<mapsto> m + 1))"
        if h: "?both u Map.empty" for u
      proof -
        have "Inv (child_state u) (C(B \<mapsto> m + 1))" using h by (simp add: holds_block_def)
        then have "Inv (child_state (ALLOC_POISON x n u)) (C(B \<mapsto> m + 1))" for x n by (rule lc_write) simp_all
        then show ?thesis by (simp add: allo_destroy_def buf_allo_def buf_destroy_fn_def Let_def)
      qed
    qed simp
    then obtain t' where t': "fuzz_run buf_allo np na (drop 2 data) t = Some (Inr t')"
      "Inv (child_state t') (C(B \<mapsto> m + 1))" by blast
    have "(C(B \<mapsto> m + 1))(B := None) = C" using fresh by (auto simp: fun_eq_iff)
    then have "Inv (c_free lc B (child_state t')) C"
      using c_free_law [OF t'(2), of B "m + 1"] by (simp add: free_post_def)
    then show ?thesis using t t'(1) by (simp add: run)
  qed
qed

end

end
