(* ===== verification/HeapArena.thy ===== *)
theory HeapArena
  imports Arena GenFactory
begin

text \<open>
  The example program \<open>examples/heap-arena/main.c\<close>: a page allocator, and a thousand times an arena
  over it with two allocations each. What it prints is a list of lines, newest last; its end is an exit
  code or \<open>abort\<close>. \<open>out\<close> stands for the address of the local allocators.
\<close>

section \<open>Code\<close>

datatype line =
    Failed_page_allocator
  | Failed_arena_allocator
  | Failed_allocation
  | Allocated_256 ptr
  | Allocated_512 ptr
  | Destroyed_backing

datatype exit = Returned nat | Aborted

text \<open>One round: the lines it prints, and the state unless it aborts.\<close>

definition arena_round ::
  "'e os \<Rightarrow> ptr \<Rightarrow> 'e page_machine \<Rightarrow> (line list \<times> 'e page_machine option) option" where
  "arena_round os out s = do {
     r \<leftarrow> make_arena_allocator out (Some (page_allo os)) (1024 * 1024) s;
     (case r of
        Inl _ \<Rightarrow> Some ([Failed_arena_allocator], None)
      | Inr s \<Rightarrow> do {
          (ptr1, s) \<leftarrow> allo_alloc arena_allo 256 s;
          if ptr1 = NULL then Some ([Failed_allocation], None)
          else do {
            (ptr2, s) \<leftarrow> allo_alloc arena_allo 512 s;
            if ptr2 = NULL then Some ([Allocated_256 ptr1, Failed_allocation], None)
            else do {
              (_, s) \<leftarrow> allo_destroy arena_allo s;
              Some ([Allocated_256 ptr1, Allocated_512 ptr2], Some (child_state s))
            }
          }
        })
   }"

function arena_rounds ::
  "nat \<Rightarrow> 'e os \<Rightarrow> ptr \<Rightarrow> line list \<Rightarrow> 'e page_machine \<Rightarrow> (line list \<times> 'e page_machine option) option" where
  "arena_rounds i os out printed s =
     (if i < 1000 then
        (case arena_round os out s of
           None \<Rightarrow> None
         | Some (ls, None) \<Rightarrow> Some (printed @ ls, None)
         | Some (ls, Some s) \<Rightarrow> arena_rounds (i + 1) os out (printed @ ls) s)
      else Some (printed, Some s))"
  by pat_completeness auto
termination by (relation "measure (\<lambda>(i, os, out, printed, s). 1000 - i)") auto

declare arena_rounds.simps [simp del]

definition heap_arena_main :: "'e os \<Rightarrow> ptr \<Rightarrow> 'e machine \<Rightarrow> (line list \<times> exit \<times> 'e machine option) option" where
  "heap_arena_main os out s =
     (case make_page_allocator os out s of
        Inl (_, s) \<Rightarrow> Some ([Failed_page_allocator], Returned 1, Some s)
      | Inr s \<Rightarrow>
          (case arena_rounds 0 os out [] s of
             None \<Rightarrow> None
           | Some (printed, None) \<Rightarrow> Some (printed, Aborted, None)
           | Some (printed, Some s) \<Rightarrow> do {
               (_, s) \<leftarrow> allo_destroy (page_allo os) s;
               Some (printed @ [Destroyed_backing], Returned 0, Some (child_state s))
             }))"

section \<open>Runs\<close>

text \<open>What complete rounds print, one pair of addresses each; the two blocks share no byte.\<close>

definition round_lines :: "(ptr \<times> ptr) list \<Rightarrow> line list" where
  "round_lines rounds = concat (map (\<lambda>(p, q). [Allocated_256 p, Allocated_512 q]) rounds)"

lemma round_lines_simps [simp]:
  "round_lines [] = []" "round_lines ((p, q) # rounds) = Allocated_256 p # Allocated_512 q # round_lines rounds"
  by (simp_all add: round_lines_def)

definition round_apart :: "ptr set \<Rightarrow> ptr \<times> ptr \<Rightarrow> bool" where
  "round_apart H pq \<longleftrightarrow> fst pq \<noteq> NULL \<and> snd pq \<noteq> NULL \<and> region (fst pq) 256 \<union> region (snd pq) 512 \<subseteq> H \<and>
     region (fst pq) 256 \<inter> region (snd pq) 512 = {}"

lemma rounds_apart:
  assumes "\<forall>pq \<in> set rounds. round_apart H pq"
  shows "\<forall>(p, q) \<in> set rounds. p \<noteq> NULL \<and> q \<noteq> NULL \<and> region p 256 \<inter> region q 512 = {}"
  using assms unfolding round_apart_def by fastforce

context os_pages
begin

text \<open>A round prints the addresses of two blocks and leaves the pages as they were, or no arena could be made.\<close>

lemma arena_round_ok:
  assumes J: "page_inv OInv k F s Map.empty" and out: "out \<noteq> NULL"
  obtains (no_arena) "arena_round os out s = Some ([Failed_arena_allocator], None)"
    | (done_round) p q s' where "arena_round os out s = Some ([Allocated_256 p, Allocated_512 q], Some s')"
      "round_apart (osheap - live F) (p, q)" "page_inv OInv k F s' Map.empty"
proof -
  let ?bsz = "1024 * 1024 :: size_t" and ?heap = "osheap - live F"
  have bsz: "?bsz \<noteq> 0" "unat ?bsz + 24 < 2 ^ 63" by simp_all
  show thesis
  proof (cases rule: page.make_arena_ok [OF J out bsz])
    case (1 s')
    then show thesis by (intro no_arena) (simp add: arena_round_def)
  next
    case (2 t)
    have A: "arena_over (page_allo os) (page_inv OInv k F) ?heap (2 ^ 63) ?bsz"
      using bsz(2) by (intro arena_over.intro page.allocator_axioms) (simp add: arena_over_axioms_def)
    let ?AI = "arena_inv (page_allo os) (page_inv OInv k F) ?heap Map.empty ?bsz"
    note law = arena_over.arena_over_alloc [OF A, where F = Map.empty]
    have R0: "arena_room ?bsz 0 t" by (rule page.make_arena_room [OF J bsz(2) 2(1)])
    obtain p t1 where t1: "arena_alloc_fn 256 t = Some (p, t1)" "p \<noteq> NULL" "arena_room ?bsz 256 t1"
      by (rule arena_alloc_room [OF R0, of 256 0]) (auto simp: allo_align_up_def)
    obtain q t2 where t2: "arena_alloc_fn 512 t1 = Some (q, t2)" "q \<noteq> NULL"
      by (rule arena_alloc_room [OF t1(3), of 512 256]) (auto simp: allo_align_up_def)
    have J1: "?AI t1 [p \<mapsto> 256]" using law [OF 2(2), of 256] t1 by (auto simp: arena_allo_def alloc_post_def)
    have J2: "?AI t2 [p \<mapsto> 256, q \<mapsto> 512]" and new: "q \<noteq> p"
      using law [OF J1, of 512] t2 by (auto simp: arena_allo_def alloc_post_def)
    have "allocator arena_allo ?AI (?heap - live Map.empty) (2 ^ 63 - 24)"
      by (rule exact_allocator.axioms(1) [OF arena_over.arena_over_exact [OF A]])
    then have "live_ok (?heap - live Map.empty) [p \<mapsto> 256, q \<mapsto> 512]"
      by (rule allocator.live_inv [where Inv = ?AI]) (rule J2)
    then have lv: "live_ok ?heap [p \<mapsto> 256, q \<mapsto> 512]" by simp
    have apart: "round_apart ?heap (p, q)"
      using live_okD(2) [OF lv, of p 256] live_okD(2) [OF lv, of q 512] live_ok_disjoint [OF lv, of p 256 q 512] new t1(2) t2(2)
      by (simp add: round_apart_def)
    obtain t3 where "arena_destroy_fn t2 = Some ((), t3)" "page_inv OInv k F (child_state t3) Map.empty"
      by (rule page.arena_destroy_ok [OF J2])
    then show thesis
      using 2(1) t1(1,2) t2 apart
      by (intro done_round) (simp_all add: arena_round_def allo_alloc_def allo_destroy_def arena_allo_def)
  qed
qed

lemma arena_rounds_ok:
  assumes out: "out \<noteq> NULL"
  shows "page_inv OInv k F s Map.empty \<Longrightarrow> i \<le> 1000 \<Longrightarrow>
    \<exists>rounds r. arena_rounds i os out printed s = Some (printed @ round_lines rounds @
        (if r = None then [Failed_arena_allocator] else []), r) \<and>
      (\<forall>pq \<in> set rounds. round_apart (osheap - live F) pq) \<and>
      (case r of None \<Rightarrow> i + length rounds < 1000 | Some s' \<Rightarrow> i + length rounds = 1000 \<and> page_inv OInv k F s' Map.empty)"
proof (induction "1000 - i" arbitrary: i printed s)
  case 0
  then have "arena_rounds i os out printed s = Some (printed, Some s)" by (simp add: arena_rounds.simps)
  with 0 show ?case by (intro exI [of _ "[]"] exI [of _ "Some s"]) simp
next
  case (Suc d)
  have i: "i < 1000" using Suc.hyps(2) by simp
  show ?case
  proof (cases rule: arena_round_ok [OF Suc.prems(1) out])
    case 1
    then show ?thesis
      using i by (intro exI [of _ "[]"] exI [of _ None]) (simp add: arena_rounds.simps [of i])
  next
    case (2 p q s')
    let ?printed = "printed @ [Allocated_256 p, Allocated_512 q]"
    have d: "d = 1000 - (i + 1)" "i + 1 \<le> 1000" using Suc.hyps(2) i by simp_all
    have step: "arena_rounds i os out printed s = arena_rounds (i + 1) os out ?printed s'"
      using i by (simp add: arena_rounds.simps [of i] 2(1))
    from Suc.hyps(1) [OF d(1) 2(3) d(2), of ?printed] obtain rounds r where
      r: "arena_rounds (i + 1) os out ?printed s' = Some (?printed @ round_lines rounds @
          (if r = None then [Failed_arena_allocator] else []), r)"
        "\<forall>pq \<in> set rounds. round_apart (osheap - live F) pq"
        "case r of None \<Rightarrow> i + 1 + length rounds < 1000 | Some s' \<Rightarrow> i + 1 + length rounds = 1000 \<and> page_inv OInv k F s' Map.empty"
      by blast
    show ?thesis
      unfolding step r(1) using 2(2) r(2,3)
      by (intro exI [of _ "(p, q) # rounds"] exI [of _ r]) (auto split: option.splits)
  qed
qed

lemma heap_arena_main_ok:
  assumes I: "OInv s F" and out: "out \<noteq> NULL"
  obtains (no_pages) s' where "heap_arena_main os out s = Some ([Failed_page_allocator], Returned 1, Some s')" "OInv s' F"
    | (no_arena) rounds where "heap_arena_main os out s = Some (round_lines rounds @ [Failed_arena_allocator], Aborted, None)"
      "length rounds < 1000" "\<forall>pq \<in> set rounds. round_apart (osheap - live F) pq"
    | (all_rounds) rounds s' where
      "heap_arena_main os out s = Some (round_lines rounds @ [Destroyed_backing], Returned 0, Some s')"
      "length rounds = 1000" "\<forall>pq \<in> set rounds. round_apart (osheap - live F) pq" "OInv s' F"
proof (cases rule: make_page_ok [OF I out])
  case (1 s')
  then show thesis by (intro no_pages) (simp_all add: heap_arena_main_def)
next
  case (2 t)
  from arena_rounds_ok [OF out 2(2) zero_le, where printed = "[]"] obtain rounds r where
    r: "arena_rounds 0 os out [] t = Some (round_lines rounds @ (if r = None then [Failed_arena_allocator] else []), r)"
      "\<forall>pq \<in> set rounds. round_apart (osheap - live F) pq"
      "case r of None \<Rightarrow> 0 + length rounds < 1000 | Some s' \<Rightarrow> 0 + length rounds = 1000 \<and> page_inv OInv k F s' Map.empty"
    by auto
  show thesis
  proof (cases r)
    case None
    with r 2(1) show thesis by (intro no_arena [of rounds]) (simp_all add: heap_arena_main_def)
  next
    case (Some t')
    with r(3) have J: "page_inv OInv k F t' Map.empty" and len: "length rounds = 1000" by simp_all
    obtain t'' where "allo_destroy (page_allo os) t' = Some ((), t'')" "OInv (child_state t'') F"
      using page_destroy_ok [OF J] by blast
    with Some r len 2(1) show thesis by (intro all_rounds [of rounds]) (simp_all add: heap_arena_main_def)
  qed
qed

end

end
