(* ===== verification/Kernel.thy ===== *)
theory Kernel
  imports Harness HeapArena
begin

text \<open>
  A kernel that keeps the laws of \<open>os_pages\<close>, so that they are seen to be consistent and the page
  allocator can be run: address space is handed out upwards from the first page and never reused,
  and \<open>mremap\<close> always moves. It stands for the operating system in the concrete runs of the
  development; the theorems on the page allocator hold for every \<open>os\<close> that meets the laws.
\<close>

record kernel =
  k_maps :: live_map
  k_next :: ptr

definition kernel_heap :: "ptr set" where
  "kernel_heap = region 4096 (2 ^ 40)"

definition bump_mmap :: "size_t \<Rightarrow> kernel machine \<Rightarrow> ptr \<times> kernel machine" where
  "bump_mmap n s =
     (let e = env s in
      if n = 0 \<or> n > 2 ^ 40 - k_next e then (MAP_FAILED, s)
      else (k_next e, s\<lparr>env := \<lparr>k_maps = (k_maps e)(k_next e \<mapsto> n), k_next = k_next e + n\<rparr>\<rparr>))"

definition bump_munmap :: "ptr \<Rightarrow> size_t \<Rightarrow> kernel machine \<Rightarrow> int \<times> kernel machine" where
  "bump_munmap p n s =
     (if k_maps (env s) p = Some n then (0, s\<lparr>env := (env s)\<lparr>k_maps := (k_maps (env s))(p := None)\<rparr>\<rparr>)
      else (- 1, s))"

definition bump_mremap :: "ptr \<Rightarrow> size_t \<Rightarrow> size_t \<Rightarrow> kernel machine \<Rightarrow> ptr \<times> kernel machine" where
  "bump_mremap p old_len new_len s =
     (let e = env s; q = k_next e in
      if new_len = 0 \<or> new_len > 2 ^ 40 - q then (MAP_FAILED, s)
      else (q, s\<lparr>env := \<lparr>k_maps = (k_maps e)(p := None, q \<mapsto> new_len), k_next = q + new_len\<rparr>,
                 mem := copy_bytes q p (min old_len new_len) (mem s)\<rparr>))"

definition bump_os :: "kernel os" where
  "bump_os = \<lparr>sys_mmap = bump_mmap, sys_munmap = bump_munmap, sys_mremap = bump_mremap, sys_pagesize = 4096\<rparr>"

definition kernel_inv :: "kernel machine \<Rightarrow> live_map \<Rightarrow> bool" where
  "kernel_inv s M \<longleftrightarrow> k_maps (env s) = M \<and> live_ok kernel_heap M \<and>
     4096 dvd unat (k_next (env s)) \<and> 4096 \<le> unat (k_next (env s)) \<and> unat (k_next (env s)) \<le> 2 ^ 40 \<and>
     (\<forall>p n. M p = Some n \<longrightarrow> 4096 dvd unat p \<and> unat p + unat n \<le> unat (k_next (env s)))"

text \<open>A new mapping at the end of the used address space.\<close>

lemma bump_fresh:
  assumes I: "kernel_inv s M" and n: "n \<noteq> 0" "\<not> n > 2 ^ 40 - k_next (env s)" "4096 dvd unat n"
  defines "q \<equiv> k_next (env s)"
  shows "q \<noteq> 0" "q \<noteq> MAP_FAILED" "q \<notin> dom M" "region q n \<inter> live M = {}" "block_ok q n" "region q n \<subseteq> kernel_heap"
    "unat (q + n) = unat q + unat n" "unat q + unat n \<le> 2 ^ 40"
    "M' \<subseteq>\<^sub>m M \<Longrightarrow> live_ok kernel_heap M' \<Longrightarrow> kernel_inv (s\<lparr>env := \<lparr>k_maps = M'(q \<mapsto> n), k_next = q + n\<rparr>, mem := m\<rparr>) (M'(q \<mapsto> n))"
proof -
  have q: "4096 dvd unat q" "4096 \<le> unat q" "unat q \<le> 2 ^ 40"
    and M: "\<And>p n. M p = Some n \<Longrightarrow> 4096 dvd unat p \<and> unat p + unat n \<le> unat q"
    using I by (auto simp: kernel_inv_def q_def)
  have "unat (2 ^ 40 :: size_t) = 2 ^ 40" by simp
  then have "unat (2 ^ 40 - q) = 2 ^ 40 - unat q" using q(3) by (subst unat_diff64) simp_all
  then show le: "unat q + unat n \<le> 2 ^ 40"
    using n(2) q(3) by (simp add: word_less_nat_alt q_def)
  then show add: "unat (q + n) = unat q + unat n" by (intro unat_add64) simp
  show "q \<noteq> 0" using q(2) by auto
  show "q \<noteq> MAP_FAILED" using q(3) by (auto simp: MAP_FAILED_def)
  have "8 dvd unat q" using q(1) by (rule dvd_trans [rotated]) simp
  with le n(1) q(2) show b: "block_ok q n" by (auto simp: block_ok_def size_ok_def)
  show h: "region q n \<subseteq> kernel_heap" using le q(2) by (auto simp: kernel_heap_def mem_region)
  show sep: "region q n \<inter> live M = {}"
    using M by (force simp: live_def mem_region)
  show dom: "q \<notin> dom M"
  proof
    assume "q \<in> dom M"
    then obtain m where m: "M q = Some m" by blast
    have "live_ok kernel_heap M" using I by (simp add: kernel_inv_def)
    then have "m \<noteq> 0" using live_okD(1) [of kernel_heap M, OF _ m] by (simp add: block_ok_def)
    then show False using M [OF m] unat_pos64 [of m] by simp
  qed
  show "kernel_inv (s\<lparr>env := \<lparr>k_maps = M'(q \<mapsto> n), k_next = q + n\<rparr>, mem := m\<rparr>) (M'(q \<mapsto> n))"
    if sub: "M' \<subseteq>\<^sub>m M" and l: "live_ok kernel_heap M'"
  proof -
    have M': "M' p = Some x \<Longrightarrow> M p = Some x" for p x using sub by (metis domI map_le_def)
    have "region q n \<inter> live M' = {}" using sep live_mono [OF sub] by blast
    then have "live_ok kernel_heap (M'(q \<mapsto> n))" using l b h by (intro live_ok_upd)
    moreover have "4096 dvd unat (q + n)" using q(1) n(3) by (simp add: add)
    moreover have "4096 dvd unat p \<and> unat p + unat x \<le> unat (q + n)" if "(M'(q \<mapsto> n)) p = Some x" for p x
      using that q(1) M [OF M', of p x] by (auto simp: add split: if_splits)
    ultimately show ?thesis using le q(2) by (simp add: kernel_inv_def add)
  qed
qed

interpretation bump: os_pages bump_os kernel_inv kernel_heap 12
proof unfold_locales
  show "(4 :: nat) \<le> 12" "(12 :: nat) \<le> 32" "sys_pagesize bump_os = 2 ^ 12"
    by (simp_all add: bump_os_def)
next
  fix s :: "kernel machine" and M :: live_map and p :: ptr and n :: size_t
  assume I: "kernel_inv s M"
  then show ok: "live_ok kernel_heap M" by (simp add: kernel_inv_def)
  show "2 ^ 12 dvd unat p" if "M p = Some n" using I that by (simp add: kernel_inv_def)
  show "kernel_inv s' M" if "env s' = env s" for s' using I that by (simp add: kernel_inv_def)
  show "p \<noteq> NULL \<and> alloc_post kernel_inv kernel_heap M n s (if p = MAP_FAILED then NULL else p) s'"
    if n: "2 ^ 12 dvd unat n" and r: "sys_mmap bump_os n s = (p, s')" for s'
  proof (cases "n = 0 \<or> n > 2 ^ 40 - k_next (env s)")
    case True
    with r I show ?thesis
      by (auto simp: bump_os_def bump_mmap_def Let_def MAP_FAILED_def alloc_post_def split: if_splits)
  next
    case False
    note f = bump_fresh [OF I, of n]
    have "s' = s\<lparr>env := \<lparr>k_maps = M(k_next (env s) \<mapsto> n), k_next = k_next (env s) + n\<rparr>\<rparr>" "p = k_next (env s)"
      using r False I by (auto simp: bump_os_def bump_mmap_def Let_def kernel_inv_def split: if_splits)
    then show ?thesis using f(1-3) f(9) [of M "mem s"] False n ok by (simp add: alloc_post_def)
  qed
  show "free_post kernel_inv kernel_heap M p s (snd (sys_munmap bump_os p n s))" if "M p = Some n"
    using I that live_ok_del [OF ok, of p]
    by (simp add: bump_os_def bump_munmap_def kernel_inv_def free_post_def)
  show "q \<noteq> NULL \<and> realloc_post kernel_inv kernel_heap M p n m s (if q = MAP_FAILED then NULL else q) s'"
    if p: "M p = Some n" and m: "2 ^ 12 dvd unat m" and r: "sys_mremap bump_os p n m s = (q, s')" for m q s'
  proof (cases "m = 0 \<or> m > 2 ^ 40 - k_next (env s)")
    case True
    with r I show ?thesis
      by (auto simp: bump_os_def bump_mremap_def Let_def MAP_FAILED_def realloc_post_def split: if_splits)
  next
    case False
    note f = bump_fresh [OF I, of m]
    let ?q = "k_next (env s)"
    have s': "s' = s\<lparr>env := \<lparr>k_maps = M(p := None, ?q \<mapsto> m), k_next = ?q + m\<rparr>,
        mem := copy_bytes ?q p (min n m) (mem s)\<rparr>" and q: "q = ?q"
      using r False I by (auto simp: bump_os_def bump_mremap_def Let_def kernel_inv_def split: if_splits)
    have "M(p := None) \<subseteq>\<^sub>m M" by (auto simp: map_le_def)
    then have inv: "kernel_inv s' (M(p := None, ?q \<mapsto> m))"
      unfolding s' using False m live_ok_del [OF ok, of p] by (intro f(9)) auto
    have "kept kernel_heap (M(p := None)) (mem s) (mem s')"
    proof (rule kept_write)
      show "mem s' x = mem s x" if "x \<notin> region ?q m" for x
      proof -
        have "unat (min n m) \<le> unat m" by (auto simp: min_def word_le_nat_alt)
        then have "x \<notin> region ?q (min n m)" using region_mono [of "min n m" m ?q] that by blast
        moreover have "unat ?q + unat (min n m) \<le> 2 ^ 64"
          using f(8) False m \<open>unat (min n m) \<le> unat m\<close> by simp
        ultimately show ?thesis by (simp add: s' copy_bytes_other)
      qed
      show "region ?q m \<subseteq> kernel_heap" using f(6) False m by simp
      show "region ?q m \<inter> live (M(p := None)) = {}" using f(4) False m live_del by auto
    qed
    moreover have "same_bytes (mem s) p (mem s') ?q (min n m)" by (simp add: same_bytes_def s' copy_bytes_at)
    ultimately show ?thesis using f(1-3) False m inv by (simp add: realloc_post_def q)
  qed
qed

text \<open>The page allocator on this kernel, freshly made.\<close>

definition boot :: "kernel machine" where
  "boot = \<lparr>mem = (\<lambda>_. 0), asan = [], env = \<lparr>k_maps = Map.empty, k_next = 4096\<rparr>\<rparr>"

lemma boot_inv: "kernel_inv boot Map.empty"
  by (simp add: kernel_inv_def boot_def)

lemma demo_page:
  obtains s where "make_page_allocator bump_os 8 boot = Inr s" "page_inv kernel_inv 12 Map.empty s Map.empty"
proof -
  have "\<exists>s. make_page_allocator bump_os 8 boot = Inr s"
    by (simp add: make_page_allocator_def allo_os_mmap_def allo_os_get_page_size_def bump_os_def bump_mmap_def
        boot_def MAP_FAILED_def)
  then show thesis using that by (cases rule: bump.make_page_ok [OF boot_inv, of 8]) auto
qed

text \<open>One allocation with room in the registry and in the address space.\<close>

lemma bump_alloc:
  assumes "n \<noteq> 0" "pg_count (self_ctx s) \<noteq> pg_capacity (self_ctx s)"
    "page_round (pg_page_size (self_ctx s)) n = r" "r \<noteq> 0" "\<not> r > 2 ^ 40 - k_next (snd (env s))"
    "k_next (snd (env s)) \<noteq> 0" "k_next (snd (env s)) \<noteq> MAP_FAILED"
  shows "\<exists>s'. page_alloc_fn bump_os n s = Some (k_next (snd (env s)), s') \<and>
    self_ctx s' = (self_ctx s)\<lparr>pg_count := pg_count (self_ctx s) + 1\<rparr> \<and>
    k_next (snd (env s')) = k_next (snd (env s)) + r"
  using assms
  by (simp add: page_alloc_fn_def registry_ensure_capacity_def allo_os_mmap_def bump_os_def bump_mmap_def
      os_call_def Let_def registry_add_def)

lemma demo_page_allocs:
  assumes mk: "make_page_allocator bump_os 8 boot = Inr s"
  shows "\<exists>p s' q s''. page_alloc_fn bump_os 100 s = Some (p, s') \<and> p \<noteq> NULL \<and>
    page_alloc_fn bump_os 5000 s' = Some (q, s'') \<and> q \<noteq> NULL"
proof -
  have s: "self_ctx s = \<lparr>pg_page_size = 4096, pg_registry = 4096, pg_count = 0, pg_capacity = 256\<rparr>"
    "k_next (snd (env s)) = 8192"
    using mk by (auto simp: make_page_allocator_def allo_os_mmap_def allo_os_get_page_size_def bump_os_def
        bump_mmap_def boot_def MAP_FAILED_def)
  obtain s' where s': "page_alloc_fn bump_os 100 s = Some (8192, s')"
    "self_ctx s' = (self_ctx s)\<lparr>pg_count := 1\<rparr>" "k_next (snd (env s')) = 12288"
    using bump_alloc [of 100 s 4096] s by (auto simp: page_round_def MAP_FAILED_def)
  obtain s'' where "page_alloc_fn bump_os 5000 s' = Some (12288, s'')"
    using bump_alloc [of 5000 s' 8192] s s' by (auto simp: page_round_def MAP_FAILED_def)
  with s'(1) show ?thesis by auto
qed

lemma demo_page_two:
  obtains s p q where "page_inv kernel_inv 12 Map.empty s [p \<mapsto> 100, q \<mapsto> 5000]" "p \<noteq> q"
proof -
  obtain s where mk: "make_page_allocator bump_os 8 boot = Inr s" and J: "page_inv kernel_inv 12 Map.empty s Map.empty"
    by (rule demo_page)
  obtain p s' q s'' where r: "page_alloc_fn bump_os 100 s = Some (p, s')" "p \<noteq> NULL"
    "page_alloc_fn bump_os 5000 s' = Some (q, s'')" "q \<noteq> NULL" using demo_page_allocs [OF mk] by blast
  have J1: "page_inv kernel_inv 12 Map.empty s' [p \<mapsto> 100]"
    using bump.page_alloc_law [OF J, of 100] r by (auto simp: alloc_post_def)
  then have "q \<notin> dom [p \<mapsto> 100]" "page_inv kernel_inv 12 Map.empty s'' [p \<mapsto> 100, q \<mapsto> 5000]"
    using bump.page_alloc_law [OF J1, of 5000] r by (auto simp: alloc_post_def)
  then show thesis by (intro that [of s'' p q]) auto
qed

lemma demo_page_block:
  obtains s p where "page_inv kernel_inv 12 Map.empty s [p \<mapsto> 100]" "p \<noteq> NULL"
proof -
  obtain s where mk: "make_page_allocator bump_os 8 boot = Inr s" and J: "page_inv kernel_inv 12 Map.empty s Map.empty"
    by (rule demo_page)
  obtain p s' where r: "page_alloc_fn bump_os 100 s = Some (p, s')" "p \<noteq> NULL"
    using demo_page_allocs [OF mk] by blast
  then have "page_inv kernel_inv 12 Map.empty s' [p \<mapsto> 100]"
    using bump.page_alloc_law [OF J, of 100] by (auto simp: alloc_post_def)
  then show thesis using r by (intro that)
qed

end
