(* ===== verification/DemoGen.thy ===== *)
theory DemoGen
  imports Kernel
begin

text \<open>
  The general purpose allocator on the kernel of \<open>Kernel\<close>: making it succeeds, so that the invariant
  of the layers is inhabited. Only the counters of the kernel and of the registry matter here.
\<close>

text \<open>The page allocator with \<open>c\<close> entries in its first registry, and the kernel at address \<open>x\<close>.\<close>

definition booted :: "kernel page_machine \<Rightarrow> nat \<Rightarrow> ptr \<Rightarrow> bool" where
  "booted s c x \<longleftrightarrow> pg_page_size (self_ctx s) = 4096 \<and> pg_capacity (self_ctx s) = 256 \<and>
     unat (pg_count (self_ctx s)) = c \<and> k_next (snd (env s)) = x"

lemma booted_alloc:
  assumes b: "booted s c x" and c: "c < 256" and n: "n \<noteq> 0" "page_round 4096 n = r" "r \<noteq> 0"
    and x: "\<not> r > 2 ^ 40 - x" "x \<noteq> 0" "x \<noteq> MAP_FAILED"
  obtains s' where "allo_alloc (page_allo bump_os) n s = Some (x, s')" "booted s' (Suc c) (x + r)"
proof -
  have "unat (pg_count (self_ctx s)) < 256" using b c by (simp add: booted_def)
  then have lt: "pg_count (self_ctx s) < 256" by (simp add: word_less_nat_alt)
  then have ne: "pg_count (self_ctx s) \<noteq> pg_capacity (self_ctx s)" using b by (auto simp: booted_def)
  have kn: "k_next (snd (env s)) = x" "pg_page_size (self_ctx s) = 4096" using b by (simp_all add: booted_def)
  obtain s' where s': "page_alloc_fn bump_os n s = Some (x, s')"
    "self_ctx s' = (self_ctx s)\<lparr>pg_count := pg_count (self_ctx s) + 1\<rparr>" "k_next (snd (env s')) = x + r"
    using bump_alloc [OF n(1) ne, of r] n x kn by auto
  have "booted s' (Suc c) (x + r)"
    using s'(2,3) b unat_Suc64 [OF lt] by (simp add: booted_def)
  then show thesis using s'(1) by (intro that) (simp_all add: allo_alloc_def page_allo_def)
qed

lemma booted_calloc:
  assumes b: "booted s c x" and c: "c < 256" and n: "\<not> (m > 0 \<and> k > (- 1) div m)" "k * m = n"
    "n \<noteq> 0" "page_round 4096 n = r" "r \<noteq> 0"
    and x: "\<not> r > 2 ^ 40 - x" "x \<noteq> 0" "x \<noteq> MAP_FAILED"
  obtains s' where "allo_calloc (page_allo bump_os) k m s = Some (x, s')" "booted s' (Suc c) (x + r)"
proof -
  obtain s' where s': "allo_alloc (page_allo bump_os) n s = Some (x, s')" "booted s' (Suc c) (x + r)"
    by (rule booted_alloc [OF b c n(3-5) x])
  define t where "t = s'\<lparr>mem := set_bytes x 0 n (mem s')\<rparr>"
  have "booted t (Suc c) (x + r)" using s'(2) by (simp add: booted_def t_def)
  moreover have "allo_calloc (page_allo bump_os) k m s = Some (x, t)"
    using s'(1) n(2) x(2) by (simp add: allo_calloc_def if_not_P [OF n(1)] allo_memset_ok t_def)
  ultimately show thesis by (intro that)
qed

lemma booted_buddy:
  assumes b: "booted s 1 12288"
  shows "\<exists>t. make_buddy_allocator 8360 (Some (page_allo bump_os)) NULL BUDDY_TOTAL_SIZE s = Some (Inr t)"
proof -
  have up: "round_up_loop 1 BUDDY_TOTAL_SIZE = Some BUDDY_TOTAL_SIZE"
    using round_up_ok [of BUDDY_TOTAL_SIZE] get_order_pow [of 24] by (simp add: BUDDY_TOTAL_SIZE_def)
  obtain s1 where s1: "allo_alloc (page_allo bump_os) 16777216 s = Some (12288, s1)" "booted s1 (Suc 1) 16789504"
    using booted_alloc [OF b, of 16777216 16777216] by (auto simp: page_round_def MAP_FAILED_def)
  obtain s2 where s2: "allo_calloc (page_allo bump_os) 21 8 s1 = Some (16789504, s2)"
    "booted s2 (Suc (Suc 1)) 16793600"
    using booted_calloc [OF s1(2), of 8 21 168 4096] by (auto simp: page_round_def MAP_FAILED_def)
  obtain s3 where s3: "allo_calloc (page_allo bump_os) 131072 1 s2 = Some (16793600, s3)"
    "booted s3 (Suc (Suc (Suc 1))) 16924672"
    using booted_calloc [OF s2(2), of 1 131072 131072 131072] by (auto simp: page_round_def MAP_FAILED_def)
  obtain s4 where s4: "allo_calloc (page_allo bump_os) 524288 1 s3 = Some (16924672, s4)"
    using booted_calloc [OF s3(2), of 1 524288 524288 524288] by (auto simp: page_round_def MAP_FAILED_def)
  have ord: "get_order 16777216 = 24" "get_order 32 = 5" using get_order_pow [of 24] get_order_pow [of 5] by simp_all
  have bb: "bitset_bytes 16777216 32 = 131072" by (simp add: bitset_bytes_def)
  have "\<exists>t. buddy_metadata (page_allo bump_os) True 12288 16777216 s1 = Some (Inr t)"
    by (simp add: buddy_metadata_def ord bb s2(1) s3(1) s4)
  then show ?thesis
    using up s1(1) by (simp add: make_buddy_allocator_def BUDDY_TOTAL_SIZE_def)
qed

lemma demo_gen_made: "\<exists>s. make_gen_allocator bump_os 8 boot = Some (Inr s)"
proof -
  obtain m where mk: "make_page_allocator bump_os 8 boot = Inr m" and J: "page_inv kernel_inv 12 Map.empty m Map.empty"
    by (rule demo_page)
  have b0: "booted m 0 8192"
    using mk by (auto simp: booted_def make_page_allocator_def allo_os_mmap_def allo_os_get_page_size_def bump_os_def
        bump_mmap_def boot_def MAP_FAILED_def)
  obtain m1 where m1: "allo_alloc (page_allo bump_os) sizeof_gen_state m = Some (8192, m1)" "booted m1 1 12288"
    using booted_alloc [OF b0, of sizeof_gen_state 4096] by (auto simp: sizeof_gen_state_def page_round_def MAP_FAILED_def)
  obtain t where t: "make_buddy_allocator 8360 (Some (page_allo bump_os)) NULL BUDDY_TOTAL_SIZE m1 = Some (Inr t)"
    using booted_buddy [OF m1(2)] by blast
  have J1: "page_inv kernel_inv 12 Map.empty m1 [8192 \<mapsto> sizeof_gen_state]"
    using bump.page.alloc_law [OF J, of sizeof_gen_state] m1(1)
    by (auto simp: alloc_post_def allo_alloc_def sizeof_gen_state_def)
  have "(8192 :: ptr) + 168 \<noteq> NULL" by simp
  then obtain l where l: "l_state l = 8192"
    "gen_buddy bump_os kernel_inv 12 Map.empty l [8192 \<mapsto> sizeof_gen_state] t (bufs [])"
    by (cases rule: bump.make_gen_buddy [OF J1]) (use t in auto)
  have "pools_made [] [] t" by (simp add: pools_made_def)
  with bump.make_gen_pools_ok [OF _ l(2), of 8192 "[]"] obtain cs u where "make_gen_pools 0 8192 [] t = Some (Inr (cs, u))"
    by auto
  then show ?thesis using mk m1(1) t by (simp add: make_gen_allocator_def)
qed

lemma demo_gen:
  obtains s l where "make_gen_allocator bump_os 8 boot = Some (Inr s)"
    "gen_rep bump_os kernel_inv 12 Map.empty l s Map.empty"
  by (cases rule: bump.make_gen_ok [OF boot_inv, of 8]) (use demo_gen_made in auto)

text \<open>
  A kernel with two pages left: the registry and the state block can be had, the buddy allocator
  cannot, and the factory does not come back.
\<close>

definition boot_low :: "kernel machine" where
  "boot_low = \<lparr>mem = (\<lambda>_. 0), asan = [], env = \<lparr>k_maps = Map.empty, k_next = 2 ^ 40 - 8192\<rparr>\<rparr>"

lemma boot_low_inv: "kernel_inv boot_low Map.empty"
  by (simp add: kernel_inv_def boot_low_def)

lemma demo_gen_low: "gen_stages bump_os 8 boot_low = (True, False)"
proof -
  obtain m where mk: "make_page_allocator bump_os 8 boot_low = Inr m" and b0: "booted m 0 (2 ^ 40 - 4096)"
    by (simp add: booted_def make_page_allocator_def allo_os_mmap_def allo_os_get_page_size_def bump_os_def
        bump_mmap_def boot_low_def MAP_FAILED_def)
  obtain m1 where m1: "allo_alloc (page_allo bump_os) sizeof_gen_state m = Some (2 ^ 40 - 4096, m1)"
    "booted m1 1 (2 ^ 40)"
    using booted_alloc [OF b0, of sizeof_gen_state 4096] by (auto simp: sizeof_gen_state_def page_round_def MAP_FAILED_def)
  have up: "round_up_loop 1 BUDDY_TOTAL_SIZE = Some BUDDY_TOTAL_SIZE"
    using round_up_ok [of BUDDY_TOTAL_SIZE] get_order_pow [of 24] by (simp add: BUDDY_TOTAL_SIZE_def)
  have ne: "pg_count (self_ctx m1) \<noteq> pg_capacity (self_ctx m1)" using m1(2) by (auto simp: booted_def)
  have "k_next (snd (env m1)) = 2 ^ 40" "pg_page_size (self_ctx m1) = 4096" using m1(2) by (simp_all add: booted_def)
  then have "allo_alloc (page_allo bump_os) 16777216 m1 = Some (NULL, m1)"
    using ne by (simp add: allo_alloc_def page_allo_def page_alloc_fn_def registry_ensure_capacity_def
        page_round_def allo_os_mmap_def bump_os_def bump_mmap_def os_call_def Let_def)
  then have "make_buddy_allocator (2 ^ 40 - 3928) (Some (page_allo bump_os)) NULL BUDDY_TOTAL_SIZE m1 =
      Some (Inl (ALLO_ERR_NOMEM, m1))"
    using up by (simp add: make_buddy_allocator_def BUDDY_TOTAL_SIZE_def)
  with mk m1(1) show ?thesis by (simp add: gen_stages_def)
qed

lemma demo_gen_block:
  obtains s l p where "gen_rep bump_os kernel_inv 12 Map.empty l s [p \<mapsto> 100]"
proof -
  obtain s l where R: "gen_rep bump_os kernel_inv 12 Map.empty l s Map.empty" by (rule demo_gen)
  have i: "get_pool_index 100 = 3" "unat (pool_blocks ! 3) = 512"
    by (code_simp, code_simp)
  obtain p s' where "gen_alloc_fn bump_os 100 s = Some (p, s')" "p \<noteq> NULL"
    using bump.gen_small_alloc [OF R, of 100] i by (auto simp: SMALL_OBJ_LIMIT_def)
  then have "gen_rep bump_os kernel_inv 12 Map.empty l s' [p \<mapsto> 100]"
    using bump.gen_alloc_ok [OF R, of 100] by auto
  then show thesis by (rule that)
qed

end
