(* ===== verification/Spec2Isabelle.thy ===== *)
theory Spec2Isabelle
  imports Demo DemoGen
begin

text \<open>
  Verification library for liballo, a C library of composable memory allocators.

  \<^bold>\<open>The program.\<close> An allocator is an \<open>allo_t\<close>, a table of five function pointers with 128 bytes of
  private state (\<open>include/allo.h\<close>). The allocators that hand out memory are a bump allocator over a
  caller's buffer, a pool of equal blocks, an arena of chained blocks, a buddy allocator, whole pages of
  the operating system, and the C library's \<open>malloc\<close>; a fallback pair and a mutex wrap others; the
  general purpose allocator stacks eight pools on a buddy allocator on pages. An allocator gets its
  memory from a child, through the child's table only.

  \<^bold>\<open>The machine\<close> (\<open>Prelude\<close>, \<open>Machine\<close>). Pointers and \<open>size_t\<close> are 64-bit words and wrap as on an LP64
  target. Memory is a function from addresses to bytes, and everything the code keeps in memory is
  there: free lists and their links, headers, bit sets, the registry of pages, little-endian words.
  An operation is a function on the record \<open>machine\<close>: memory, the trace of sanitizer calls, which
  nothing reads, and \<open>env\<close>. An allocator's private state is a record, the first component of \<open>env\<close>;
  what its child works on is the rest, down to the operating system's or the C library's state. \<open>None\<close>
  is a call that does not come back: a failed \<open>assert\<close>, a loop that never ends, a call through a
  null pointer, a shift by a count that C leaves undefined, a read of a block just unmapped. So a statement \<open>f s = Some r\<close> says that the code returns and no
  assertion fails. Loops without a bound on their length are \<open>partial_function\<close>s; there is no fuel.

  \<^bold>\<open>The contract\<close> (\<open>Allo\<close>). The locale \<open>allocator\<close> is the abstract specification of an \<open>allo_t\<close>: a map \<open>L\<close>
  of live blocks with the sizes asked for, an invariant \<open>Inv s L\<close>, and laws for each operation. A
  request gives null or a fresh aligned block in the heap apart from all others, a free removes
  exactly that block, a reallocation keeps the first min(old, new) bytes, all other live bytes and
  all memory outside the heap are kept, and the client may write its blocks as it likes.
  \<open>exact_allocator\<close> adds that the containment query is never \<open>UNKNOWN\<close>. The client's lemmas (calloc,
  realloc, the frame rule of \<open>Owned\<close>, the harness of \<open>Fuzz\<close>, the threads of \<open>MtxClients\<close>) are proved
  once from the laws. Requests are below a bound of at most 2^63: above it the code's sums can wrap,
  which \<open>buf_realloc_wraps\<close> shows for one of them.

  \<^bold>\<open>Components\<close>, each with its code first and then its invariant and lemmas:
  \<open>Buffer\<close> (\<open>src/allo_buffer.c\<close>): the bump allocator meets the contract for every aligned buffer.
  \<open>HeapLists\<close>: singly and doubly linked lists in memory.
  \<open>Pool\<close> (\<open>src/allo_pool.c\<close>): free list and live blocks split the slots exactly; no slot is ever lost.
  \<open>Arena\<close> (\<open>src/allo_arena.c\<close>): over any child; the chain owns its blocks, destroying returns them all.
  \<open>Order\<close>, \<open>BuddyTree\<close>, \<open>Buddy\<close>, \<open>BuddyRep\<close>, \<open>BuddyProof\<close>, \<open>BuddyContract\<close>, \<open>BuddyFactory\<close>
  (\<open>src/allo_buddy.c\<close>): \<open>Order\<close> has both versions of the logarithm; \<open>BuddyTree\<close> the abstract state, a
  tiling of the buffer by free and used nodes of a binary tree; \<open>Buddy\<close> the code; \<open>BuddyRep\<close> the
  representation of the tiling by lists, bit set and order bytes in memory;
  \<open>BuddyProof\<close> the refinement of each operation, \<open>BuddyContract\<close> the contract and
  completeness (a request fails only if no free node is large enough), \<open>BuddyFactory\<close> the factory with
  every error path, and destruction.
  \<open>Page\<close>, \<open>PageRegistry\<close>, \<open>PageContract\<close>, \<open>PageProof\<close> (\<open>src/allo_page.c\<close>, \<open>src/allo_page_posix.h\<close>): the
  registry of mappings lies in a mapping itself and moves when it grows. The system calls are the
  parameter \<open>os\<close>, with the promises of mmap, munmap and mremap as the locale \<open>os_pages\<close>.
  \<open>Fallback\<close> (\<open>src/allo_fallback.c\<close>): two independent allocators as one on the union of the heaps.
  \<open>Libc\<close> (\<open>src/allo_libc.c\<close>): malloc, realloc and free are the parameter \<open>lc\<close>, their promises the
  locale \<open>c_library\<close>; a library made of an allocator and a table of sizes shows they can be met.
  \<open>Mtx\<close>, \<open>MtxClients\<close> (\<open>src/allo_mtx.c\<close>): the locked functions are lists of statements
  (lock, call of the target, unlock). One thread runs a list to its end (\<open>mtx_exec\<close>, the functions of the
  table); any number of threads run theirs a statement at a time, in any interleaving (\<open>mtx_step\<close>), and
  two threads about to run the target at once are a data race, after which the machine may be anything.
  Shown: no race and exclusion, linearization, and separation of blocks and progress for threads that use
  only blocks of their own.
  \<open>BuddyOver\<close>, \<open>Owned\<close>: an allocator together with the child that backs it, as one allocator.
  \<open>Gen\<close>, \<open>GenRep\<close>, \<open>GenProof\<close>, \<open>GenOps\<close>, \<open>GenFactory\<close> (\<open>src/allo_gen.c\<close>): the live blocks are split into
  ten tiers by size; each tier owns a zone of memory, and the zones are disjoint although the layers
  are nested; every operation is shown to touch one tier, moves between tiers two. The factory's error
  branch for a buddy allocator that cannot be had reads the block it has just unmapped and does not
  come back (\<open>make_gen_correct\<close>); a kernel with two pages left runs into it.
  \<open>Fuzz\<close>, \<open>Harness\<close> (\<open>tests/fuzz_allocator.c\<close>): the fuzzing harness as a client of the contract, and its
  entry point over all seven allocators: for no input does it detect a corruption, and it returns for
  every input unless the general factory crashes as above.
  \<open>HeapArena\<close> (\<open>examples/heap-arena/main.c\<close>): the example program over pages and arenas, line by line.
  \<open>Demo\<close>, \<open>Kernel\<close>, \<open>DemoGen\<close>: concrete states, and a small operating system that keeps the laws of
  \<open>os_pages\<close>; the theorems named \<open>_witness\<close> below apply the properties to them.

  \<^bold>\<open>What is shown\<close> of each allocator: it meets the contract (the refinement of the abstract map of
  blocks), its factory yields a valid empty state or reports an error with nothing kept (but for the general
  purpose factory's crash above), and destroying gives back exactly what was taken from the child. Beyond the contract: when requests
  succeed (buddy, pool, general purpose), coalescing, termination of the size loop, the orders, the
  byte loops of the freestanding build, and the defects the model brought to light.

  \<^bold>\<open>Not modelled.\<close> The 128-byte limit of \<open>_state\<close> (the contexts are records) and the copying of \<open>allo_t\<close>
  values; the shadow memory of the sanitizer, whose calls are recorded; the mutex of \<open>threads.h\<close>
  beyond a flag with the usual lock and unlock (who holds it is not recorded); the branch of \<open>get_order\<close> for targets whose
  \<open>unsigned long\<close> has 32 bits, dead on LP64; unit tests, benchmarks, the file reading of the harness's
  \<open>main\<close>, and the build. They have no logic of the library.
\<close>

section \<open>Properties\<close>

text \<open>
  C1. An allocation from a buddy allocator always returns. It keeps every byte in use and
  everything outside the allocator's four areas; on failure the live blocks are the same; on
  success the block is new, 8-aligned, inside the buffer, apart from every block in use, and the
  invariant holds with the block added.
\<close>

theorem buddy_alloc_correct:
  assumes J: "buddy_inv B D fl bs bo s L"
  shows "\<exists>p s'. buddy_alloc_fn n s = Some (p, s') \<and>
    kept (buddy_heap B D fl bs bo) L (mem s) (mem s') \<and>
    (if p = NULL then buddy_inv B D fl bs bo s' L
     else p \<notin> dom L \<and> n \<noteq> 0 \<and> 8 dvd unat p \<and> p \<in> region B (buf_bytes D) \<and>
       region p n \<inter> live L = {} \<and> buddy_inv B D fl bs bo s' (L(p \<mapsto> n)))"
proof -
  obtain p s' where r: "buddy_alloc_fn n s = Some (p, s')"
    and post: "alloc_post (buddy_inv B D fl bs bo) (buddy_heap B D fl bs bo) L n s p s'"
    using buddy_mem.buddy_alloc_law [OF buddy_geometry [OF J] J, of n] by blast
  show ?thesis
  proof (cases "p = NULL")
    case True
    with r post show ?thesis by (auto simp: alloc_post_def)
  next
    case False
    with post have p: "p \<notin> dom L" and I: "buddy_inv B D fl bs bo s' (L(p \<mapsto> n))"
      by (simp_all add: alloc_post_def)
    have "block_ok p n" using live_okD(1) [OF buddy.live_inv [OF I], of p n] by simp
    moreover have "region p n \<inter> live L = {}" by (rule live_ok_fresh [OF buddy.live_inv [OF I] p])
    moreover have "p \<in> region B (buf_bytes D)"
      using buddy_mem.buddy_live_in(1) [OF buddy_geometry [OF I] I, of p] by simp
    ultimately show ?thesis using r post False by (auto simp: alloc_post_def block_ok_def)
  qed
qed

theorem buddy_alloc_correct_witness:
  "\<exists>s B D fl bs bo p s'. make_buddy_allocator 8 (Some buf_allo) NULL 1000 demo_heap = Some (Inr s) \<and>
     buddy_alloc_fn 100 s = Some (p, s') \<and> (p \<noteq> NULL \<longrightarrow> buddy_inv B D fl bs bo s' [p \<mapsto> 100])"
proof -
  obtain s B D fl bs bo where "make_buddy_allocator 8 (Some buf_allo) NULL 1000 demo_heap = Some (Inr s)"
    and J: "buddy_inv B D fl bs bo s Map.empty" by (rule demo_buddy)
  then show ?thesis using buddy_alloc_correct [OF J, of 100] by (metis (full_types))
qed

text \<open>
  C2. The general purpose allocator, with its eight pools inside a buddy allocator inside pages,
  implements one abstract map of live blocks over any operating system that keeps its promises:
  every request returns null or a fresh block apart from the blocks of all tiers, every free goes
  to the tier the block came from, reallocation within a tier, between pools and across tiers
  keeps the first min(old, new) bytes, and every live block is recognised as the allocator's own.
\<close>

theorem gen_contract:
  assumes os: "os_pages os OInv osheap k" and R: "gen_rep os OInv k F l s L"
  shows "(\<forall>n. unat n < 2 ^ 63 \<longrightarrow> (\<exists>p s'. gen_alloc_fn os n s = Some (p, s') \<and>
      alloc_post (gen_rep os OInv k F l) (osheap - live F) L n s p s')) \<and>
    (\<forall>p n. L p = Some n \<longrightarrow> (\<exists>s'. gen_free_fn os p n s = Some ((), s') \<and>
      free_post (gen_rep os OInv k F l) (osheap - live F) L p s s')) \<and>
    (\<forall>p n m. L p = Some n \<longrightarrow> m \<noteq> 0 \<longrightarrow> unat m < 2 ^ 63 \<longrightarrow>
      (\<exists>q s'. gen_realloc_fn os p n m s = Some (q, s') \<and>
        realloc_post (gen_rep os OInv k F l) (osheap - live F) L p n m s q s')) \<and>
    (\<forall>p \<in> dom L. gen_contains_fn os p s = Some (ALLO_CONTAINS_YES, s))"
proof (intro conjI allI impI ballI)
  show "\<exists>p s'. gen_alloc_fn os n s = Some (p, s') \<and>
      alloc_post (gen_rep os OInv k F l) (osheap - live F) L n s p s'" if "unat n < 2 ^ 63" for n
    using os_pages.gen_alloc_ok [OF os R that] by (simp add: alloc_post_def)
  show "\<exists>s'. gen_free_fn os p n s = Some ((), s') \<and>
      free_post (gen_rep os OInv k F l) (osheap - live F) L p s s'" if "L p = Some n" for p n
    using os_pages.gen_free_ok [OF os R that] by (auto simp: free_post_def)
  show "\<exists>q s'. gen_realloc_fn os p n m s = Some (q, s') \<and>
      realloc_post (gen_rep os OInv k F l) (osheap - live F) L p n m s q s'"
    if "L p = Some n" "m \<noteq> 0" "unat m < 2 ^ 63" for p n m
    by (rule os_pages.gen_realloc_ok [OF os R that])
  show "gen_contains_fn os p s = Some (ALLO_CONTAINS_YES, s)" if "p \<in> dom L" for p
    by (rule os_pages.gen_contains_ok [OF os R, of p]) (use that in blast)
qed

theorem gen_contract_witness:
  "\<exists>s l p q s'. gen_rep bump_os kernel_inv 12 Map.empty l s [p \<mapsto> 100] \<and>
     gen_realloc_fn bump_os p 100 3000 s = Some (q, s') \<and>
     realloc_post (gen_rep bump_os kernel_inv 12 Map.empty l) kernel_heap [p \<mapsto> 100] p 100 3000 s q s'"
proof -
  obtain s l p where R: "gen_rep bump_os kernel_inv 12 Map.empty l s [p \<mapsto> 100]" by (rule demo_gen_block)
  with gen_contract [OF bump.os_pages_axioms R] show ?thesis by force
qed

text \<open>
  C3. Thread safety: any number of threads that free and reallocate only what they were given
  themselves share a mutex allocator over any target that meets the contract. The threads run the
  statements of the functions one at a time in any interleaving, and two threads about to run the
  target's code at once are a data race after which anything may happen. In every reachable state
  the target is valid with exactly the blocks the threads have by the log, and no two of these
  blocks, of one thread or of two, have a byte in common.
\<close>

theorem mtx_clients_apart:
  assumes A: "allocator a Inv heap lim" and i: "mtx_init a S0" and I: "Inv (child_state (th_machine S0)) Map.empty"
    and R: "client_reach lim S0 S"
  shows "Inv (child_state (th_machine S)) (blocks (owners (th_log S))) \<and>
    (\<forall>p q t u n m. owners (th_log S) p = Some (t, n) \<longrightarrow> owners (th_log S) q = Some (u, m) \<longrightarrow> p \<noteq> q \<longrightarrow>
       region p n \<subseteq> heap \<and> region p n \<inter> region q m = {})"
proof
  show "Inv (child_state (th_machine S)) (blocks (owners (th_log S)))"
    using allocator.clients_reach_inv [OF A R i I] by (simp add: clients_inv_def)
qed (use allocator.clients_apart [OF A R i I] in blast)

theorem mtx_clients_apart_witness:
  "\<exists>S :: heap_threads. owners (th_log S) 4096 = Some (1, 100) \<and>
     heap_inv (child_state (th_machine S)) (blocks (owners (th_log S)))"
proof -
  obtain S0 S :: heap_threads where h: "mtx_init buf_allo S0" "client_reach (2 ^ 63) S0 S"
    "heap_inv (child_state (th_machine S0)) Map.empty" "th_log S = [(1, Op_alloc 100, R_ptr 4096)]"
    by (rule demo_clients)
  have "owners (th_log S) 4096 = Some (1, 100)" by (simp add: h(4) owners_def)
  with mtx_clients_apart [OF buf.allocator_axioms h(1,3,2)] show ?thesis by blast
qed

text \<open>
  C4. The pool's operations implement the abstract map of live blocks: every request returns and
  yields null or a fresh block apart from the others; freeing removes a block; reallocation never
  moves a block: a size of at most the pool's block size returns the block itself, a larger one
  null, and neither changes the state; every other block's bytes are kept.
\<close>

theorem pool_contract:
  assumes J: "pool_inv B bs N s L"
  shows "(\<exists>p s'. pool_alloc_fn n s = Some (p, s') \<and>
      alloc_post (pool_inv B bs N) (region B (bs * N)) L n s p s') \<and>
    (\<forall>p k. L p = Some k \<longrightarrow> (\<exists>s'. pool_free_fn p k s = Some ((), s') \<and>
      free_post (pool_inv B bs N) (region B (bs * N)) L p s s')) \<and>
    (\<forall>p k m. L p = Some k \<longrightarrow> m \<noteq> 0 \<longrightarrow> unat m < 2 ^ 63 \<longrightarrow>
      (\<exists>q s'. pool_realloc_fn p k m s = Some (q, s') \<and>
        realloc_post (pool_inv B bs N) (region B (bs * N)) L p k m s q s') \<and>
      pool_realloc_fn p k m s = Some (if m \<le> bs then p else NULL, s))"
  using pool_alloc_post [OF J] pool.free_law [OF J] pool.realloc_law [OF J] pool_realloc_run(1) [OF J]
  by (simp add: pool_allo_def)

theorem pool_contract_witness:
  "\<exists>s B p s'. make_pool_allocator 8 (Some buf_allo) NULL 20 8 demo_heap = Some (Inr s) \<and>
     pool_alloc_fn 20 s = Some (p, s') \<and> alloc_post (pool_inv B 24 8) (region B (24 * 8)) Map.empty 20 s p s'"
proof -
  obtain s B where "make_pool_allocator 8 (Some buf_allo) NULL 20 8 demo_heap = Some (Inr s)"
    and J: "pool_inv B 24 8 s Map.empty" by (rule demo_pool)
  with pool_contract [OF J, of 20] show ?thesis by blast
qed

text \<open>
  C5. Over any operating system that keeps the promises of mmap, munmap and mremap, the page
  allocator implements the abstract map of live blocks: every request returns null or a fresh
  block apart from the others, frees give exactly the block's mapping back, reallocation keeps
  the first min(old, new) bytes when the mapping moves, and the registry of mappings, which may
  move itself when it grows, stays exact.
\<close>

theorem page_contract:
  assumes os: "os_pages os OInv osheap k" and J: "page_inv OInv k F s L"
  shows "(\<forall>n. unat n < 2 ^ 63 \<longrightarrow> (\<exists>p s'. page_alloc_fn os n s = Some (p, s') \<and>
      alloc_post (page_inv OInv k F) (osheap - live F) L n s p s')) \<and>
    (\<forall>p n. L p = Some n \<longrightarrow> (\<exists>s'. page_free_fn os p n s = Some ((), s') \<and>
      free_post (page_inv OInv k F) (osheap - live F) L p s s')) \<and>
    (\<forall>p n m. L p = Some n \<longrightarrow> m \<noteq> 0 \<longrightarrow> unat m < 2 ^ 63 \<longrightarrow>
      (\<exists>q s'. page_realloc_fn os p n m s = Some (q, s') \<and>
        realloc_post (page_inv OInv k F) (osheap - live F) L p n m s q s'))"
  using os_pages.page_alloc_law [OF os J] os_pages.page_free_law [OF os J] os_pages.page_realloc_law [OF os J] by blast

theorem page_contract_witness:
  "\<exists>s p s'. make_page_allocator bump_os 8 boot = Inr s \<and> page_alloc_fn bump_os 100 s = Some (p, s') \<and>
     alloc_post (page_inv kernel_inv 12 Map.empty) (kernel_heap - live Map.empty) Map.empty 100 s p s'"
proof -
  obtain s where "make_page_allocator bump_os 8 boot = Inr s" and J: "page_inv kernel_inv 12 Map.empty s Map.empty"
    by (rule demo_page)
  with page_contract [OF bump.os_pages_axioms J] show ?thesis by force
qed

text \<open>
  C6. Over any child that meets the contract, an arena's request (below the child's limit less
  the header) returns null or a fresh block apart from all live blocks, keeps every live byte and
  everything outside the arena's part of the heap, and keeps the invariant: current block, full
  block and dedicated block alike.
\<close>

theorem arena_alloc_correct:
  assumes A: "allocator a Inv heap lim" and J: "arena_inv a Inv heap F bsz s L"
    and n: "unat n < lim - 24" "unat bsz + 24 < lim"
  shows "\<exists>p s'. arena_alloc_fn n s = Some (p, s') \<and>
    kept (heap - live F) L (mem s) (mem s') \<and>
    (if p = NULL then arena_inv a Inv heap F bsz s' L
     else p \<notin> dom L \<and> 8 dvd unat p \<and> region p n \<subseteq> heap - live F \<and> region p n \<inter> live L = {} \<and>
       arena_inv a Inv heap F bsz s' (L(p \<mapsto> n)))"
proof -
  have O: "arena_over a Inv heap lim bsz"
    using A n(2) by (simp add: arena_over_def arena_over_axioms_def)
  obtain p s' where "arena_alloc_fn n s = Some (p, s')"
    and "alloc_post (arena_inv a Inv heap F bsz) (heap - live F) L n s p s'"
    and "p \<noteq> NULL \<longrightarrow> n \<noteq> 0 \<and> 8 dvd unat p \<and> region p n \<subseteq> heap - live F \<and> region p n \<inter> live L = {}"
    using arena_over.arena_over_alloc [OF O J n(1)] by (auto simp: arena_allo_def)
  then show ?thesis
    by (intro exI [of _ p] exI [of _ s']) (cases "p = NULL", simp_all add: alloc_post_def)
qed

theorem arena_alloc_correct_witness:
  "\<exists>s p s'. make_arena_allocator 8 (Some buf_allo) 64 demo_heap = Some (Inr s) \<and>
     arena_alloc_fn 40 s = Some (p, s') \<and>
     (p \<noteq> NULL \<longrightarrow> arena_inv buf_allo heap_inv heap_area Map.empty 64 s' [p \<mapsto> 40])"
proof -
  obtain s where h: "make_arena_allocator 8 (Some buf_allo) 64 demo_heap = Some (Inr s)"
    and J: "arena_inv buf_allo heap_inv heap_area Map.empty 64 s Map.empty" by (rule demo_arena)
  with arena_alloc_correct [OF buf.allocator_axioms J, of 40] show ?thesis by (auto split: if_splits)
qed

text \<open>
  C7. For every input that selects the page allocator or the general purpose allocator, and over
  every operating system that keeps its promises, no corruption is ever detected, and the fuzzing
  harness returns with no failed assertion and exactly the mappings from before, with one
  exception: when the factory of the general purpose allocator itself crashes (by
  make_gen_correct: when its buddy allocator cannot be mapped), the harness crashes there.
\<close>

theorem fuzz_os_no_abort:
  assumes os: "os_pages os OInv osheap k" and I: "OInv s F" and out: "out \<noteq> NULL"
    and sel: "fuzz_selector data \<in> {1, 6}"
  shows "if 7 \<le> length data \<and> fuzz_selector data = 6 \<and> make_gen_allocator os out s = None
    then LLVMFuzzerTestOneInput os lc out data s = None
    else \<exists>s'. LLVMFuzzerTestOneInput os lc out data s = Some (Inr s') \<and> OInv s' F"
  using sel I os_pages.fuzz_page_ok [OF os I out fuzz_max_pointers] os_pages.fuzz_gen_ok [OF os I out fuzz_max_pointers]
  by (auto simp: LLVMFuzzerTestOneInput_def Let_def)

theorem fuzz_os_no_abort_witness:
  "\<forall>lc. \<exists>s. LLVMFuzzerTestOneInput bump_os lc 8 [6, 3, 0, 16, 0, 0x10, 0, 100, 0x12, 11, 184, 0x11] boot = Some (Inr s) \<and>
     kernel_inv s Map.empty"
proof
  fix lc
  let ?data = "[6, 3, 0, 16, 0, 0x10, 0, 100, 0x12, 11, 184, 0x11] :: byte list"
  have "fuzz_selector ?data \<in> {1, 6}" by (simp add: fuzz_selector_def)
  from fuzz_os_no_abort [OF bump.os_pages_axioms boot_inv _ this, of 8 lc]
  show "\<exists>s. LLVMFuzzerTestOneInput bump_os lc 8 ?data boot = Some (Inr s) \<and> kernel_inv s Map.empty"
    using demo_gen_made by auto
qed

text \<open>
  C8. For every input that selects the C allocator or a fixed buffer, an arena, a pool or a buddy
  allocator over it, whatever parameters the input chooses, the harness returns without an abort
  or a failed assertion, and every block it took from the C library is given back.
\<close>

theorem fuzz_libc_no_abort:
  assumes C: "c_library lc Inv heap lim" and lim: "2 ^ 24 \<le> lim" and I: "Inv s C" and out: "out \<noteq> NULL"
    and sel: "fuzz_selector data \<in> {0, 2, 3, 4, 5}"
  shows "\<exists>s'. LLVMFuzzerTestOneInput os lc out data s = Some (Inr s') \<and> Inv s' C"
proof (cases "length data < 7")
  case True
  with I show ?thesis by (simp add: LLVMFuzzerTestOneInput_def)
next
  case False
  note np = fuzz_max_pointers [of data]
  show ?thesis
    using sel False c_library.fuzz_c_ok [OF C I out np lim] c_library.fuzz_buffer_ok [OF C I out np lim]
      c_library.fuzz_arena_ok [OF C I out np lim] c_library.fuzz_pool_ok [OF C I out np lim]
      c_library.fuzz_buddy_ok [OF C I out np lim]
    by (auto simp: LLVMFuzzerTestOneInput_def Let_def)
qed

theorem fuzz_libc_no_abort_witness:
  "\<forall>os. \<exists>s. LLVMFuzzerTestOneInput os (table_libc buf_allo) 8 [4, 3, 0, 16, 0, 0, 63, 0, 7, 0x10, 0, 40, 0x11]
     (with_child Map.empty demo_heap) = Some (Inr s) \<and> table_inv heap_inv s Map.empty"
proof
  fix os
  show "\<exists>s. LLVMFuzzerTestOneInput os (table_libc buf_allo) 8 [4, 3, 0, 16, 0, 0, 63, 0, 7, 0x10, 0, 40, 0x11]
     (with_child Map.empty demo_heap) = Some (Inr s) \<and> table_inv heap_inv s Map.empty"
    by (rule fuzz_libc_no_abort [OF buf.table_library _ demo_libc]) (simp_all add: fuzz_selector_def)
qed

text \<open>
  C9. The buddy allocator refuses a request only when it has to: if a request of nonzero size no
  larger than the buffer fails, then every aligned block of the rounded size in the buffer meets
  (the rounded block of) some live allocation. Free buddies are never left unmerged in the way of
  a request.
\<close>

theorem buddy_alloc_complete:
  assumes J: "buddy_inv B D fl bs bo s L" and n: "n \<noteq> 0" "unat n \<le> 2 ^ (D + 5)"
    and null: "buddy_alloc_fn n s = Some (NULL, s')" and i: "i < 2 ^ level_of D n"
  shows "\<exists>p m x. L p = Some m \<and> p = node_addr B D x \<and> fst x = level_of D m \<and>
    node_mem B D x \<inter> node_mem B D (level_of D n, i) \<noteq> {}"
  by (rule buddy_alloc_fail [OF assms])

theorem buddy_alloc_complete_witness:
  "\<exists>s B D fl bs bo p s1 s2 q x. make_buddy_allocator 8 (Some buf_allo) NULL 1000 demo_heap = Some (Inr s) \<and>
     buddy_alloc_fn 1024 s = Some (p, s1) \<and> buddy_inv B D fl bs bo s1 [p \<mapsto> 1024] \<and>
     buddy_alloc_fn 1024 s1 = Some (NULL, s2) \<and> q = node_addr B D x \<and> q = p"
proof -
  obtain s B D fl bs bo where mk: "make_buddy_allocator 8 (Some buf_allo) NULL 1000 demo_heap = Some (Inr s)"
    and D: "D = 5" and J: "buddy_inv B D fl bs bo s Map.empty" by (rule demo_buddy)
  have bb: "buf_bytes D = 1024" by (simp add: D buf_bytes_def)
  obtain s1 where r: "buddy_alloc_fn 1024 s = Some (B, s1)" using buddy_whole_buffer [OF J] by (auto simp: bb)
  have B: "B \<noteq> NULL" using buddy_geometry [OF J] by (simp add: buddy_mem_def)
  have J1: "buddy_inv B D fl bs bo s1 [B \<mapsto> 1024]"
    using buddy_mem.buddy_alloc_law [OF buddy_geometry [OF J] J, of 1024] r B by (auto simp: alloc_post_def)
  obtain p2 s2 where r2: "buddy_alloc_fn 1024 s1 = Some (p2, s2)" "p2 = NULL"
    using buddy_full_fails [OF J1 [folded bb], of 1024] by auto
  have n: "(1024 :: size_t) \<noteq> 0" "unat (1024 :: size_t) \<le> 2 ^ (D + 5)" by (simp_all add: D)
  have null: "buddy_alloc_fn 1024 s1 = Some (NULL, s2)" using r2 by simp
  have "0 < (2 :: nat) ^ level_of D 1024" by simp
  from buddy_alloc_complete [OF J1 n null this]
  obtain p m x where "[B \<mapsto> (1024 :: size_t)] p = Some m" "p = node_addr B D x" by blast
  then have "p = B \<and> p = node_addr B D x" by (auto split: if_splits)
  then show ?thesis using mk r J1 r2 by metis
qed

text \<open>
  C10. Freeing a live block with the size it was asked for always returns, keeps the bytes of
  every other live block and everything outside the allocator's areas, and leaves the invariant
  (free lists, bit set, no two free buddies) without the block.
\<close>

theorem buddy_free_correct:
  assumes J: "buddy_inv B D fl bs bo s L" and p: "L p = Some n"
  shows "\<exists>s'. buddy_free_fn p n s = Some ((), s') \<and>
    kept (buddy_heap B D fl bs bo) (L(p := None)) (mem s) (mem s') \<and>
    buddy_inv B D fl bs bo s' (L(p := None))"
  using buddy_mem.buddy_free_law [OF buddy_geometry [OF J] J p] by (auto simp: free_post_def)

theorem buddy_free_correct_witness:
  "\<exists>s B D fl bs bo s1 s2. make_buddy_allocator 8 (Some buf_allo) NULL 1000 demo_heap = Some (Inr s) \<and>
     buddy_alloc_fn 1024 s = Some (B, s1) \<and> buddy_free_fn B 1024 s1 = Some ((), s2) \<and>
     buddy_inv B D fl bs bo s2 Map.empty"
proof -
  obtain s B D fl bs bo s1 where h: "make_buddy_allocator 8 (Some buf_allo) NULL 1000 demo_heap = Some (Inr s)"
    "buddy_alloc_fn 1024 s = Some (B, s1)" and J1: "buddy_inv B D fl bs bo s1 [B \<mapsto> 1024]"
    by (rule demo_buddy_full)
  have "([B \<mapsto> 1024])(B := None) = Map.empty" by simp
  with buddy_free_correct [OF J1, of B 1024] h show ?thesis by fastforce
qed

text \<open>
  C11. Reallocating a live block to a nonzero size returns; on failure nothing changes for the
  client; on success the result is the old address or a new one, the first min(old, new) bytes
  are the same and the old block is gone.
\<close>

theorem buddy_realloc_correct:
  assumes J: "buddy_inv B D fl bs bo s L" and p: "L p = Some n" and m: "m \<noteq> 0"
  shows "\<exists>q s'. buddy_realloc_fn p n m s = Some (q, s') \<and>
    (if q = NULL then kept (buddy_heap B D fl bs bo) L (mem s) (mem s') \<and> buddy_inv B D fl bs bo s' L
     else kept (buddy_heap B D fl bs bo) (L(p := None)) (mem s) (mem s') \<and> (q = p \<or> q \<notin> dom L) \<and>
       buddy_inv B D fl bs bo s' (L(p := None, q \<mapsto> m)) \<and>
       (\<forall>i < min n m. mem s' (q + i) = mem s (p + i)))"
proof -
  obtain q s' where "buddy_realloc_fn p n m s = Some (q, s')"
    and "realloc_post (buddy_inv B D fl bs bo) (buddy_heap B D fl bs bo) L p n m s q s'"
    using buddy_mem.buddy_realloc_law [OF buddy_geometry [OF J] J p m] by blast
  then show ?thesis by (intro exI [of _ q] exI [of _ s']) (cases "q = NULL", simp_all add: realloc_post_def same_bytes_def)
qed

theorem buddy_realloc_correct_witness:
  "\<exists>s B D fl bs bo s1 q s2. make_buddy_allocator 8 (Some buf_allo) NULL 1000 demo_heap = Some (Inr s) \<and>
     buddy_alloc_fn 1024 s = Some (B, s1) \<and> buddy_realloc_fn B 1024 100 s1 = Some (q, s2) \<and>
     (q = NULL \<longrightarrow> buddy_inv B D fl bs bo s2 [B \<mapsto> 1024])"
proof -
  obtain s B D fl bs bo s1 where h: "make_buddy_allocator 8 (Some buf_allo) NULL 1000 demo_heap = Some (Inr s)"
    "buddy_alloc_fn 1024 s = Some (B, s1)" and J1: "buddy_inv B D fl bs bo s1 [B \<mapsto> 1024]"
    by (rule demo_buddy_full)
  obtain q s2 where "buddy_realloc_fn B 1024 100 s1 = Some (q, s2)"
    "q = NULL \<longrightarrow> buddy_inv B D fl bs bo s2 [B \<mapsto> 1024]"
    using buddy_realloc_correct [OF J1, of B 1024 100] by (auto split: if_splits)
  with h show ?thesis by blast
qed

text \<open>
  C12. Coalescing: from any state of the allocator, however its buffer is split, giving back all
  blocks in use, in any order, returns, and merges them into the whole buffer: a request for the
  full buffer then succeeds and returns its first address.
\<close>

theorem buddy_coalesces:
  assumes J: "buddy_inv B D fl bs bo s L" and blks: "distinct (map fst blks)" "map_of blks = L"
  shows "\<exists>s1 s2. buddy_free_all blks s = Some ((), s1) \<and> buddy_alloc_fn (buf_bytes D) s1 = Some (B, s2) \<and> B \<noteq> NULL"
proof -
  obtain s1 where s1: "buddy_free_all blks s = Some ((), s1)" and E: "buddy_inv B D fl bs bo s1 Map.empty"
    using buddy_free_all_ok [of B D fl bs bo s blks] J blks by blast
  have "B \<noteq> NULL" using buddy_geometry [OF J] by (simp add: buddy_mem_def)
  with s1 buddy_whole_buffer [OF E] show ?thesis by blast
qed

theorem buddy_coalesces_witness:
  "\<exists>s B p q s1 s2 s3 s4. make_buddy_allocator 8 (Some buf_allo) NULL 1000 demo_heap = Some (Inr s) \<and>
     buddy_alloc_fn 100 s = Some (p, s1) \<and> buddy_alloc_fn 100 s1 = Some (q, s2) \<and> p \<noteq> NULL \<and> q \<noteq> NULL \<and> p \<noteq> q \<and>
     buddy_free_all [(p, 100), (q, 100)] s2 = Some ((), s3) \<and> buddy_alloc_fn 1024 s3 = Some (B, s4) \<and> B \<noteq> NULL"
proof -
  obtain s B fl bs bo p s1 q s2 where mk: "make_buddy_allocator 8 (Some buf_allo) NULL 1000 demo_heap = Some (Inr s)"
    and r: "buddy_alloc_fn 100 s = Some (p, s1)" "buddy_alloc_fn 100 s1 = Some (q, s2)" "p \<noteq> NULL" "q \<noteq> NULL" "p \<noteq> q"
    and J: "buddy_inv B 5 fl bs bo s2 [p \<mapsto> 100, q \<mapsto> 100]" by (rule demo_buddy_two)
  have bb: "buf_bytes 5 = 1024" by (simp add: buf_bytes_def)
  have "distinct (map fst [(p, 100 :: size_t), (q, 100)])" "map_of [(p, 100), (q, 100)] = [p \<mapsto> 100, q \<mapsto> 100]"
    using r(5) by auto
  from buddy_coalesces [OF J this] obtain s3 s4 where "buddy_free_all [(p, 100), (q, 100)] s2 = Some ((), s3)"
    "buddy_alloc_fn 1024 s3 = Some (B, s4)" "B \<noteq> NULL" unfolding bb by blast
  with mk r show ?thesis by blast
qed

text \<open>
  C13. The factory with a buffer of its own, over any child that meets the contract, for sizes
  from 17 to 2^62: it returns the error for lack of memory with everything given back to the
  child, or an allocator with an empty live map over a buffer of the next power of two, holding
  at the child exactly its buffer and its three metadata blocks.
\<close>

theorem make_buddy_correct:
  assumes A: "allocator a Inv heap lim" and I: "Inv s F"
    and args: "out \<noteq> NULL" "16 < unat n" "unat n \<le> 2 ^ 62" "2 ^ nat (get_order n) < lim"
  shows "(\<exists>s'. make_buddy_allocator out (Some a) NULL n s = Some (Inl (ALLO_ERR_NOMEM, s')) \<and> Inv s' F) \<or>
    (\<exists>s' B D fl bs bo. make_buddy_allocator out (Some a) NULL n s = Some (Inr s') \<and>
       unat n \<le> 2 ^ (D + 5) \<and> 2 ^ (D + 5) < 2 * unat n \<and> buddy_inv B D fl bs bo s' Map.empty \<and>
       Inv (child_state s') (F(B \<mapsto> buf_bytes D, fl \<mapsto> fl_bytes D, bs \<mapsto> bs_bytes D, bo \<mapsto> bo_bytes D)))"
  using args
  by (cases rule: allocator.make_buddy_owned [OF A I, of out n])
    (simp_all, auto simp: buddy_backed_def buddy_grants_def)

theorem make_buddy_correct_witness:
  "\<exists>s' B D fl bs bo. make_buddy_allocator 8 (Some buf_allo) NULL 1000 demo_heap = Some (Inr s') \<and>
     buddy_inv B D fl bs bo s' Map.empty"
proof -
  have "2 ^ nat (get_order 1000) < (2 :: nat) ^ 63" by (simp add: demo_order)
  then have "\<exists>s' B D fl bs bo. make_buddy_allocator 8 (Some buf_allo) NULL 1000 demo_heap = Some (Inr s') \<and>
      buddy_inv B D fl bs bo s' Map.empty"
    using make_buddy_correct [OF buf.allocator_axioms demo_heap_inv, of 8 1000] demo_buddy_made by fastforce
  then show ?thesis .
qed

text \<open>
  C14. Destroying a buddy allocator gives the child back exactly the blocks the factory took,
  with the sizes it asked for, whatever the child.
\<close>

theorem buddy_destroy_correct:
  assumes A: "allocator a Inv heap lim" and b: "buddy_backed a Inv F B D fl bs bo s"
  shows "\<exists>s'. buddy_destroy_fn s = Some ((), s') \<and> Inv (child_state s') F"
  by (rule allocator.buddy_destroy_ok [OF A b]) blast

theorem buddy_destroy_correct_witness:
  "\<exists>s s'. make_buddy_allocator 8 (Some buf_allo) NULL 1000 demo_heap = Some (Inr s) \<and>
     buddy_destroy_fn s = Some ((), s') \<and> heap_inv (child_state s') Map.empty"
proof -
  obtain s B D fl bs bo where h: "make_buddy_allocator 8 (Some buf_allo) NULL 1000 demo_heap = Some (Inr s)"
    and b: "buddy_backed buf_allo heap_inv Map.empty B D fl bs bo s" by (rule demo_buddy)
  with buddy_destroy_correct [OF buf.allocator_axioms b] show ?thesis by blast
qed

text \<open>
  C15. Sizes up to 16 bytes are always refused with the error for lack of memory, and the child
  gets back what was taken: one of the three metadata requests is empty or overflows, and is
  answered with null (for 9 to 16 bytes the bit set is empty, for 5 to 8 the array of free lists,
  and below that the number of free lists wraps around).
\<close>

theorem make_buddy_small:
  assumes A: "allocator a Inv heap lim" and I: "Inv s F"
    and args: "out \<noteq> NULL" "n \<noteq> 0" "unat n \<le> 16" "16 < lim"
  shows "\<exists>s'. make_buddy_allocator out (Some a) NULL n s = Some (Inl (ALLO_ERR_NOMEM, s')) \<and> Inv s' F"
  by (rule allocator.make_buddy_tiny [OF A I args]) blast

theorem make_buddy_small_witness:
  "\<exists>s'. make_buddy_allocator 8 (Some buf_allo) NULL 16 demo_heap = Some (Inl (ALLO_ERR_NOMEM, s')) \<and>
     heap_inv s' Map.empty"
  using make_buddy_small [OF buf.allocator_axioms demo_heap_inv, of 8 16] by simp

text \<open>
  C16. The loop that rounds the buffer size up ends for every size up to 2^63 and yields the
  power of two of the size's order, at least the size and less than twice it.
\<close>

theorem round_up_terminates:
  assumes n: "n \<noteq> 0" "unat n \<le> 2 ^ 63"
  shows "round_up_loop 1 n = Some (2 ^ nat (get_order n)) \<and> unat n \<le> 2 ^ nat (get_order n) \<and>
    2 ^ nat (get_order n) < 2 * unat n"
  using round_up_ok [OF n] get_order_bounds [OF n(1)] by simp

theorem round_up_terminates_witness: "round_up_loop 1 1000 = Some (2 ^ nat (get_order 1000))"
  using round_up_terminates [of 1000] by simp

text \<open>
  C17. For every size above 2^63 the factory does not return: the shifted value becomes zero and
  the rounding loop runs forever, whatever the child.
\<close>

theorem make_buddy_hangs:
  assumes "out \<noteq> NULL" "2 ^ 63 < unat n"
  shows "make_buddy_allocator out (Some c) buffer n s = None"
proof -
  have "n \<noteq> 0" using assms(2) by auto
  then show ?thesis using assms(1) round_up_diverges [OF assms(2)] by (simp add: make_buddy_allocator_def)
qed

theorem make_buddy_hangs_witness:
  "make_buddy_allocator 8 (Some buf_allo) NULL 0x8000000000000001 demo_heap = None"
  by (rule make_buddy_hangs) simp_all

text \<open>
  C18. The order of a nonzero size is the least exponent of a power of two that is not below it.
\<close>

theorem get_order_spec:
  assumes "n \<noteq> 0"
  shows "0 \<le> get_order n \<and> (get_order n \<le> int k) = (unat n \<le> 2 ^ k)"
  using get_order_nonneg get_order_le_iff [OF assms] by simp

theorem get_order_spec_witness: "get_order 1000 \<le> int 10 \<and> \<not> get_order 1000 \<le> int 9"
  using get_order_spec [of 1000 10] get_order_spec [of 1000 9] by simp

text \<open>
  C19. The portable binary search for the order computes the same as the version with the
  compiler's count of leading zeros, for every size.
\<close>

theorem get_order_equivalent: "get_order_portable n = get_order n"
  by (rule get_order_versions)

text \<open>
  C20. No block of a pool is lost: after any block in use is given back, requests of at most the
  block size succeed exactly as often as there are blocks not in use, each with a different
  block, the one given back among them and no other that is in use, and the request after that
  returns null.
\<close>

theorem pool_no_leak:
  assumes J: "pool_inv B bs N s L" and p: "L p = Some k" and n: "n \<noteq> 0" "unat n \<le> unat bs"
  shows "\<exists>s1 ps s2. pool_free_fn p k s = Some ((), s1) \<and>
    pool_alloc_many (unat N - card (dom L) + 1) n s1 = Some (ps, s2) \<and> distinct ps \<and> NULL \<notin> set ps \<and>
    set ps \<inter> dom L = {p} \<and> pool_alloc_fn n s2 = Some (NULL, s2)"
  by (rule pool_free_drain [OF J p n])

theorem pool_no_leak_witness:
  "\<exists>s s0 p s1 ps s2. make_pool_allocator 8 (Some buf_allo) NULL 20 8 demo_heap = Some (Inr s) \<and>
     pool_alloc_fn 20 s = Some (p, s0) \<and> pool_free_fn p 20 s0 = Some ((), s1) \<and>
     pool_alloc_many 8 5 s1 = Some (ps, s2) \<and> p \<in> set ps \<and> pool_alloc_fn 5 s2 = Some (NULL, s2)"
proof -
  obtain s B where mk: "make_pool_allocator 8 (Some buf_allo) NULL 20 8 demo_heap = Some (Inr s)"
    and J: "pool_inv B 24 8 s Map.empty" by (rule demo_pool)
  obtain p s0 where a: "pool_alloc_fn 20 s = Some (p, s0)" "p \<noteq> NULL"
    by (rule pool_alloc_success [OF J, of 20]) simp_all
  then have J0: "pool_inv B 24 8 s0 [p \<mapsto> 20]"
    using pool_alloc_post [OF J, of 20] by (auto simp: alloc_post_def)
  from pool_no_leak [OF J0, of p 20 5] mk a(1) show ?thesis by fastforce
qed

text \<open>
  C21. Destroying a pool that owns its buffer gives the buffer, and nothing else, back to the
  child.
\<close>

theorem pool_destroy_correct:
  assumes A: "allocator a Inv heap lim" and b: "pool_backed a Inv F B bs N s"
  shows "\<exists>s'. pool_destroy_fn s = Some ((), s') \<and> Inv (child_state s') F"
  by (rule allocator.pool_destroy_ok [OF A b]) blast

theorem pool_destroy_correct_witness:
  "\<exists>s s'. make_pool_allocator 8 (Some buf_allo) NULL 20 8 demo_heap = Some (Inr s) \<and>
     pool_destroy_fn s = Some ((), s') \<and> heap_inv (child_state s') Map.empty"
proof -
  obtain s B where h: "make_pool_allocator 8 (Some buf_allo) NULL 20 8 demo_heap = Some (Inr s)"
    and b: "pool_backed buf_allo heap_inv Map.empty B 24 8 s" by (rule demo_pool)
  with pool_destroy_correct [OF buf.allocator_axioms b] show ?thesis by blast
qed



text \<open>
  C23. Destroying an arena walks the whole chain (the loop ends), gives every block of it back to
  the child with the size it was asked for, and leaves the child's other blocks and their bytes
  alone.
\<close>

theorem arena_destroy_correct:
  assumes A: "allocator a Inv heap lim" and J: "arena_inv a Inv heap F bsz s L"
  shows "\<exists>s'. arena_destroy_fn s = Some ((), s') \<and> Inv (child_state s') F \<and> kept heap F (mem s) (mem s')"
  by (rule allocator.arena_destroy_ok [OF A J]) blast

theorem arena_destroy_correct_witness:
  "\<exists>s p s'. arena_inv buf_allo heap_inv heap_area Map.empty 64 s [p \<mapsto> 40] \<and>
     arena_destroy_fn s = Some ((), s') \<and> heap_inv (child_state s') Map.empty"
proof -
  obtain s p where J: "arena_inv buf_allo heap_inv heap_area Map.empty 64 s [p \<mapsto> 40]"
    by (rule demo_arena_block)
  with arena_destroy_correct [OF buf.allocator_axioms J] show ?thesis by blast
qed

text \<open>
  C24. The table lookup that picks a pool equals a search of the pool sizes: the index is the
  number of pools whose blocks are smaller than the request, so the first pool that is large
  enough, and always one of the eight.
\<close>

theorem get_pool_index_least:
  assumes "n \<noteq> 0" "n \<le> SMALL_OBJ_LIMIT"
  shows "get_pool_index n = length (takeWhile (\<lambda>b. b < n) pool_sizes) \<and> get_pool_index n < POOL_COUNT"
proof -
  note i = get_pool_index_small [OF assms]
  have len: "length pool_sizes = 8" by (simp add: pool_sizes_def)
  have "length (takeWhile (\<lambda>b. b < n) pool_sizes) = get_pool_index n"
    using takeWhile_eq_take_P_nth [of "get_pool_index n" pool_sizes "\<lambda>b. b < n"] i
    by (simp add: len word_less_nat_alt)
  with i(1) show ?thesis by (simp add: POOL_COUNT_def)
qed

theorem get_pool_index_least_witness:
  "get_pool_index 129 = length (takeWhile (\<lambda>b. b < 129) pool_sizes)"
  using get_pool_index_least [of 129] by (simp add: SMALL_OBJ_LIMIT_def)

text \<open>
  C25. A request of up to 2048 bytes succeeds exactly when the pool of its size class has a block
  left: a full pool is never helped out by a larger one or by the buddy allocator.
\<close>

theorem gen_small_alloc_iff:
  assumes os: "os_pages os OInv osheap k" and R: "gen_rep os OInv k F l s L"
    and n: "n \<noteq> 0" "n \<le> SMALL_OBJ_LIMIT"
  shows "\<exists>p s'. gen_alloc_fn os n s = Some (p, s') \<and>
    (p \<noteq> NULL \<longleftrightarrow> card (dom (tier_map L (get_pool_index n))) < unat (pool_blocks ! get_pool_index n))"
  by (rule os_pages.gen_small_alloc [OF os R n])

theorem gen_small_alloc_iff_witness:
  "\<exists>s l p s'. gen_rep bump_os kernel_inv 12 Map.empty l s Map.empty \<and>
     gen_alloc_fn bump_os 2048 s = Some (p, s') \<and> p \<noteq> NULL"
proof -
  obtain s l where R: "gen_rep bump_os kernel_inv 12 Map.empty l s Map.empty" by (rule demo_gen)
  have "unat (pool_blocks ! get_pool_index 2048) = 32" by code_simp
  then show ?thesis
    using gen_small_alloc_iff [OF bump.os_pages_axioms R, of 2048] R by (auto simp: SMALL_OBJ_LIMIT_def)
qed

text \<open>
  C26. The general factory, by how far it gets. A null argument is refused without a change of
  state. When the page allocator or the block for the state cannot be had, it reports that there
  is no memory and has given back every mapping it made. When these two can be had and the buddy
  allocator cannot, it does not come back: it unmaps the state block and then reads the page
  allocator that lies in it (a defect of the code). When the buddy allocator can be had it always
  succeeds, since the eight pools always fit: all three layers stand, empty.
\<close>

theorem make_gen_correct:
  assumes os: "os_pages os OInv osheap k" and I: "OInv s F"
  shows "if out = NULL then make_gen_allocator os out s = Some (Inl (ALLO_ERR_INVAL, s))
    else if \<not> fst (gen_stages os out s)
      then \<exists>s'. make_gen_allocator os out s = Some (Inl (ALLO_ERR_NOMEM, s')) \<and> OInv s' F
    else if \<not> snd (gen_stages os out s) then make_gen_allocator os out s = None
    else \<exists>s' l. make_gen_allocator os out s = Some (Inr s') \<and> gen_rep os OInv k F l s' Map.empty"
proof (cases "out = NULL")
  case True
  then show ?thesis by (simp add: make_gen_allocator_def)
next
  case False
  then show ?thesis by (cases rule: os_pages.make_gen_ok [OF os I]) auto
qed

theorem make_gen_correct_witness:
  "(\<exists>s l. make_gen_allocator bump_os 8 boot = Some (Inr s) \<and> gen_rep bump_os kernel_inv 12 Map.empty l s Map.empty) \<and>
     make_gen_allocator bump_os 8 boot_low = None"
proof
  obtain s where "make_gen_allocator bump_os 8 boot = Some (Inr s)" using demo_gen_made by blast
  with make_gen_correct [OF bump.os_pages_axioms boot_inv, of 8]
  show "\<exists>s l. make_gen_allocator bump_os 8 boot = Some (Inr s) \<and> gen_rep bump_os kernel_inv 12 Map.empty l s Map.empty"
    by (auto split: if_splits)
  show "make_gen_allocator bump_os 8 boot_low = None"
    using make_gen_correct [OF bump.os_pages_axioms boot_low_inv, of 8] by (simp add: demo_gen_low)
qed



text \<open>
  C28. The trackers of the fuzzing harness stay well-typed for the allocator's live blocks: over
  any allocator that meets the contract, each operation finds the block of its tracker intact,
  returns without abort, and leaves every tracker in use with a block of its own, of the noted
  size and filled with the noted byte, and no block without a tracker.
\<close>

theorem fuzz_trackers_typed:
  assumes A: "allocator a Inv heap lim" and I: "Inv s L" and T: "tracks ts L (mem s)"
    and i: "i < length ts" and n: "unat n < lim"
  shows "(\<exists>ts' s' L'. fuzz_alloc a i n b ts s = Some (Inr (ts', s')) \<and> Inv s' L' \<and> tracks ts' L' (mem s')) \<and>
    (\<exists>ts' s' L'. fuzz_free a i ts s = Some (Inr (ts', s')) \<and> Inv s' L' \<and> tracks ts' L' (mem s')) \<and>
    (\<exists>ts' s' L'. fuzz_realloc a i n b ts s = Some (Inr (ts', s')) \<and> Inv s' L' \<and> tracks ts' L' (mem s'))"
proof -
  have F: "fuzz_inv Inv (length ts) ts s" using I T by (auto simp: fuzz_inv_def)
  show ?thesis
    using allocator.fuzz_alloc_ok [OF A F i n, of b] allocator.fuzz_free_ok [OF A F i]
      allocator.fuzz_realloc_ok [OF A F i n, of b] unfolding fuzz_inv_def by blast
qed

theorem fuzz_trackers_typed_witness:
  "\<exists>ts s L. fuzz_alloc buf_allo 3 100 0x0C (replicate 128 \<lparr>tr_ptr = 0, tr_size = 0, tr_magic = 0\<rparr>) demo_heap =
     Some (Inr (ts, s)) \<and> heap_inv s L \<and> tracks ts L (mem s)"
proof -
  have T: "tracks (replicate 128 \<lparr>tr_ptr = 0, tr_size = 0, tr_magic = 0\<rparr>) Map.empty (mem demo_heap)"
    by (simp add: tracks_def)
  show ?thesis
    using fuzz_trackers_typed [OF buf.allocator_axioms demo_heap_inv T, of 3 100 "0x0C"] by auto
qed

text \<open>
  C29. Destroying a page allocator unmaps every block that is still in use and the registry, and
  nothing else: the mappings are those from before it was made.
\<close>

theorem page_destroy_correct:
  assumes os: "os_pages os OInv osheap k" and J: "page_inv OInv k F s L"
  shows "\<exists>s'. page_destroy_fn os s = Some ((), s') \<and> OInv (child_state s') F \<and> kept osheap F (mem s) (mem s')"
  using os_pages.page_destroy_ok [OF os J] by (simp add: allo_destroy_def page_allo_def)

theorem page_destroy_correct_witness:
  "\<exists>s p s'. page_inv kernel_inv 12 Map.empty s [p \<mapsto> 100] \<and> page_destroy_fn bump_os s = Some ((), s') \<and>
     kernel_inv (child_state s') Map.empty"
proof -
  obtain s p where J: "page_inv kernel_inv 12 Map.empty s [p \<mapsto> 100]" by (rule demo_page_block)
  with page_destroy_correct [OF bump.os_pages_axioms J] show ?thesis by blast
qed





text \<open>
  C32. The buffer factory refuses exactly null arguments, the size zero and buffers that are not
  8-aligned, without a change of state; otherwise it yields a valid empty allocator over the
  buffer.
\<close>

theorem make_fixed_buf_correct:
  assumes "unat buffer + unat n < 2 ^ 64" "unat n < 2 ^ 63"
  shows "if out = NULL \<or> buffer = NULL \<or> n = 0 \<or> \<not> 8 dvd unat buffer
    then make_fixed_buf_allocator out buffer n s = Inl (ALLO_ERR_INVAL, s)
    else \<exists>s'. make_fixed_buf_allocator out buffer n s = Inr s' \<and> buf_inv buffer n s' Map.empty \<and> mem s' = mem s"
  using assms
  by (auto simp: make_fixed_buf_allocator_def ALLO_IS_ALIGNED_8 buf_inv_def size_ok_def)

theorem make_fixed_buf_correct_witness:
  "make_fixed_buf_allocator 8 4100 64 blank = Inl (ALLO_ERR_INVAL, blank) \<and>
   (\<exists>s'. make_fixed_buf_allocator 8 4096 64 blank = Inr s' \<and> buf_inv 4096 64 s' Map.empty)"
  using make_fixed_buf_correct [of 4100 64 8 blank] make_fixed_buf_correct [of 4096 64 8 blank] by auto

text \<open>
  C33. Growing the last block of a fixed buffer by a size that overflows the address space is
  accepted: the sum of the block's offset and the new size wraps, so a request near 2^64 returns
  the old address with the bump offset moved below the block.
\<close>

theorem buf_realloc_wraps:
  assumes "p + n = buf_buffer (self_ctx s) + buf_offset (self_ctx s)"
    and "p - buf_buffer (self_ctx s) = b" "m = - b" "n < m"
  shows "\<exists>s'. buf_realloc_fn p n m s = Some (p, s') \<and> buf_offset (self_ctx s') = 0"
  using assms by (auto simp: buf_realloc_fn_def Let_def)

theorem buf_realloc_wraps_witness:
  "\<exists>s1 s2 s3. buf_alloc_fn 8 demo_heap = Some (4096, s1) \<and> buf_alloc_fn 8 s1 = Some (4104, s2) \<and>
     buf_realloc_fn 4104 8 0xFFFFFFFFFFFFFFF8 s2 = Some (4104, s3) \<and> buf_offset (self_ctx s3) = 0"
proof -
  obtain s1 where s1: "buf_alloc_fn 8 demo_heap = Some (4096, s1)"
    "self_ctx s1 = \<lparr>buf_buffer = 4096, buf_size = 65536, buf_offset = 8\<rparr>"
    by (simp add: buf_eval)
  obtain s2 where s2: "buf_alloc_fn 8 s1 = Some (4104, s2)"
    "self_ctx s2 = \<lparr>buf_buffer = 4096, buf_size = 65536, buf_offset = 16\<rparr>"
    using s1(2) by (simp add: buf_alloc_fn_def allo_align_up_def)
  have "\<exists>s3. buf_realloc_fn 4104 8 0xFFFFFFFFFFFFFFF8 s2 = Some (4104, s3) \<and> buf_offset (self_ctx s3) = 0"
    by (rule buf_realloc_wraps [where b = 8]) (simp_all add: s2(2))
  with s1(1) s2(1) show ?thesis by blast
qed

text \<open>
  C34. Two independent allocators on disjoint heaps, the primary one of which knows its own
  blocks, make one allocator on the union of the heaps, and the calls go where they should. A
  request is the primary's answer on the state before, and when that is null the fallback's
  answer. A block is freed by the one whose heap it is in and by no other. A block of the
  fallback is reallocated by the fallback; one of the primary by the primary, and when that
  refuses, the answer is the address of a new block of the fallback, which then has the bytes,
  the old block being free again, or null exactly when the fallback has none either.
\<close>

theorem fallback_contract:
  assumes P: "exact_allocator p InvP hp limp" and Q: "allocator q InvQ hq limq" and apart: "hp \<inter> hq = {}"
    and J: "fallback_inv p InvP q InvQ s L"
  shows "(unat n < min limp limq \<longrightarrow> (\<exists>r s'. fallback_alloc_fn n s = Some (r, s') \<and>
      alloc_post (fallback_inv p InvP q InvQ) (hp \<union> hq) L n s r s' \<and>
      (\<exists>r1 s1. call_child (allo_alloc (on_fst p) n) s = Some (r1, s1) \<and>
        (if r1 \<noteq> NULL then (r, s') = (r1, s1) else call_child (allo_alloc (on_snd q) n) s1 = Some (r, s'))))) \<and>
    (L r = Some k \<longrightarrow> (\<exists>s'. fallback_free_fn r k s = Some ((), s') \<and>
      free_post (fallback_inv p InvP q InvQ) (hp \<union> hq) L r s s' \<and>
      call_child (if r \<in> hp then allo_free (on_fst p) r k else allo_free (on_snd q) r k) s = Some ((), s'))) \<and>
    (L r = Some k \<longrightarrow> m \<noteq> 0 \<longrightarrow> unat m < min limp limq \<longrightarrow> (\<exists>r' s'. fallback_realloc_fn r k m s = Some (r', s') \<and>
      realloc_post (fallback_inv p InvP q InvQ) (hp \<union> hq) L r k m s r' s' \<and>
      (if r \<in> hp
       then \<exists>r1 s1. call_child (allo_realloc (on_fst p) r k m) s = Some (r1, s1) \<and>
         (if r1 \<noteq> NULL then (r', s') = (r1, s1)
          else \<exists>s2. call_child (allo_alloc (on_snd q) m) s1 = Some (r', s2))
       else call_child (allo_realloc (on_snd q) r k m) s = Some (r', s'))))"
proof -
  have ind: "independent p InvP hp limp q InvQ hq limq"
    using P Q apart by (simp add: independent_def independent_axioms_def)
  show ?thesis
  proof (intro conjI impI)
    assume n: "unat n < min limp limq"
    then have "unat n < limp" by simp
    from independent.fallback_alloc_dispatch [OF ind J this] obtain r1 s1 where
      d: "call_child (allo_alloc (on_fst p) n) s = Some (r1, s1)"
        "fallback_alloc_fn n s = (if r1 \<noteq> NULL then Some (r1, s1) else call_child (allo_alloc (on_snd q) n) s1)" by blast
    obtain r s' where run: "fallback_alloc_fn n s = Some (r, s')"
      and post: "alloc_post (fallback_inv p InvP q InvQ) (hp \<union> hq) L n s r s'"
      using independent.fallback_alloc_law [OF ind J n] by blast
    have "if r1 \<noteq> NULL then (r, s') = (r1, s1) else call_child (allo_alloc (on_snd q) n) s1 = Some (r, s')"
      using d(2) run by (simp split: if_splits)
    with d(1) run post show "\<exists>r s'. fallback_alloc_fn n s = Some (r, s') \<and>
      alloc_post (fallback_inv p InvP q InvQ) (hp \<union> hq) L n s r s' \<and>
      (\<exists>r1 s1. call_child (allo_alloc (on_fst p) n) s = Some (r1, s1) \<and>
        (if r1 \<noteq> NULL then (r, s') = (r1, s1) else call_child (allo_alloc (on_snd q) n) s1 = Some (r, s')))"
      by blast
  next
    assume r: "L r = Some k"
    show "\<exists>s'. fallback_free_fn r k s = Some ((), s') \<and>
      free_post (fallback_inv p InvP q InvQ) (hp \<union> hq) L r s s' \<and>
      call_child (if r \<in> hp then allo_free (on_fst p) r k else allo_free (on_snd q) r k) s = Some ((), s')"
      using independent.fallback_free_law [OF ind J r] independent.fallback_free_dispatch [OF ind J r] by auto
  next
    assume r: "L r = Some k" and m: "m \<noteq> 0" "unat m < min limp limq"
    obtain r' s' where run: "fallback_realloc_fn r k m s = Some (r', s')"
      and post: "realloc_post (fallback_inv p InvP q InvQ) (hp \<union> hq) L r k m s r' s'"
      using independent.fallback_realloc_law [OF ind J r m(2,1)] by blast
    show "\<exists>r' s'. fallback_realloc_fn r k m s = Some (r', s') \<and>
      realloc_post (fallback_inv p InvP q InvQ) (hp \<union> hq) L r k m s r' s' \<and>
      (if r \<in> hp
       then \<exists>r1 s1. call_child (allo_realloc (on_fst p) r k m) s = Some (r1, s1) \<and>
         (if r1 \<noteq> NULL then (r', s') = (r1, s1)
          else \<exists>s2. call_child (allo_alloc (on_snd q) m) s1 = Some (r', s2))
       else call_child (allo_realloc (on_snd q) r k m) s = Some (r', s'))"
      by (intro exI conjI, rule run, rule post, rule independent.fallback_realloc_dispatch [OF ind J r run])
  qed
qed

theorem fallback_contract_witness:
  "\<exists>s :: ((unit pool_context_t \<times> unit) \<times> (allocator_buf_context_t \<times> unit)) fallback_machine.
     \<exists>s'. fallback_alloc_fn 100 s = Some (8192, s') \<and>
     fallback_inv pool_allo (pool_inv 4096 32 8) buf_allo (buf_inv 8192 1024) s' [8192 \<mapsto> 100]"
proof -
  obtain s :: "((unit pool_context_t \<times> unit) \<times> (allocator_buf_context_t \<times> unit)) fallback_machine"
    where J: "fallback_inv pool_allo (pool_inv 4096 32 8) buf_allo (buf_inv 8192 1024) s Map.empty"
      and refused: "\<And>r s1. call_child (allo_alloc (on_fst pool_allo) 100) s = Some (r, s1) \<Longrightarrow> r = NULL \<and> s1 = s"
      and given: "\<And>r s1. call_child (allo_alloc (on_snd buf_allo) 100) s = Some (r, s1) \<Longrightarrow> r = 8192"
    by (rule demo_fallback) blast
  have "region 4096 (32 * 8) \<inter> region 8192 1024 = {}" by (rule region_disjoint) simp
  from fallback_contract [OF pool.exact_allocator_axioms buf.allocator_axioms this J, of 100]
  obtain r s' r1 s1 where h: "fallback_alloc_fn 100 s = Some (r, s')"
    "alloc_post (fallback_inv pool_allo (pool_inv 4096 32 8) buf_allo (buf_inv 8192 1024))
       (region 4096 (32 * 8) \<union> region 8192 1024) Map.empty 100 s r s'"
    "call_child (allo_alloc (on_fst pool_allo) 100) s = Some (r1, s1)"
    "if r1 \<noteq> NULL then (r, s') = (r1, s1) else call_child (allo_alloc (on_snd buf_allo) 100) s1 = Some (r, s')"
    by auto
  have "r1 = NULL" "s1 = s" using refused [OF h(3)] by simp_all
  then have "r = 8192" using given h(4) by simp
  with h(1,2) show ?thesis by (auto simp: alloc_post_def)
qed

text \<open>
  C35. Over any allocator that meets the contract, calloc of a product below the limit returns
  null or a fresh block all of whose bytes are zero, and keeps every live byte.
\<close>

theorem calloc_zeroes:
  assumes A: "allocator a Inv heap lim" and I: "Inv s L" and sz: "unat k * unat n < lim"
  shows "\<exists>p s'. allo_calloc a k n s = Some (p, s') \<and> kept heap L (mem s) (mem s') \<and>
    (if p = NULL then Inv s' L
     else p \<notin> dom L \<and> Inv s' (L(p \<mapsto> k * n)) \<and> (\<forall>x \<in> region p (k * n). mem s' x = 0))"
proof (cases rule: allocator.calloc_ok [OF A I sz])
  case (1 s')
  then show ?thesis by (intro exI [of _ NULL] exI [of _ s']) simp
next
  case (2 p s')
  show ?thesis
    by (intro exI [of _ p] exI [of _ s'] conjI, rule 2(1), rule 2(5),
      unfold if_not_P [OF 2(2)], intro conjI 2(3,4,7))
qed

theorem calloc_zeroes_witness:
  "\<exists>p s'. allo_calloc buf_allo 10 8 demo_heap = Some (p, s') \<and>
     (p \<noteq> NULL \<longrightarrow> (\<forall>x \<in> region p (10 * 8). mem s' x = 0))"
  using calloc_zeroes [OF buf.allocator_axioms demo_heap_inv, of 10 8] by (auto split: if_splits)

text \<open>
  C36. The public realloc over any allocator that meets the contract: size zero frees the block
  and returns null, an equal size returns the block unchanged, and every other size returns null
  with the block intact or a block with the first min(old, new) bytes.
\<close>

theorem realloc_wrapper:
  assumes A: "allocator a Inv heap lim" and I: "Inv s L" and p: "L p = Some n" and m: "unat m < lim"
  shows "if m = 0 then \<exists>s'. allo_realloc a p n 0 s = Some (NULL, s') \<and> Inv s' (L(p := None))
    else if m = n then allo_realloc a p n m s = Some (p, s)
    else \<exists>q s'. allo_realloc a p n m s = Some (q, s') \<and> realloc_post Inv heap L p n m s q s'"
proof -
  have "p \<noteq> NULL"
    using live_okD(1) [OF allocator.live_inv [OF A I] p] by (simp add: block_ok_def)
  then have same: "m = n \<Longrightarrow> m \<noteq> 0 \<Longrightarrow> allo_realloc a p n m s = Some (p, s)"
    by (simp add: allo_realloc_def)
  have zero: "\<exists>s'. allo_realloc a p n 0 s = Some (NULL, s') \<and> Inv s' (L(p := None))"
    by (rule allocator.allo_realloc_zero [OF A I p]) blast
  have other: "\<exists>q s'. allo_realloc a p n m s = Some (q, s') \<and> realloc_post Inv heap L p n m s q s'" if "m \<noteq> 0"
    by (rule allocator.allo_realloc_ok [OF A I p m that]) blast
  show ?thesis using same zero other by argo
qed

theorem realloc_wrapper_witness:
  "\<exists>s1 q s2. buf_alloc_fn 1024 demo_heap = Some (4096, s1) \<and> allo_realloc buf_allo 4096 1024 100 s1 = Some (q, s2) \<and>
     realloc_post heap_inv heap_area [4096 \<mapsto> 1024] 4096 1024 100 s1 q s2"
proof -
  obtain s1 where s1: "buf_alloc_fn 1024 demo_heap = Some (4096, s1)" by (simp add: buf_eval)
  then have J: "heap_inv s1 [4096 \<mapsto> 1024]"
    using buf_alloc_law [OF demo_heap_inv, of 1024] by (auto simp: alloc_post_def)
  have p: "[4096 \<mapsto> 1024] (4096 :: ptr) = Some (1024 :: size_t)" by simp
  from realloc_wrapper [OF buf.allocator_axioms J p, of 100] s1 show ?thesis by auto
qed

text \<open>
  C37. The bit set of the buddy allocator is a set: reading a bit back after setting or clearing
  one gives the new value for that bit and the old value for every other, at every address and
  index.
\<close>

theorem bitset_roundtrip:
  "(get_bit bs c (mem (Buddy.set_bit bs b s)) \<noteq> 0) = (if c = b then True else get_bit bs c (mem s) \<noteq> 0) \<and>
   (get_bit bs c (mem (Buddy.clear_bit bs b s)) \<noteq> 0) = (if c = b then False else get_bit bs c (mem s) \<noteq> 0)"
  by (simp add: get_bit_set get_bit_clear)

text \<open>
  C38. Any number of threads running the statements of the functions one at a time, in any
  interleaving: at most one is between lock and unlock, in every reachable state, and then the
  mutex is locked.
\<close>

theorem mtx_exclusion:
  assumes "mtx_init a S0" "mtx_reach S0 S" "holds (th_pc S t)" "holds (th_pc S u)"
  shows "t = u \<and> mtx_locked (mtx_mutex (self_ctx (th_machine S)))"
  using mtx_reach_global [OF assms(2,1)] assms(3,4) by (auto simp: mtx_global_def)

theorem mtx_exclusion_witness:
  "\<exists>S0 S :: heap_threads. mtx_init buf_allo S0 \<and> mtx_reach S0 S \<and> holds (th_pc S 1) \<and>
     mtx_locked (mtx_mutex (self_ctx (th_machine S)))"
proof -
  obtain S0 S :: "heap_threads" where "mtx_init buf_allo S0" "mtx_reach S0 S" "holds (th_pc S 1)"
    by (rule demo_threads)
  with mtx_exclusion [of buf_allo S0 S 1 1] show ?thesis by blast
qed

text \<open>
  C39. Every interleaving of the statements of any number of threads is free of data races on the
  target (no two threads are ever about to run its code), and has the effect of running their
  operations one after the other on the target, in the order in which its code ran, with the same
  results.
\<close>

theorem mtx_linearizable:
  assumes "mtx_init a S0" "mtx_reach S0 S"
  shows "replay a (th_log S) (child_state (th_machine S0)) = Some (child_state (th_machine S)) \<and>
    (\<forall>t u. at_target (th_pc S t) \<and> at_target (th_pc S u) \<longrightarrow> t = u)"
  using mtx_reach_global [OF assms(2,1)] mtx_no_race [OF mtx_reach_global [OF assms(2,1)]]
  by (simp add: mtx_global_def)

theorem mtx_linearizable_witness:
  "\<exists>S0 S :: heap_threads. mtx_init buf_allo S0 \<and> mtx_reach S0 S \<and> holds (th_pc S 1) \<and>
     replay buf_allo (th_log S) (child_state (th_machine S0)) = Some (child_state (th_machine S))"
proof -
  obtain S0 S :: "heap_threads" where "mtx_init buf_allo S0" "mtx_reach S0 S" "holds (th_pc S 1)"
    by (rule demo_threads)
  with mtx_linearizable [of buf_allo S0 S] show ?thesis by blast
qed

text \<open>
  C40. No deadlock and no stuck operation: in every reachable state of such threads in which some
  thread is in a call, some thread in a call can take a step; every operation inside the lock
  returns, since its arguments are still a block of that thread whatever the others did.
\<close>

theorem mtx_clients_progress:
  assumes A: "allocator a Inv heap lim" and i: "mtx_init a S0" and I: "Inv (child_state (th_machine S0)) Map.empty"
    and R: "client_reach lim S0 S" and t: "th_pc S t \<noteq> Outside"
  shows "\<exists>u S'. mtx_step S S' \<and> th_pc S u \<noteq> Outside \<and> th_pc S' u \<noteq> th_pc S u"
  by (rule allocator.clients_progress [OF A R i I t])

theorem mtx_clients_progress_witness:
  "\<exists>S S' :: heap_threads. th_log S = [(1, Op_alloc 100, R_ptr 4096)] \<and> mtx_step S S'"
proof -
  obtain S0 S :: heap_threads where h: "mtx_init buf_allo S0" "client_reach (2 ^ 63) S0 S"
    "heap_inv (child_state (th_machine S0)) Map.empty" "th_log S = [(1, Op_alloc 100, R_ptr 4096)]" "th_pc S 1 \<noteq> Outside"
    by (rule demo_clients)
  from mtx_clients_progress [OF buf.allocator_axioms h(1,3,2,5)] h(4) show ?thesis by blast
qed

section \<open>Further facts\<close>

text \<open>
  A pool fails only when it is exhausted: with fewer live blocks than blocks, every request of at
  most the block size succeeds.
\<close>

theorem pool_alloc_succeeds:
  assumes "pool_inv B bs N s L" "card (dom L) < unat N" "n \<noteq> 0" "unat n \<le> unat bs"
  shows "\<exists>p s'. pool_alloc_fn n s = Some (p, s') \<and> p \<noteq> NULL"
  by (rule pool_alloc_success [OF assms]) blast

theorem pool_alloc_succeeds_witness:
  "\<exists>s p s'. make_pool_allocator 8 (Some buf_allo) NULL 20 8 demo_heap = Some (Inr s) \<and>
     pool_alloc_fn 20 s = Some (p, s') \<and> p \<noteq> NULL"
proof -
  obtain s B where "make_pool_allocator 8 (Some buf_allo) NULL 20 8 demo_heap = Some (Inr s)"
    and J: "pool_inv B 24 8 s Map.empty" by (rule demo_pool)
  with pool_alloc_succeeds [OF J, of 20] show ?thesis by auto
qed

text \<open>
  The pool factory with a buffer from the child, when the product of the rounded block size and
  the number of blocks is below the child's limit: the error for lack of memory with the child
  unchanged, or a pool with every block free that holds exactly one block at the child.
\<close>

theorem make_pool_correct:
  assumes A: "allocator a Inv heap lim" and I: "Inv s F"
    and args: "out \<noteq> NULL" "block_size \<noteq> 0" "tot \<noteq> 0" "unat block_size < 2 ^ 63"
      "unat (pool_block_round block_size) * unat tot < lim"
  shows "(\<exists>s'. make_pool_allocator out (Some a) NULL block_size tot s = Some (Inl (ALLO_ERR_NOMEM, s')) \<and> Inv s' F) \<or>
    (\<exists>s' B. make_pool_allocator out (Some a) NULL block_size tot s = Some (Inr s') \<and>
       pool_inv B (pool_block_round block_size) tot s' Map.empty \<and>
       Inv (child_state s') (F(B \<mapsto> pool_block_round block_size * tot)))"
  by (cases rule: allocator.make_pool_owned [OF A I args]) (auto simp: pool_backed_def)

theorem make_pool_correct_witness:
  "\<exists>s' B. make_pool_allocator 8 (Some buf_allo) NULL 20 8 demo_heap = Some (Inr s') \<and>
     pool_inv B 24 8 s' Map.empty"
proof -
  have r: "pool_block_round 20 = 24" by (simp add: pool_block_round_def allo_align_up_def)
  show ?thesis
    using make_pool_correct [OF buf.allocator_axioms demo_heap_inv, of 8 20 8] demo_pool_made
    by (auto simp: r)
qed

text \<open>
  The arena factory over any child that meets the contract: the error for lack of memory with the
  child's blocks unchanged, or an empty arena.
\<close>

theorem make_arena_correct:
  assumes A: "allocator a Inv heap lim" and I: "Inv s F"
    and args: "out \<noteq> NULL" "bsz \<noteq> 0" "unat bsz + 24 < lim"
  shows "(\<exists>s'. make_arena_allocator out (Some a) bsz s = Some (Inl (ALLO_ERR_NOMEM, s')) \<and> Inv s' F) \<or>
    (\<exists>s'. make_arena_allocator out (Some a) bsz s = Some (Inr s') \<and> arena_inv a Inv heap F bsz s' Map.empty)"
  by (cases rule: allocator.make_arena_ok [OF A I args]) auto

theorem make_arena_correct_witness:
  "\<exists>s'. make_arena_allocator 8 (Some buf_allo) 64 demo_heap = Some (Inr s') \<and>
     arena_inv buf_allo heap_inv heap_area Map.empty 64 s' Map.empty"
  using make_arena_correct [OF buf.allocator_axioms demo_heap_inv, of 8 64] demo_arena_made by auto

text \<open>
  Every block of the page allocator starts at a page, and is followed by no other block before
  the end of its last page.
\<close>

theorem page_blocks_aligned:
  assumes os: "os_pages os OInv osheap k" and J: "page_inv OInv k F s L" and p: "L p = Some n"
    and q: "L q = Some m" "p \<noteq> q"
  shows "2 ^ k dvd unat p \<and> unat n \<le> unat (page_round (2 ^ k) n) \<and> unat (page_round (2 ^ k) n) < unat n + 2 ^ k \<and>
    region p (page_round (2 ^ k) n) \<inter> region q m = {}"
  using os_pages.page_block_aligned [OF os J, of p] os_pages.page_block_apart [OF os J p q] p by blast

theorem page_blocks_aligned_witness:
  "\<exists>s p q s'. page_inv kernel_inv 12 Map.empty s [p \<mapsto> 100, q \<mapsto> 5000] \<and>
     region p (page_round 4096 100) \<inter> region q 5000 = {}"
proof -
  obtain s p q where J: "page_inv kernel_inv 12 Map.empty s [p \<mapsto> 100, q \<mapsto> 5000]" and ne: "p \<noteq> q"
    by (rule demo_page_two)
  with page_blocks_aligned [OF bump.os_pages_axioms J, of p 100 q 5000] show ?thesis by auto
qed

text \<open>
  Reallocation within the same number of pages returns the old address without a system call:
  memory and the state of the operating system are untouched.
\<close>

theorem page_realloc_in_place:
  assumes "p \<noteq> NULL" "page_round (pg_page_size (self_ctx s)) n = page_round (pg_page_size (self_ctx s)) m"
  shows "\<exists>s'. page_realloc_fn os p n m s = Some (p, s') \<and> mem s' = mem s \<and> env s' = env s"
  using assms by (simp add: page_realloc_fn_def Let_def)

theorem page_realloc_in_place_witness:
  "\<exists>s p s'. page_inv kernel_inv 12 Map.empty s [p \<mapsto> 100] \<and> page_realloc_fn bump_os p 100 4096 s = Some (p, s')"
proof -
  obtain s p where J: "page_inv kernel_inv 12 Map.empty s [p \<mapsto> 100]" and p: "p \<noteq> NULL" by (rule demo_page_block)
  have "pg_page_size (self_ctx s) = 4096"
    using J bump.page_repD(1) by (force simp: page_inv_def)
  then show ?thesis
    using page_realloc_in_place [OF p, of s 100 4096 bump_os] J by (auto simp: page_round_def)
qed

text \<open>
  The page factory: the error for lack of memory with no mapping made, or a valid empty
  allocator.
\<close>

theorem make_page_correct:
  assumes os: "os_pages os OInv osheap k" and I: "OInv s F" and out: "out \<noteq> NULL"
  shows "(\<exists>s'. make_page_allocator os out s = Inl (ALLO_ERR_NOMEM, s') \<and> OInv s' F) \<or>
    (\<exists>s'. make_page_allocator os out s = Inr s' \<and> page_inv OInv k F s' Map.empty)"
  by (cases rule: os_pages.make_page_ok [OF os I out]) auto

theorem make_page_correct_witness:
  "\<exists>s. make_page_allocator bump_os 8 boot = Inr s \<and> page_inv kernel_inv 12 Map.empty s Map.empty"
proof -
  obtain s where "make_page_allocator bump_os 8 boot = Inr s" by (rule demo_page)
  with make_page_correct [OF bump.os_pages_axioms boot_inv, of 8] show ?thesis by auto
qed

text \<open>
  Over any C library whose malloc, realloc and free keep the standard's promises, the C allocator
  implements the abstract map of live blocks.
\<close>

theorem libc_contract:
  assumes C: "c_library lc Inv heap lim" and J: "Inv s L"
  shows "(unat n < lim \<longrightarrow> (\<exists>p s'. c_alloc_fn lc n s = Some (p, s') \<and> alloc_post Inv heap L n s p s')) \<and>
    (L p = Some k \<longrightarrow> (\<exists>s'. c_free_fn lc p k s = Some ((), s') \<and> free_post Inv heap L p s s')) \<and>
    (L p = Some k \<longrightarrow> m \<noteq> 0 \<longrightarrow> unat m < lim \<longrightarrow>
      (\<exists>q s'. c_realloc_fn lc p k m s = Some (q, s') \<and> realloc_post Inv heap L p k m s q s'))"
  using c_library.c_laws [OF C J] by (auto simp: c_allo_def)

theorem libc_contract_witness:
  "\<exists>p s'. c_alloc_fn (table_libc buf_allo) 100 (with_child Map.empty demo_heap) = Some (p, s') \<and>
     alloc_post (table_inv heap_inv) heap_area Map.empty 100 (with_child Map.empty demo_heap) p s'"
  using libc_contract [OF buf.table_library demo_libc, of 100] by auto

text \<open>
  A calloc whose product does not fit into 64 bits returns null without calling the allocator,
  for every allocator and state; one whose product fits is not refused for it.
\<close>

theorem calloc_overflow:
  assumes "2 ^ 64 \<le> unat k * unat n"
  shows "allo_calloc a k n s = Some (NULL, s)"
proof -
  have n: "n \<noteq> 0" using assms by auto
  have "(2 ^ 64 - 1) div unat n < unat k"
    using assms unat_pos64 [OF n] by (simp add: div_less_iff_less_mult)
  then have "(- 1) div n < k" by (simp add: word_less_nat_alt unat_div)
  then show ?thesis using n by (simp add: allo_calloc_def word_gt_0)
qed

theorem calloc_overflow_witness:
  "allo_calloc buf_allo 0x100000000 0x100000000 demo_heap = Some (NULL, demo_heap)"
  by (rule calloc_overflow) simp

text \<open>
  For two regions that do not overlap or wrap, the byte loop of the freestanding build has the
  effect of the hosted build's memcpy, whose overlap assertion holds.
\<close>

theorem memcpy_equivalent:
  assumes "dst \<noteq> NULL" "src \<noteq> NULL" "region dst n \<inter> region src n = {}"
    and "unat dst + unat n \<le> 2 ^ 64" "unat src + unat n \<le> 2 ^ 64"
  shows "allo_memcpy dst src n s = Some (allo_memcpy_freestanding dst src n s)"
proof -
  have "src + j \<noteq> dst + k" if "j < n" "k < n" for j k
    using region_offset [OF that(1) assms(5)] region_offset [OF that(2) assms(4)] assms(3) by auto
  then have "memcpy_loop 0 n dst src (mem s) = copy_bytes dst src n (mem s)"
    by (subst memcpy_loop_eq) (auto simp: copy_bytes_def)
  then show ?thesis
    using allo_memcpy_ok [OF assms(1-3)] by (simp add: allo_memcpy_freestanding_def)
qed

theorem memcpy_equivalent_witness:
  "allo_memcpy 4096 8192 100 blank = Some (allo_memcpy_freestanding 4096 8192 100 blank)"
  by (rule memcpy_equivalent) (simp_all add: region_disjoint)

text \<open>
  The byte loop of the freestanding build fills memory exactly as the hosted build's memset, for
  every address but null and every size.
\<close>

theorem memset_equivalent:
  assumes "p \<noteq> NULL"
  shows "allo_memset p c n s = Some (allo_memset_freestanding p c n s)"
  using assms by (simp add: allo_memset_def allo_memset_freestanding_def memset_loop_eq)

theorem memset_equivalent_witness:
  "allo_memset 4096 7 100 blank = Some (allo_memset_freestanding 4096 7 100 blank)"
  by (rule memset_equivalent) simp

text \<open>
  Rounding a size up to a power of two gives the next multiple, as long as the sum does not
  overflow.
\<close>

theorem align_up_bounds:
  assumes "k < 64" "unat n + 2 ^ k \<le> 2 ^ 64"
  shows "2 ^ k dvd unat (allo_align_up n (2 ^ k)) \<and> unat n \<le> unat (allo_align_up n (2 ^ k)) \<and>
    unat (allo_align_up n (2 ^ k)) < unat n + 2 ^ k"
proof -
  note eq = allo_align_up_pow2 [OF assms]
  let ?d = "(2 :: nat) ^ k" and ?x = "unat n + 2 ^ k - 1"
  have "?x div ?d * ?d + ?x mod ?d = ?x" by (rule div_mult_mod_eq)
  moreover have "?x mod ?d < ?d" "0 < ?d" by simp_all
  ultimately have "unat n \<le> ?x div ?d * ?d" "?x div ?d * ?d < unat n + ?d" by linarith+
  moreover have "2 ^ k dvd ?x div ?d * ?d" by simp
  ultimately show ?thesis unfolding eq by blast
qed

theorem align_up_bounds_witness: "2 ^ 3 dvd unat (allo_align_up 20 (2 ^ 3))"
  using align_up_bounds [of 3 20] by simp

text \<open>
  With the mutex free, every operation of the mutex allocator is the target's operation on the
  target's state, returns if that does, and leaves the mutex free.
\<close>

theorem mtx_transparent_ops:
  assumes d: "mtx_idle a s"
  shows "allo_mtx_alloc n s = call_child (allo_alloc a n) s \<and>
    allo_mtx_realloc p n m s = call_child (allo_realloc a p n m) s \<and>
    allo_mtx_free p n s = call_child (allo_free a p n) s \<and>
    allo_mtx_contains p s = call_child (allo_contains a p) s \<and>
    (allo_mtx_alloc n s = Some (r, s') \<longrightarrow> mtx_idle a s')"
  using mtx_transparent [OF d] call_child_idle [OF _ d] by auto

theorem mtx_transparent_ops_witness:
  "\<exists>s. make_mtx_allocator True 8 (Some buf_allo) demo_heap = Inr s \<and>
     allo_mtx_alloc 100 s = call_child (allo_alloc buf_allo 100) s"
proof -
  obtain s where mk: "make_mtx_allocator True 8 (Some buf_allo) demo_heap = Inr s"
    and "mtx_inv buf_allo heap_inv s Map.empty" by (rule demo_mtx)
  then have "mtx_idle buf_allo s" by (simp add: mtx_inv_def)
  from mk mtx_transparent_ops [OF this, of 100] show ?thesis by blast
qed

text \<open>
  No deadlock: if some thread has called an operation and the target's operation of the thread
  inside (if any) returns, then some thread in a call can take a step.
\<close>

theorem mtx_no_deadlock:
  assumes "mtx_init a S0" "mtx_reach S0 S" "th_pc S t \<noteq> Outside"
    and "\<And>u op code r. th_pc S u = Running (Do_target op # code) r \<Longrightarrow> run_op a op (child_state (th_machine S)) \<noteq> None"
  shows "\<exists>u S'. mtx_step S S' \<and> th_pc S u \<noteq> Outside \<and> th_pc S' u \<noteq> th_pc S u"
  by (rule mtx_progress [OF mtx_reach_global [OF assms(2,1)] assms(3)]) (rule assms(4))

theorem mtx_no_deadlock_witness:
  "\<exists>S0 S S' :: heap_threads. mtx_init buf_allo S0 \<and> mtx_reach S0 S \<and> mtx_step S S'"
proof -
  obtain S0 S :: "heap_threads" where h: "mtx_init buf_allo S0" "mtx_reach S0 S" "th_pc S 1 \<noteq> Outside"
    "\<And>u op code r. th_pc S u = Running (Do_target op # code) r \<Longrightarrow> run_op buf_allo op (child_state (th_machine S)) \<noteq> None"
    by (rule demo_threads) auto
  have "\<exists>u S'. mtx_step S S' \<and> th_pc S u \<noteq> Outside \<and> th_pc S' u \<noteq> th_pc S u"
    by (rule mtx_no_deadlock [OF h(1-3)]) (rule h(4))
  with h(1,2) show ?thesis by blast
qed

end
